(* ===== verification/Go_Prelude.thy ===== *)
theory Go_Prelude
  imports Main "HOL-Library.Word" "HOL-Library.Char_ord"
begin

text \<open>
  The language and standard-library layer of the development.  Go strings and byte slices are both
  byte sequences, so both are modelled by \<^typ>\<open>string\<close> (a list of 8-bit characters); the numeric
  value of a byte is \<open>bval\<close>.  Go's \<open>int\<close> and \<open>int64\<close> (and \<open>time.Duration\<close>, \<open>time.Time\<close> as
  nanoseconds) are \<^typ>\<open>int\<close>; where a product can leave the 64-bit range the wrap-around is written
  out with \<open>i64\<close>.  The functions below model what the source calls from \<open>strings\<close>, \<open>bytes\<close>,
  \<open>strconv\<close>, \<open>unicode/utf8\<close> and \<open>sort\<close>; the lemmas are the ones shared by the components.
\<close>

section \<open>Collections of facts\<close>

named_theorems go_str \<open>unfolding and algebra of the string functions\<close>
named_theorems go_defs \<open>constants of the source\<close>

type_synonym gostring = string
type_synonym bytes = string
type_synonym nanos = int

abbreviation nl :: char where "nl \<equiv> CHR 0x0A"
abbreviation cr :: char where "cr \<equiv> CHR 0x0D"
abbreviation tab :: char where "tab \<equiv> CHR 0x09"

definition bval :: "char \<Rightarrow> nat" where
  "bval c = of_char c"

lemma bval_less [simp]: "bval c < 256"
  by (simp add: bval_def)

lemma bval_eq_iff [simp]: "bval c = bval d \<longleftrightarrow> c = d"
  by (simp add: bval_def)

section \<open>Machine integers\<close>

text \<open>Two's-complement 64-bit wrap-around, as Go's \<open>int\<close> arithmetic does it.\<close>

definition i64 :: "int \<Rightarrow> int" where
  "i64 x = (x + 2 ^ 63) mod 2 ^ 64 - 2 ^ 63"

lemma i64_word: "i64 x = sint (word_of_int x :: 64 word)"
  by (simp add: i64_def sint_sbintrunc' signed_take_bit_eq_take_bit_shift take_bit_eq_mod
      flip: power_Suc)

lemma i64_id: "- (2 ^ 63) \<le> x \<Longrightarrow> x < 2 ^ 63 \<Longrightarrow> i64 x = x"
  by (simp add: i64_def)

lemma i64_lower: "- (2 ^ 63) \<le> i64 x"
  by (simp add: i64_def)

lemma i64_upper: "i64 x < 2 ^ 63"
  by (simp add: i64_def)

lemma i64_idem [simp]: "i64 (i64 x) = i64 x"
  by (rule i64_id) (rule i64_lower, rule i64_upper)

text \<open>Integer division truncates toward zero.\<close>

definition quo :: "int \<Rightarrow> int \<Rightarrow> int" where
  "quo a b = sgn a * sgn b * (\<bar>a\<bar> div \<bar>b\<bar>)"

lemma quo_nonneg: "0 \<le> a \<Longrightarrow> 0 < b \<Longrightarrow> quo a b = a div b"
  by (cases "a = 0") (simp_all add: quo_def)

section \<open>Time units, in nanoseconds\<close>

definition Millisecond :: nanos where [go_defs]: "Millisecond = 1000000"
definition Second :: nanos where [go_defs]: "Second = 1000000000"
definition Minute :: nanos where [go_defs]: "Minute = 60000000000"
definition Hour :: nanos where [go_defs]: "Hour = 3600000000000"

section \<open>Strings\<close>

definition HasPrefix :: "gostring \<Rightarrow> gostring \<Rightarrow> bool" where
  "HasPrefix s p \<longleftrightarrow> take (length p) s = p"

definition HasSuffix :: "gostring \<Rightarrow> gostring \<Rightarrow> bool" where
  "HasSuffix s p \<longleftrightarrow> length p \<le> length s \<and> drop (length s - length p) s = p"

definition TrimPrefix :: "gostring \<Rightarrow> gostring \<Rightarrow> gostring" where
  "TrimPrefix s p = (if HasPrefix s p then drop (length p) s else s)"

definition TrimSuffix :: "gostring \<Rightarrow> gostring \<Rightarrow> gostring" where
  "TrimSuffix s p = (if HasSuffix s p then take (length s - length p) s else s)"

fun split_on :: "char \<Rightarrow> gostring \<Rightarrow> gostring list" where
  "split_on c [] = [[]]"
| "split_on c (x # xs) =
     (if x = c then [] # split_on c xs
      else (case split_on c xs of [] \<Rightarrow> [[x]] | y # ys \<Rightarrow> (x # y) # ys))"

fun join :: "gostring \<Rightarrow> gostring list \<Rightarrow> gostring" where
  "join sep [] = []"
| "join sep [x] = x"
| "join sep (x # y # ys) = x @ sep @ join sep (y # ys)"

fun IndexByte :: "bytes \<Rightarrow> char \<Rightarrow> nat option" where
  "IndexByte [] c = None"
| "IndexByte (x # xs) c = (if x = c then Some 0 else map_option Suc (IndexByte xs c))"

fun LastIndexByte :: "bytes \<Rightarrow> char \<Rightarrow> nat option" where
  "LastIndexByte [] c = None"
| "LastIndexByte (x # xs) c =
     (case LastIndexByte xs c of
        Some i \<Rightarrow> Some (Suc i)
      | None \<Rightarrow> if x = c then Some 0 else None)"

fun Contains :: "gostring \<Rightarrow> gostring \<Rightarrow> bool" where
  "Contains [] sub = (sub = [])"
| "Contains (x # xs) sub = (HasPrefix (x # xs) sub \<or> Contains xs sub)"

definition ContainsAny :: "gostring \<Rightarrow> gostring \<Rightarrow> bool" where
  "ContainsAny s chars \<longleftrightarrow> list_ex (\<lambda>c. c \<in> set chars) s"

definition TrimRight :: "gostring \<Rightarrow> gostring \<Rightarrow> gostring" where
  "TrimRight s cutset = rev (dropWhile (\<lambda>c. c \<in> set cutset) (rev s))"

definition TrimLeft :: "gostring \<Rightarrow> gostring \<Rightarrow> gostring" where
  "TrimLeft s cutset = dropWhile (\<lambda>c. c \<in> set cutset) s"

text \<open>
  \<open>strings.ToLower\<close>, \<open>strings.ToUpper\<close> and \<open>strings.EqualFold\<close> as far as a comparison with ASCII text can see them:
  ASCII letters, and the non-ASCII letters whose lower case (dotted capital I, the Kelvin sign),
  upper case (dotless i, the long s) or case fold (the Kelvin sign, the long s) is an ASCII letter.  All other bytes are kept.
\<close>

definition lower_char :: "char \<Rightarrow> char" where
  "lower_char c = (if 65 \<le> bval c \<and> bval c \<le> 90 then char_of (bval c + 32) else c)"

fun ToLower :: "gostring \<Rightarrow> gostring" where
  "ToLower [] = []"
| "ToLower (a # s) =
     (case s of
        b # t \<Rightarrow>
          if a = CHR 0xC4 \<and> b = CHR 0xB0 then CHR ''i'' # ToLower t
          else if a = CHR 0xE2 \<and> b = CHR 0x84 \<and> t \<noteq> [] \<and> hd t = CHR 0xAA then CHR ''k'' # ToLower (tl t)
          else lower_char a # ToLower s
      | [] \<Rightarrow> [lower_char a])"

definition upper_char :: "char \<Rightarrow> char" where
  "upper_char c = (if 97 \<le> bval c \<and> bval c \<le> 122 then char_of (bval c - 32) else c)"

fun ToUpper :: "gostring \<Rightarrow> gostring" where
  "ToUpper [] = []"
| "ToUpper (a # s) =
     (case s of
        b # t \<Rightarrow>
          if a = CHR 0xC4 \<and> b = CHR 0xB1 then CHR ''I'' # ToUpper t
          else if a = CHR 0xC5 \<and> b = CHR 0xBF then CHR ''S'' # ToUpper t
          else upper_char a # ToUpper s
      | [] \<Rightarrow> [upper_char a])"

fun fold_case :: "gostring \<Rightarrow> gostring" where
  "fold_case [] = []"
| "fold_case (a # s) =
     (case s of
        b # t \<Rightarrow>
          if a = CHR 0xC5 \<and> b = CHR 0xBF then CHR ''s'' # fold_case t
          else if a = CHR 0xE2 \<and> b = CHR 0x84 \<and> t \<noteq> [] \<and> hd t = CHR 0xAA then CHR ''k'' # fold_case (tl t)
          else lower_char a # fold_case s
      | [] \<Rightarrow> [lower_char a])"

definition EqualFold :: "gostring \<Rightarrow> gostring \<Rightarrow> bool" where
  "EqualFold s t \<longleftrightarrow> fold_case s = fold_case t"

section \<open>Numbers as text\<close>

fun nat_digits :: "nat \<Rightarrow> string" where
  "nat_digits n =
     (if n < 10 then [char_of (48 + n)] else nat_digits (n div 10) @ [char_of (48 + n mod 10)])"

declare nat_digits.simps [simp del]

definition Itoa :: "int \<Rightarrow> string" where
  "Itoa n = (if n < 0 then CHR ''-'' # nat_digits (nat (- n)) else nat_digits (nat n))"

definition is_digit :: "char \<Rightarrow> bool" where
  "is_digit c \<longleftrightarrow> 48 \<le> bval c \<and> bval c \<le> 57"

definition digits_val :: "string \<Rightarrow> nat" where
  "digits_val s = foldl (\<lambda>n c. 10 * n + (bval c - 48)) 0 s"

text \<open>\<open>strconv.Atoi\<close>: an optional sign, then one or more decimal digits, within 64 bits.\<close>

definition Atoi :: "string \<Rightarrow> int option" where
  "Atoi s =
     (let neg = HasPrefix s ''-'';
          body = (if neg \<or> HasPrefix s ''+'' then tl s else s);
          v = (if neg then - int (digits_val body) else int (digits_val body))
      in if body = [] \<or> \<not> list_all is_digit body then None
         else if v < - (2 ^ 63) \<or> 2 ^ 63 \<le> v then None
         else Some v)"

text \<open>Hexadecimal digits, upper or lower case on input, lower case on output.\<close>

definition hex_val :: "char \<Rightarrow> nat option" where
  "hex_val c =
     (let v = bval c in
      if 48 \<le> v \<and> v \<le> 57 then Some (v - 48)
      else if 97 \<le> v \<and> v \<le> 102 then Some (v - 87)
      else if 65 \<le> v \<and> v \<le> 70 then Some (v - 55)
      else None)"

definition hex_digit :: "nat \<Rightarrow> char" where
  "hex_digit n = (if n < 10 then char_of (48 + n) else char_of (87 + n))"

fun hex_text :: "nat \<Rightarrow> string" where
  "hex_text n = (if n < 16 then [hex_digit n] else hex_text (n div 16) @ [hex_digit (n mod 16)])"

declare hex_text.simps [simp del]

section \<open>Lemmas on split and join\<close>

lemma split_on_not_Nil [simp]: "split_on c s \<noteq> []"
  by (induction s) (auto split: list.splits)

lemma join_Cons: "join sep (x # xs) = (if xs = [] then x else x @ sep @ join sep xs)"
  by (cases xs) auto

lemma join_split_on [simp]: "join [c] (split_on c s) = s"
proof (induction s)
  case (Cons x xs)
  obtain y ys where y: "split_on c xs = y # ys"
    using split_on_not_Nil [of c xs] by (cases "split_on c xs") auto
  with Cons show ?case by (auto simp: join_Cons split: if_splits)
qed simp

lemma split_on_no_sep: "c \<notin> set s \<Longrightarrow> split_on c s = [s]"
  by (induction s) auto

lemma split_on_append_sep: "c \<notin> set s \<Longrightarrow> split_on c (s @ c # t) = s # split_on c t"
  by (induction s) auto

lemma split_on_join:
  "xs \<noteq> [] \<Longrightarrow> \<forall>x \<in> set xs. c \<notin> set x \<Longrightarrow> split_on c (join [c] xs) = xs"
  by (induction xs) (auto simp: join_Cons split_on_no_sep split_on_append_sep)

lemma split_on_elem_no_sep: "x \<in> set (split_on c s) \<Longrightarrow> c \<notin> set x"
  by (induction s arbitrary: x) (auto split: if_splits list.splits)

lemma length_split_on: "length (split_on c s) = Suc (count_list s c)"
  by (induction s) (auto split: list.splits)

section \<open>Lemmas on byte positions\<close>

lemma IndexByte_None [simp]: "IndexByte s c = None \<longleftrightarrow> c \<notin> set s"
  by (induction s) auto

lemma IndexByte_notin [simp]: "c \<notin> set s \<Longrightarrow> IndexByte s c = None"
  by simp

lemma IndexByte_Some:
  "IndexByte s c = Some i \<Longrightarrow> i < length s \<and> s ! i = c \<and> c \<notin> set (take i s)"
  by (induction s arbitrary: i) (auto split: if_splits)

lemma IndexByte_append: "c \<notin> set s \<Longrightarrow> IndexByte (s @ c # t) c = Some (length s)"
  by (induction s) auto

lemma LastIndexByte_None [simp]: "LastIndexByte s c = None \<longleftrightarrow> c \<notin> set s"
  by (induction s) (auto split: option.splits)

lemma LastIndexByte_notin [simp]: "c \<notin> set s \<Longrightarrow> LastIndexByte s c = None"
  by simp

lemma LastIndexByte_Some:
  "LastIndexByte s c = Some i \<Longrightarrow> i < length s \<and> s ! i = c \<and> c \<notin> set (drop (Suc i) s)"
  by (induction s arbitrary: i) (auto split: option.splits if_splits)

lemma take_Suc_nth: "i < length s \<Longrightarrow> take (Suc i) s = take i s @ [s ! i]"
  by (rule take_Suc_conv_app_nth)

lemma count_list_append [simp]: "count_list (xs @ ys) c = count_list xs c + count_list ys c"
  by (induction xs) auto

lemma count_list_take_drop: "count_list (take n xs) c + count_list (drop n xs) c = count_list xs c"
  by (metis append_take_drop_id count_list_append)

lemma count_list_pos_iff: "0 < count_list xs c \<longleftrightarrow> c \<in> set xs"
  by (induction xs) auto

lemma HasPrefix_iff: "HasPrefix s p \<longleftrightarrow> (\<exists>r. s = p @ r)"
  unfolding HasPrefix_def by (metis append_eq_conv_conj append_take_drop_id)

lemma HasPrefix_append [simp]: "HasPrefix (p @ r) p"
  by (simp add: HasPrefix_def)

lemma TrimSuffix_single:
  "TrimSuffix s [c] = (if s \<noteq> [] \<and> last s = c then butlast s else s)"
  by (cases s rule: rev_cases) (auto simp: TrimSuffix_def HasSuffix_def)

section \<open>Decimal text\<close>

lemma bval_char_of: "(n :: nat) < 256 \<Longrightarrow> bval (char_of n) = n"
  by (simp add: bval_def)

lemma is_digit_char_of: "(n :: nat) < 10 \<Longrightarrow> is_digit (char_of (48 + n))"
  by (simp add: is_digit_def bval_char_of)

lemma is_digit_nat_digits: "list_all is_digit (nat_digits n)"
proof (induction n rule: nat_digits.induct)
  case (1 n)
  then show ?case
    by (subst nat_digits.simps) (auto simp: is_digit_char_of)
qed

lemma nat_digits_not_Nil [simp]: "nat_digits n \<noteq> []"
  by (subst nat_digits.simps) simp

lemma digits_val_snoc: "digits_val (s @ [c]) = 10 * digits_val s + (bval c - 48)"
  by (simp add: digits_val_def)

lemma digits_val_nat_digits [simp]: "digits_val (nat_digits n) = n"
proof (induction n rule: nat_digits.induct)
  case (1 n)
  show ?case
  proof (cases "n < 10")
    case True
    then show ?thesis
      by (subst nat_digits.simps) (simp add: digits_val_def bval_char_of)
  next
    case False
    with 1 show ?thesis
      by (subst nat_digits.simps) (simp add: digits_val_snoc bval_char_of)
  qed
qed

lemma nat_digits_inj: "nat_digits m = nat_digits n \<Longrightarrow> m = n"
  by (metis digits_val_nat_digits)

lemma is_digit_not:
  "is_digit c \<Longrightarrow> c \<noteq> CHR ''-''" "is_digit c \<Longrightarrow> c \<noteq> CHR ''+''" "is_digit c \<Longrightarrow> c \<noteq> nl"
  "is_digit c \<Longrightarrow> c \<noteq> tab" "is_digit c \<Longrightarrow> c \<noteq> CHR '' ''"
  by (auto simp: is_digit_def bval_def)

lemma nat_digits_no_sign: "hd (nat_digits n) \<noteq> CHR ''-'' \<and> hd (nat_digits n) \<noteq> CHR ''+''"
proof -
  have "is_digit (hd (nat_digits n))"
    using is_digit_nat_digits [of n] by (cases "nat_digits n") auto
  then show ?thesis by (auto dest: is_digit_not)
qed

lemma Atoi_Itoa: "- (2 ^ 63) \<le> n \<Longrightarrow> n < 2 ^ 63 \<Longrightarrow> Atoi (Itoa n) = Some n"
proof -
  assume b: "- (2 ^ 63) \<le> n" "n < 2 ^ 63"
  have h: "HasPrefix s [c] \<longleftrightarrow> s \<noteq> [] \<and> hd s = c" for s c
    by (cases s) (auto simp: HasPrefix_def)
  show ?thesis
    using b nat_digits_no_sign [of "nat n"] is_digit_nat_digits
    by (auto simp: Atoi_def Itoa_def h Let_def)
qed

lemma hex_val_digit [simp]: "n < 16 \<Longrightarrow> hex_val (hex_digit n) = Some n"
  by (auto simp: hex_val_def hex_digit_def bval_char_of Let_def)

lemma hex_val_less: "hex_val c = Some n \<Longrightarrow> n < 16"
  by (auto simp: hex_val_def Let_def split: if_splits)

section \<open>Parsed numbers\<close>

text \<open>\<open>strconv.ParseUint\<close> and \<open>strconv.ParseInt\<close>: the value they return with the error, and whether there is none.
  An overflow is seen before an invalid character behind it.\<close>

fun uint_loop :: "nat \<Rightarrow> nat \<Rightarrow> gostring \<Rightarrow> nat \<Rightarrow> nat \<times> bool" where
  "uint_loop base limit [] n = (n, True)"
| "uint_loop base limit (c # cs) n =
     (case hex_val c of
        None \<Rightarrow> (0, False)
      | Some d \<Rightarrow>
          if base \<le> d then (0, False)
          else if limit \<le> n * base + d then (limit - 1, False)
          else uint_loop base limit cs (n * base + d))"

definition ParseUint :: "nat \<Rightarrow> nat \<Rightarrow> gostring \<Rightarrow> nat \<times> bool" where
  "ParseUint base bits s = (if s = [] then (0, False) else uint_loop base (2 ^ bits) s 0)"

definition ParseInt :: "gostring \<Rightarrow> int \<times> bool" where
  "ParseInt s =
     (let neg = HasPrefix s ''-'';
          (un, ok) = ParseUint 10 64 (if neg \<or> HasPrefix s ''+'' then tl s else s)
      in if \<not> neg \<and> 2 ^ 63 \<le> un then (2 ^ 63 - 1, False)
         else if neg \<and> 2 ^ 63 < un then (- (2 ^ 63), False)
         else (if neg then - int un else int un, ok))"

lemma hex_val_decimal: "is_digit c \<Longrightarrow> hex_val c = Some (bval c - 48)"
  by (simp add: hex_val_def is_digit_def Let_def)

lemma uint_loop_decimal:
  assumes "list_all is_digit s" "foldl (\<lambda>n c. 10 * n + (bval c - 48)) n s < limit"
  shows "uint_loop 10 limit s n = (foldl (\<lambda>n c. 10 * n + (bval c - 48)) n s, True)"
  using assms
proof (induction s arbitrary: n)
  case (Cons c s)
  have mono: "m \<le> foldl (\<lambda>n c. 10 * n + (bval c - 48)) m s" for m
  proof (induction s arbitrary: m)
    case (Cons d s)
    have "m \<le> 10 * m + (bval d - 48)" by simp
    also have "\<dots> \<le> foldl (\<lambda>n c. 10 * n + (bval c - 48)) (10 * m + (bval d - 48)) s" by (rule Cons.IH)
    finally show ?case by simp
  qed simp
  have d: "is_digit c" "bval c - 48 < 10" using Cons.prems(1) by (auto simp: is_digit_def)
  have "n * 10 + (bval c - 48) < limit"
    using mono [of "10 * n + (bval c - 48)"] Cons.prems(2) by (simp add: mult.commute)
  with d Cons show ?case by (simp add: hex_val_decimal mult.commute)
qed simp

lemma ParseUint_digits: "n < 2 ^ bits \<Longrightarrow> ParseUint 10 bits (nat_digits n) = (n, True)"
  using uint_loop_decimal [of "nat_digits n" 0 "2 ^ bits"] digits_val_nat_digits [of n] is_digit_nat_digits
  by (auto simp: ParseUint_def digits_val_def list_all_iff)

lemma ParseInt_Itoa:
  assumes "- (2 ^ 63) \<le> n" "n < 2 ^ 63" shows "ParseInt (Itoa n) = (n, True)"
proof (cases "n < 0")
  case True
  then have "ParseUint 10 64 (nat_digits (nat (- n))) = (nat (- n), True)" using assms by (intro ParseUint_digits) simp
  with True assms show ?thesis by (simp add: ParseInt_def Itoa_def HasPrefix_def)
next
  case False
  then have u: "ParseUint 10 64 (nat_digits (nat n)) = (nat n, True)" using assms by (intro ParseUint_digits) simp
  obtain c s where d: "nat_digits (nat n) = c # s" "is_digit c"
    using nat_digits_not_Nil [of "nat n"] is_digit_nat_digits [of "nat n"] by (cases "nat_digits (nat n)") (simp_all del: nat_digits_not_Nil)
  then have "c \<noteq> CHR ''-''" "c \<noteq> CHR ''+''" by (auto simp: is_digit_def bval_def)
  with d False u assms show ?thesis by (simp add: ParseInt_def Itoa_def HasPrefix_def)
qed

section \<open>Joined words\<close>

lemma join_words_inj:
  assumes "join [c] vs = join [c] ws" "\<forall>v \<in> set vs. v \<noteq> [] \<and> c \<notin> set v" "\<forall>w \<in> set ws. w \<noteq> [] \<and> c \<notin> set w"
  shows "vs = ws"
proof -
  have ne: "us \<noteq> [] \<Longrightarrow> \<forall>u \<in> set us. u \<noteq> [] \<and> c \<notin> set u \<Longrightarrow> join [c] us \<noteq> []" for us
    by (cases us) (auto simp: join_Cons)
  have "vs = [] \<longleftrightarrow> ws = []" using ne [of vs] ne [of ws] assms by (cases "vs = []"; cases "ws = []") simp_all
  then show ?thesis using split_on_join [of vs c] split_on_join [of ws c] assms by metis
qed

lemma join_set: "x \<in> set (join sep vs) \<Longrightarrow> x \<in> set sep \<or> (\<exists>v \<in> set vs. x \<in> set v)"
  by (induction vs) (auto simp: join_Cons split: if_splits)

end
