(* ===== verification/Utf8.thy ===== *)
theory Utf8
  imports Go_Prelude
begin

text \<open>
  \<open>unicode/utf8\<close> and the rune-aware functions of \<open>strings\<close> that the source uses: \<open>DecodeRune\<close> with
  its acceptance ranges, \<open>Valid\<close>, \<open>FullRune\<close>, \<open>RuneStart\<close>, and \<open>TrimSpace\<close> and \<open>Fields\<close> over the
  Unicode white-space set.
\<close>

section \<open>Decoding one rune\<close>

definition RuneError :: nat where "RuneError = 0xFFFD"
definition UTFMax :: nat where [go_defs]: "UTFMax = 4"

text \<open>The class of a first byte: ASCII, never a first byte, or the length of the sequence it starts
  with the range its second byte must lie in.\<close>

datatype lead = Ascii | Bad | Lead nat nat nat

definition lead_of :: "char \<Rightarrow> lead" where
  "lead_of c =
     (let v = bval c in
      if v < 0x80 then Ascii
      else if v < 0xC2 then Bad
      else if v \<le> 0xDF then Lead 2 0x80 0xBF
      else if v = 0xE0 then Lead 3 0xA0 0xBF
      else if v = 0xED then Lead 3 0x80 0x9F
      else if v \<le> 0xEF then Lead 3 0x80 0xBF
      else if v = 0xF0 then Lead 4 0x90 0xBF
      else if v \<le> 0xF3 then Lead 4 0x80 0xBF
      else if v = 0xF4 then Lead 4 0x80 0x8F
      else Bad)"

definition in_range :: "nat \<Rightarrow> nat \<Rightarrow> char \<Rightarrow> bool" where
  "in_range lo hi c \<longleftrightarrow> lo \<le> bval c \<and> bval c \<le> hi"

definition cont :: "char \<Rightarrow> bool" where
  "cont c \<longleftrightarrow> in_range 0x80 0xBF c"

definition RuneStart :: "char \<Rightarrow> bool" where
  "RuneStart c \<longleftrightarrow> \<not> cont c"

text \<open>\<open>(rune, size)\<close>; an invalid sequence is \<open>(RuneError, 1)\<close>, empty input \<open>(RuneError, 0)\<close>.\<close>

fun DecodeRune :: "bytes \<Rightarrow> nat \<times> nat" where
  "DecodeRune [] = (RuneError, 0)"
| "DecodeRune (c # cs) =
     (case lead_of c of
        Ascii \<Rightarrow> (bval c, 1)
      | Bad \<Rightarrow> (RuneError, 1)
      | Lead n lo hi \<Rightarrow>
          if length cs + 1 < n \<or> \<not> in_range lo hi (cs ! 0) \<or> \<not> list_all cont (take (n - 2) (tl cs))
          then (RuneError, 1)
          else (if n = 2 then (bval c - 0xC0) * 64 + (bval (cs ! 0) - 0x80)
                else if n = 3 then (bval c - 0xE0) * 4096 + (bval (cs ! 0) - 0x80) * 64 + (bval (cs ! 1) - 0x80)
                else (bval c - 0xF0) * 262144 + (bval (cs ! 0) - 0x80) * 4096
                       + (bval (cs ! 1) - 0x80) * 64 + (bval (cs ! 2) - 0x80), n))"

definition rune_len :: "bytes \<Rightarrow> nat" where
  "rune_len b = snd (DecodeRune b)"

definition bad_rune :: "bytes \<Rightarrow> bool" where
  "bad_rune b \<longleftrightarrow> DecodeRune b = (RuneError, 1)"

definition FullRune :: "bytes \<Rightarrow> bool" where
  "FullRune b =
     (case b of
        [] \<Rightarrow> False
      | c # cs \<Rightarrow>
          (case lead_of c of
             Lead n lo hi \<Rightarrow>
               n \<le> length b \<or>
               (cs \<noteq> [] \<and> \<not> in_range lo hi (cs ! 0)) \<or>
               (2 \<le> length cs \<and> \<not> cont (cs ! 1))
           | _ \<Rightarrow> True))"

lemma rune_len_Cons_pos: "0 < rune_len (c # cs)"
  by (auto simp: rune_len_def lead_of_def Let_def split: lead.splits)

lemma rune_len_pos: "b \<noteq> [] \<Longrightarrow> 0 < rune_len b"
  using rune_len_Cons_pos by (cases b) auto

lemma rune_len_le: "rune_len b \<le> length b"
  by (cases b) (auto simp: rune_len_def Suc_le_eq split: lead.splits)

lemma rune_len_max: "rune_len b \<le> 4"
  by (cases b) (auto simp: rune_len_def lead_of_def Let_def split: lead.splits)

section \<open>Sequences of runes\<close>

text \<open>The runes of a byte string with the bytes each one occupies, as a Go \<open>range\<close> loop visits them.\<close>

function runes :: "bytes \<Rightarrow> (nat \<times> bytes) list" where
  "runes b = (if b = [] then []
              else (fst (DecodeRune b), take (rune_len b) b) # runes (drop (rune_len b) b))"
  by pat_completeness auto
termination
  by (relation "measure length") (auto intro: diff_less rune_len_pos)

declare runes.simps [simp del]

definition Valid :: "bytes \<Rightarrow> bool" where
  "Valid b \<longleftrightarrow> list_all (\<lambda>(r, s). \<not> (r = RuneError \<and> length s = 1)) (runes b)"

lemma runes_Nil [simp]: "runes [] = []"
  by (simp add: runes.simps)

lemma runes_step: "b \<noteq> [] \<Longrightarrow>
  runes b = (fst (DecodeRune b), take (rune_len b) b) # runes (drop (rune_len b) b)"
  by (simp add: runes.simps [of b])

lemma runes_ascii: "bval c < 0x80 \<Longrightarrow> runes (c # s) = (bval c, [c]) # runes s"
  by (simp add: runes.simps [of "c # s"] rune_len_def lead_of_def Let_def)

lemma concat_runes [simp]: "concat (map snd (runes b)) = b"
proof (induction b rule: runes.induct)
  case (1 b)
  then show ?case by (cases "b = []") (simp_all add: runes_step)
qed

definition isASCII :: "bytes \<Rightarrow> bool" where
  "isASCII b \<longleftrightarrow> list_all (\<lambda>c. bval c < 0x80) b"

lemma Valid_Nil [simp]: "Valid []"
  by (simp add: Valid_def)

lemma Valid_ascii: "isASCII b \<Longrightarrow> Valid b"
proof (induction b)
  case (Cons c b)
  then have "bval c < 0x80" "isASCII b" by (auto simp: isASCII_def)
  with Cons.IH show ?case
    by (auto simp: Valid_def runes_ascii RuneError_def)
qed simp

section \<open>White space\<close>

definition is_space :: "nat \<Rightarrow> bool" where
  "is_space r \<longleftrightarrow>
     (9 \<le> r \<and> r \<le> 13) \<or> r = 0x20 \<or> r = 0x85 \<or> r = 0xA0 \<or> r = 0x1680 \<or>
     (0x2000 \<le> r \<and> r \<le> 0x200A) \<or> r = 0x2028 \<or> r = 0x2029 \<or> r = 0x202F \<or> r = 0x205F \<or> r = 0x3000"

definition TrimSpace :: "gostring \<Rightarrow> gostring" where
  "TrimSpace s =
     concat (map snd (rev (dropWhile (is_space \<circ> fst) (rev (dropWhile (is_space \<circ> fst) (runes s))))))"

text \<open>\<open>strings.Fields\<close>: the maximal runs of non-space runes.\<close>

fun fields_aux :: "(nat \<times> bytes) list \<Rightarrow> bytes \<Rightarrow> bytes list" where
  "fields_aux [] w = (if w = [] then [] else [w])"
| "fields_aux ((r, b) # rs) w =
     (if is_space r then (if w = [] then fields_aux rs [] else w # fields_aux rs [])
      else fields_aux rs (w @ b))"

definition Fields :: "gostring \<Rightarrow> gostring list" where
  "Fields s = fields_aux (runes s) []"

text \<open>Text without white space is its own trimming; the values the source compares against are
  plain ASCII words.\<close>

lemma runes_ascii_map: "isASCII s \<Longrightarrow> runes s = map (\<lambda>c. (bval c, [c])) s"
  by (induction s) (auto simp: isASCII_def runes_ascii)

lemma dropWhile_hd_False: "xs = [] \<or> \<not> P (hd xs) \<Longrightarrow> dropWhile P xs = xs"
  by (cases xs) auto

lemma TrimSpace_ascii_word:
  assumes "isASCII s" and "\<forall>c \<in> set s. \<not> is_space (bval c)"
  shows "TrimSpace s = s"
proof -
  let ?m = "map (\<lambda>c. (bval c, [c])) s"
  have "dropWhile (is_space \<circ> fst) ?m = ?m"
    using assms(2) by (intro dropWhile_hd_False) (cases s, auto)
  moreover have "dropWhile (is_space \<circ> fst) (rev ?m) = rev ?m"
    using assms(2) by (intro dropWhile_hd_False) (cases s rule: rev_cases, auto)
  ultimately show ?thesis
    by (simp add: TrimSpace_def runes_ascii_map [OF assms(1)] comp_def)
qed

section \<open>Well-formed runes\<close>

text \<open>\<open>good_rune s\<close>: the bytes \<open>s\<close> are exactly one valid encoded rune.\<close>

definition good_rune :: "bytes \<Rightarrow> bool" where
  "good_rune s \<longleftrightarrow> s \<noteq> [] \<and> rune_len s = length s \<and> \<not> bad_rune s"

lemma lead_of_Lead:
  "lead_of c = Lead n lo hi \<Longrightarrow> 0x80 \<le> lo \<and> hi \<le> 0xBF \<and> 2 \<le> n \<and> n \<le> 4 \<and> RuneStart c"
  by (auto simp: lead_of_def Let_def RuneStart_def cont_def in_range_def split: if_splits)

lemma lead_of_Ascii: "lead_of c = Ascii \<longleftrightarrow> bval c < 0x80"
  by (auto simp: lead_of_def Let_def)

lemma in_range_cont: "lead_of c = Lead n lo hi \<Longrightarrow> in_range lo hi d \<Longrightarrow> cont d"
  using lead_of_Lead [of c n lo hi] by (auto simp: in_range_def cont_def)

lemma good_rune_cases:
  assumes "good_rune s"
  obtains (ascii) c where "s = [c]" "bval c < 0x80"
  | (multi) c cs n lo hi where "s = c # cs" "lead_of c = Lead n lo hi" "n = length s"
      "in_range lo hi (cs ! 0)" "list_all cont (tl cs)"
proof -
  from assms obtain c cs where s: "s = c # cs" by (cases s) (auto simp: good_rune_def)
  show thesis
  proof (cases "lead_of c")
    case Ascii
    with assms s show thesis
      by (intro ascii [of c]) (auto simp: good_rune_def rune_len_def lead_of_Ascii)
  next
    case Bad
    with assms s show thesis by (auto simp: good_rune_def bad_rune_def)
  next
    case (Lead n lo hi)
    with assms s lead_of_Lead [OF Lead] show thesis
      by (intro multi [of c cs n lo hi])
        (auto simp: good_rune_def bad_rune_def rune_len_def split: if_splits)
  qed
qed

lemma good_rune_shape:
  assumes "good_rune s"
  obtains c cs where "s = c # cs" "RuneStart c" "list_all cont cs" "length s \<le> 4"
  using assms
proof (cases rule: good_rune_cases)
  case (ascii c)
  then show thesis by (intro that [of c "[]"]) (auto simp: RuneStart_def cont_def in_range_def)
next
  case (multi c cs n lo hi)
  with lead_of_Lead [of c n lo hi] have "cs \<noteq> []" by auto
  with multi have "list_all cont cs"
    by (cases cs) (auto intro: in_range_cont)
  with multi lead_of_Lead [of c n lo hi] show thesis by (intro that [of c cs]) auto
qed

text \<open>Decoding looks at no more bytes than the first byte announces.\<close>

lemma DecodeRune_take:
  assumes "lead_of c = Lead n lo hi" "n \<le> k"
  shows "DecodeRune (take k (c # cs)) = DecodeRune (c # cs)"
proof -
  have n: "2 \<le> n" "n \<le> 4" using lead_of_Lead [OF assms(1)] by auto
  with assms(2) obtain m where k: "k = Suc m" "n \<le> Suc m" by (cases k) auto
  have "length (take m cs) + 1 < n \<longleftrightarrow> length cs + 1 < n" using k by auto
  moreover have "take (n - 2) (tl (take m cs)) = take (n - 2) (tl cs)"
    using k n by (simp add: tl_take min_def)
  moreover have "take m cs ! 0 = cs ! 0" "3 \<le> n \<Longrightarrow> take m cs ! 1 = cs ! 1"
    "4 \<le> n \<Longrightarrow> take m cs ! 2 = cs ! 2"
    using k n by auto
  ultimately show ?thesis using n by (simp add: assms(1) k(1))
qed

lemma good_rune_DecodeRune_append:
  assumes "good_rune s" shows "DecodeRune (s @ t) = DecodeRune s"
  using assms
proof (cases rule: good_rune_cases)
  case (ascii c)
  then show ?thesis by (simp add: lead_of_Ascii [symmetric])
next
  case (multi c cs n lo hi)
  have "DecodeRune (take n (c # (cs @ t))) = DecodeRune (c # (cs @ t))"
    by (rule DecodeRune_take [OF multi(2)]) simp
  moreover have "take n (c # (cs @ t)) = s" using multi by simp
  ultimately show ?thesis using multi(1) by simp
qed

lemma runes_good_append:
  assumes "good_rune s" shows "runes (s @ t) = (fst (DecodeRune s), s) # runes t"
proof -
  have "rune_len (s @ t) = length s" "s \<noteq> []"
    using assms by (auto simp: rune_len_def good_rune_DecodeRune_append good_rune_def)
  then show ?thesis
    using assms by (simp add: runes_step good_rune_DecodeRune_append)
qed

lemma Valid_good_append: "good_rune s \<Longrightarrow> Valid (s @ t) \<longleftrightarrow> Valid t"
  by (auto simp: Valid_def runes_good_append good_rune_def bad_rune_def rune_len_def prod_eq_iff)

lemma Valid_concat_good: "\<forall>r \<in> set rs. good_rune r \<Longrightarrow> Valid (concat rs)"
  by (induction rs) (auto simp: Valid_good_append)

lemma Valid_runes_good:
  assumes "Valid b" shows "\<exists>rs. b = concat rs \<and> (\<forall>r \<in> set rs. good_rune r)"
  using assms
proof (induction b rule: runes.induct)
  case (1 b)
  show ?case
  proof (cases "b = []")
    case True
    then show ?thesis by (intro exI [of _ "[]"]) simp
  next
    case False
    let ?h = "take (rune_len b) b" and ?t = "drop (rune_len b) b"
    have len: "length ?h = rune_len b" by (simp add: rune_len_le)
    have "Valid ?t" and hd: "\<not> (fst (DecodeRune b) = RuneError \<and> rune_len b = 1)"
      using "1.prems" False len by (auto simp: Valid_def runes_step)
    with "1.IH" False obtain rs where rs: "?t = concat rs" "\<forall>r \<in> set rs. good_rune r" by blast
    have "good_rune ?h"
    proof -
      obtain c cs where b: "b = c # cs" using False by (cases b) auto
      have "DecodeRune ?h = DecodeRune b"
      proof (cases "lead_of c")
        case (Lead n lo hi)
        then have "rune_len b = n" using b hd by (auto simp: rune_len_def split: if_splits)
        with DecodeRune_take [OF Lead, of n cs] b show ?thesis by simp
      qed (use b hd in \<open>auto simp: rune_len_def take_Cons'\<close>)
      with hd len False rune_len_pos [OF False] show ?thesis
        by (auto simp: good_rune_def bad_rune_def rune_len_def prod_eq_iff)
    qed
    with rs show ?thesis by (intro exI [of _ "?h # rs"]) (auto simp: rs(1) [symmetric])
  qed
qed

lemma Valid_iff_good: "Valid b \<longleftrightarrow> (\<exists>rs. b = concat rs \<and> (\<forall>r \<in> set rs. good_rune r))"
  using Valid_runes_good Valid_concat_good by blast

lemma good_rune_FullRune: "good_rune s \<Longrightarrow> FullRune s"
  by (erule good_rune_cases) (auto simp: FullRune_def lead_of_Ascii [symmetric])

lemma good_rune_prefix_not_full:
  assumes "good_rune (p @ q)" "p \<noteq> []" "q \<noteq> []" shows "\<not> FullRune p"
  using assms(1)
proof (cases rule: good_rune_cases)
  case (ascii c)
  then show ?thesis using assms(2,3) by (cases p) auto
next
  case (multi c cs n lo hi)
  with assms obtain ps where p: "p = c # ps" "cs = ps @ q" by (cases p) auto
  show ?thesis
  proof (cases ps)
    case Nil
    with multi p assms(3) show ?thesis by (auto simp: FullRune_def)
  next
    case (Cons d ds)
    with multi p assms(3) show ?thesis
      by (cases ds) (auto simp: FullRune_def)
  qed
qed


section \<open>Words\<close>

text \<open>A byte of a rune below 0x80 is the rune; so the words of \<open>Fields\<close> hold no ASCII white space.\<close>

lemma rune_ascii_byte:
  assumes "x \<in> set (take (rune_len (c # cs)) (c # cs))" "bval x < 0x80"
  shows "fst (DecodeRune (c # cs)) = bval x"
proof (cases "lead_of c")
  case Ascii
  with assms(1) show ?thesis by (simp add: rune_len_def)
next
  case Bad
  then have "0x80 \<le> bval c" by (auto simp: lead_of_def Let_def split: if_splits)
  moreover have "x = c" using Bad assms(1) by (simp add: rune_len_def)
  ultimately show ?thesis using assms(2) by simp
next
  case (Lead n lo hi)
  then have c: "0x80 \<le> bval c" "0x80 \<le> lo" "2 \<le> n" by (auto simp: lead_of_def Let_def split: if_splits)
  have "\<exists>i < rune_len (c # cs). x = (c # cs) ! i" using assms(1) by (auto simp: in_set_conv_nth)
  then obtain i where i: "i < rune_len (c # cs)" "x = (c # cs) ! i" by blast
  have "0x80 \<le> bval x"
  proof (cases "i = 0")
    case False
    then have ok: "n \<le> length cs + 1" "in_range lo hi (cs ! 0)" "list_all cont (take (n - 2) (tl cs))" "rune_len (c # cs) = n"
      using i(1) Lead by (auto simp: rune_len_def split: if_splits)
    show ?thesis
    proof (cases "i = 1")
      case True
      with ok i c show ?thesis by (simp add: in_range_def)
    next
      case False
      with \<open>i \<noteq> 0\<close> obtain k where k: "i = Suc (Suc k)" by (metis One_nat_def not0_implies_Suc)
      with i ok have "k < length (take (n - 2) (tl cs))" "x = take (n - 2) (tl cs) ! k"
        by (auto simp: nth_tl)
      with ok(3) have "cont x" by (auto simp: list_all_length)
      then show ?thesis by (simp add: cont_def in_range_def)
    qed
  qed (use i c in simp)
  with assms(2) show ?thesis by simp
qed

lemma runes_ascii_byte: "(r, s) \<in> set (runes b) \<Longrightarrow> x \<in> set s \<Longrightarrow> bval x < 0x80 \<Longrightarrow> r = bval x"
proof (induction b rule: runes.induct)
  case (1 b)
  show ?case
  proof (cases "b = []")
    case False
    then obtain c cs where b: "b = c # cs" by (cases b) auto
    with "1.prems" consider "r = fst (DecodeRune b)" "s = take (rune_len b) b" | "(r, s) \<in> set (runes (drop (rune_len b) b))"
      by (auto simp: runes_step)
    then show ?thesis
      using rune_ascii_byte "1.prems"(2,3) "1.IH" False b by cases blast+
  qed (use "1.prems" in simp)
qed

lemma fields_aux_word:
  assumes "v \<in> set (fields_aux rs w)" "\<forall>(r, s) \<in> set rs. \<not> is_space r \<longrightarrow> x \<notin> set s" "x \<notin> set w"
  shows "x \<notin> set v"
  using assms by (induction rs w arbitrary: rule: fields_aux.induct) (auto split: if_splits)

lemma Fields_no_space:
  assumes "v \<in> set (Fields s)" "bval x < 0x80" "is_space (bval x)" shows "x \<notin> set v"
  using assms(1) unfolding Fields_def
proof (rule fields_aux_word)
  show "\<forall>(r, t) \<in> set (runes s). \<not> is_space r \<longrightarrow> x \<notin> set t" using runes_ascii_byte assms(2,3) by fast
qed simp

lemma fields_aux_nonempty: "v \<in> set (fields_aux rs w) \<Longrightarrow> \<forall>(r, s) \<in> set rs. s \<noteq> [] \<Longrightarrow> v \<noteq> []"
  by (induction rs w rule: fields_aux.induct) (auto split: if_splits)

lemma runes_nonempty: "(r, s) \<in> set (runes b) \<Longrightarrow> s \<noteq> []"
proof (induction b rule: runes.induct)
  case (1 b)
  show ?case
  proof (cases "b = []")
    case False
    then show ?thesis using "1.IH" "1.prems" rune_len_pos [of b] by (auto simp: runes_step)
  qed (use "1.prems" in simp)
qed

lemma Fields_nonempty: "v \<in> set (Fields s) \<Longrightarrow> v \<noteq> []"
  unfolding Fields_def by (erule fields_aux_nonempty) (use runes_nonempty in fast)

text \<open>Plain ASCII words come back from a line of them.\<close>

definition plain_word :: "gostring \<Rightarrow> bool" where
  "plain_word w \<longleftrightarrow> w \<noteq> [] \<and> isASCII w \<and> (\<forall>c \<in> set w. \<not> is_space (bval c))"

lemma fields_aux_word_ascii:
  "\<forall>c \<in> set w. \<not> is_space (bval c) \<Longrightarrow> fields_aux (map (\<lambda>c. (bval c, [c])) w @ rs) acc = fields_aux rs (acc @ w)"
  by (induction w arbitrary: acc) auto

lemma ascii_space: "is_space (bval nl)" "is_space (bval (CHR '' ''))" "bval nl < 128" "bval (CHR '' '') < 128"
  by (simp_all add: is_space_def bval_def)

lemma Fields_words:
  assumes "list_all plain_word fs" "t \<in> {[], [nl]}"
  shows "Fields (join '' '' fs @ t) = fs" "Fields (CHR '' '' # join '' '' fs @ t) = fs"
proof -
  have ascii: "isASCII (join '' '' fs @ t)"
    using assms by (induction fs) (auto simp: join_Cons isASCII_def plain_word_def bval_def split: if_splits)
  have *: "fields_aux (map (\<lambda>c. (bval c, [c])) (join '' '' fs @ t)) [] = fs"
    using assms(1)
  proof (induction fs)
    case Nil
    then show ?case using assms(2) by (auto simp: ascii_space)
  next
    case (Cons w fs)
    have w: "w \<noteq> []" "\<forall>c \<in> set w. \<not> is_space (bval c)" using Cons.prems by (auto simp: plain_word_def)
    show ?case
    proof (cases fs)
      case Nil
      with w assms(2) show ?thesis by (auto simp: fields_aux_word_ascii ascii_space)
    next
      case (Cons v vs)
      with w Cons.IH \<open>list_all plain_word (w # fs)\<close> show ?thesis
        by (simp add: join_Cons fields_aux_word_ascii ascii_space)
    qed
  qed
  then show "Fields (join '' '' fs @ t) = fs" using ascii by (simp only: Fields_def runes_ascii_map)
  have "isASCII (CHR '' '' # join '' '' fs @ t)" using ascii by (simp add: isASCII_def bval_def)
  then have "runes (CHR '' '' # join '' '' fs @ t) = map (\<lambda>c. (bval c, [c])) (CHR '' '' # join '' '' fs @ t)" by (rule runes_ascii_map)
  with * show "Fields (CHR '' '' # join '' '' fs @ t) = fs" by (simp add: Fields_def ascii_space)
qed

lemma TrimSpace_trailing:
  assumes "plain_word w" shows "TrimSpace (w @ '' '') = w"
proof -
  have a: "runes (w @ '' '') = map (\<lambda>c. (bval c, [c])) (w @ '' '')"
    using assms by (intro runes_ascii_map) (simp add: plain_word_def isASCII_def bval_def)
  obtain c v where w: "w = c # v" using assms by (cases w) (auto simp: plain_word_def)
  obtain d u where u: "rev w = d # u" using assms by (cases "rev w") (auto simp: plain_word_def)
  have "c \<in> set w" using w by simp
  moreover have "d \<in> set w" by (metis u list.set_intros(1) set_rev)
  ultimately have sp: "\<not> is_space (bval c)" "\<not> is_space (bval d)" using assms by (auto simp: plain_word_def)
  have "dropWhile (is_space \<circ> fst) (map (\<lambda>c. (bval c, [c])) (w @ '' '')) = map (\<lambda>c. (bval c, [c])) (w @ '' '')"
    using w sp by simp
  moreover have "dropWhile (is_space \<circ> fst) (rev (map (\<lambda>c. (bval c, [c])) (w @ '' ''))) = map (\<lambda>c. (bval c, [c])) (rev w)"
    using u sp by (simp add: rev_map ascii_space)
  ultimately show ?thesis by (simp add: TrimSpace_def a rev_map comp_def)
qed

end
