(* ===== verification/Text_Encoding.thy ===== *)
theory Text_Encoding
  imports Utf8
begin

text \<open>
  Encoding detection and conversion (\<open>fileops.go\<close>, lines 27 to 285): what the reading, searching,
  tailing and editing tools use to turn file bytes into UTF-8 text.  The GBK and GB18030 transformers
  of \<open>golang.org/x/text\<close> are the fields of a \<open>codec\<close> record, a parameter of every function that
  calls them.
\<close>

section \<open>Definitions\<close>

record codec =
  gbkDecode :: "bytes \<Rightarrow> gostring option"
  gbkEncode :: "gostring \<Rightarrow> bytes option"
  gb18030Decode :: "bytes \<Rightarrow> gostring option"
  gb18030Encode :: "gostring \<Rightarrow> bytes option"

datatype enc_error = UnknownEncoding gostring | TransformFailed

definition binarySniffLen :: nat where [go_defs]: "binarySniffLen = 8000"
definition minUTF8Evidence :: nat where [go_defs]: "minUTF8Evidence = 3"

definition transform_result :: "gostring option \<Rightarrow> enc_error + gostring" where
  "transform_result r = (case r of None \<Rightarrow> Inl TransformFailed | Some s \<Rightarrow> Inr s)"

definition decodeToUTF8 :: "codec \<Rightarrow> bytes \<Rightarrow> gostring \<Rightarrow> enc_error + gostring" where
  "decodeToUTF8 cd data encoding =
     (let e = ToLower (TrimSpace encoding) in
      if e \<in> {'''', ''utf-8'', ''utf8'', ''unknown''} then Inr data
      else if e \<in> {''gbk'', ''gb2312''} then transform_result (gbkDecode cd data)
      else if e = ''gb18030'' then transform_result (gb18030Decode cd data)
      else Inl (UnknownEncoding encoding))"

definition encodeFromUTF8 :: "codec \<Rightarrow> gostring \<Rightarrow> gostring \<Rightarrow> enc_error + bytes" where
  "encodeFromUTF8 cd s encoding =
     (let e = ToLower (TrimSpace encoding) in
      if e \<in> {'''', ''utf-8'', ''utf8'', ''unknown''} then Inr s
      else if e \<in> {''gbk'', ''gb2312''} then transform_result (gbkEncode cd s)
      else if e = ''gb18030'' then transform_result (gb18030Encode cd s)
      else Inl (UnknownEncoding encoding))"

definition isGBFamily :: "gostring \<Rightarrow> bool" where
  "isGBFamily encoding \<longleftrightarrow> ToLower (TrimSpace encoding) \<in> {''gbk'', ''gb2312'', ''gb18030''}"

definition multiByteRunes :: "bytes \<Rightarrow> nat" where
  "multiByteRunes b = length (filter (\<lambda>(r, s). 1 < length s) (runes b))"

text \<open>\<open>utf8Edges\<close>: the first loop skips at most three continuation bytes, the second looks back at
  most four bytes for the start of the last rune.\<close>

fun edge_start :: "nat \<Rightarrow> bytes \<Rightarrow> nat" where
  "edge_start n [] = 0"
| "edge_start 0 (c # cs) = 0"
| "edge_start (Suc n) (c # cs) = (if RuneStart c then 0 else Suc (edge_start n cs))"

fun edge_end :: "bytes \<Rightarrow> nat \<Rightarrow> nat \<Rightarrow> nat \<Rightarrow> nat" where
  "edge_end data start 0 n = length data"
| "edge_end data start (Suc i) 0 = length data"
| "edge_end data start (Suc i) (Suc n) =
     (if i < start then length data
      else if RuneStart (data ! i) then (if FullRune (drop i data) then length data else i)
      else edge_end data start i n)"

definition utf8Edges :: "bytes \<Rightarrow> nat \<times> nat" where
  "utf8Edges data =
     (let s = edge_start (UTFMax - 1) data in (s, edge_end data s (length data) UTFMax))"

definition utf8Sequences :: "bytes \<Rightarrow> nat \<times> nat" where
  "utf8Sequences data =
     (let rs = runes data;
          bad = (\<lambda>(r, s). r = RuneError \<and> length s = 1)
      in (length (filter (\<lambda>x. \<not> bad x \<and> 1 < length (snd x)) rs), length (filter bad rs)))"

definition is_gbk_trail :: "char \<Rightarrow> bool" where
  "is_gbk_trail t \<longleftrightarrow> 0x40 \<le> bval t \<and> bval t \<le> 0xFE \<and> bval t \<noteq> 0x7F"

fun gbkPairs :: "bytes \<Rightarrow> nat \<times> nat" where
  "gbkPairs [] = (0, 0)"
| "gbkPairs (b # rest) =
     (let skip_bad = (let (g, d) = gbkPairs rest in (g, Suc d)) in
      if bval b < 0x80 then gbkPairs rest
      else if 0x81 \<le> bval b \<and> bval b \<le> 0xFE then
        (case rest of
           [] \<Rightarrow> (0, 0)
         | t # rest' \<Rightarrow>
             if is_gbk_trail t then (let (g, d) = gbkPairs rest' in (Suc g, d)) else skip_bad)
      else skip_bad)"

definition detectEncoding :: "bytes \<Rightarrow> gostring" where
  "detectEncoding data =
     (let (s, e) = utf8Edges data;
          t = drop s (take e data) in
      if Valid t then ''utf-8''
      else
        (let (ug, ub) = utf8Sequences t;
             (gg, gb) = gbkPairs data in
         if 0 < ug \<and> (ub * 50 \<le> ug \<or> ub \<le> gb) then ''utf-8''
         else if 0 < gg \<and> gb * 20 \<le> gg \<and> gb < ub then ''gbk''
         else ''unknown''))"

definition decode_or_raw :: "codec \<Rightarrow> bytes \<Rightarrow> gostring \<Rightarrow> gostring" where
  "decode_or_raw cd line enc = (case decodeToUTF8 cd line enc of Inr s \<Rightarrow> s | Inl _ \<Rightarrow> line)"

definition decodeLine :: "codec \<Rightarrow> bytes \<Rightarrow> gostring \<Rightarrow> gostring \<Rightarrow> gostring" where
  "decodeLine cd line fileEnc forced =
     (if forced \<noteq> [] then decode_or_raw cd line forced
      else if isASCII line then line
      else if isGBFamily fileEnc then
        (if Valid line \<and> minUTF8Evidence \<le> multiByteRunes line then line
         else decode_or_raw cd line fileEnc)
      else if Valid line then line
      else decode_or_raw cd line (detectEncoding line))"

text \<open>One line of \<open>decodeText\<close>: a final carriage return is put back after decoding.\<close>

definition decode_crlf_line :: "codec \<Rightarrow> gostring \<Rightarrow> bytes \<Rightarrow> gostring" where
  "decode_crlf_line cd fileEnc line =
     (if line \<noteq> [] \<and> last line = cr then decodeLine cd (butlast line) fileEnc [] @ [cr]
      else decodeLine cd line fileEnc [])"

function decode_lines :: "codec \<Rightarrow> gostring \<Rightarrow> bytes \<Rightarrow> gostring" where
  "decode_lines cd fileEnc data =
     (if data = [] then []
      else case IndexByte data nl of
             None \<Rightarrow> decode_crlf_line cd fileEnc data
           | Some i \<Rightarrow> decode_crlf_line cd fileEnc (take i data) @ nl
                         # decode_lines cd fileEnc (drop (Suc i) data))"
  by pat_completeness auto
termination
  by (relation "measure (\<lambda>(cd, e, d). length d)") (auto dest: IndexByte_Some)

declare decode_lines.simps [simp del]

definition decodeText :: "codec \<Rightarrow> bytes \<Rightarrow> gostring \<Rightarrow> gostring \<Rightarrow> enc_error + gostring" where
  "decodeText cd data fileEnc forced =
     (if forced \<noteq> [] then decodeToUTF8 cd data forced
      else if \<not> isGBFamily fileEnc \<and> Valid data then Inr data
      else Inr (decode_lines cd fileEnc data))"

definition looksBinary :: "bytes \<Rightarrow> bool" where
  "looksBinary data \<longleftrightarrow> list_ex (\<lambda>c. bval c = 0) (take binarySniffLen data)"

section \<open>A window cut out of UTF-8 text\<close>

text \<open>Cutting valid text at two arbitrary byte positions leaves: at most three continuation bytes of
  the rune the first cut went through, whole runes, and a proper prefix of the rune the second cut
  went through.\<close>

lemma drop_concat_good:
  "\<forall>r \<in> set rs. good_rune r \<Longrightarrow>
   \<exists>p ms. drop k (concat rs) = p @ concat ms \<and> list_all cont p \<and> length p \<le> 3 \<and>
          (\<forall>r \<in> set ms. good_rune r)"
proof (induction rs arbitrary: k)
  case Nil
  then show ?case by (intro exI [of _ "[]"]) auto
next
  case (Cons r rs)
  then have r: "good_rune r" and rs: "\<forall>r \<in> set rs. good_rune r" by auto
  obtain c cs where cs: "r = c # cs" "list_all cont cs" "length r \<le> 4"
    using good_rune_shape [OF r] by blast
  consider "k = 0" | j where "k = Suc j" "j < length cs" | "length r \<le> k"
    using cs(1) by (cases k) (auto, meson not_le)
  then show ?case
  proof cases
    case 1
    with Cons.prems show ?thesis by (intro exI [of _ "[]"] exI [of _ "r # rs"]) auto
  next
    case 2
    with cs have "list_all cont (drop j cs)" by (metis append_take_drop_id list_all_append)
    with 2 cs rs show ?thesis
      by (intro exI [of _ "drop j cs"] exI [of _ rs]) auto
  next
    case 3
    with Cons.IH [OF rs, of "k - length r"] show ?thesis by simp
  qed
qed

lemma take_concat_good:
  "\<forall>r \<in> set rs. good_rune r \<Longrightarrow>
   \<exists>ms q. take n (concat rs) = concat ms @ q \<and> (\<forall>r \<in> set ms. good_rune r) \<and>
          (q = [] \<or> (\<exists>q'. q' \<noteq> [] \<and> good_rune (q @ q')))"
proof (induction rs arbitrary: n)
  case Nil
  then show ?case by (intro exI [of _ "[]"]) auto
next
  case (Cons r rs)
  then have r: "good_rune r" and rs: "\<forall>r \<in> set rs. good_rune r" by auto
  show ?case
  proof (cases "length r \<le> n")
    case True
    from Cons.IH [OF rs, of "n - length r"] obtain ms q where
      "take (n - length r) (concat rs) = concat ms @ q" "\<forall>r \<in> set ms. good_rune r"
      "q = [] \<or> (\<exists>q'. q' \<noteq> [] \<and> good_rune (q @ q'))" by blast
    with True r show ?thesis by (intro exI [of _ "r # ms"] exI [of _ q]) auto
  next
    case False
    with r have "drop n r \<noteq> [] \<and> good_rune (take n r @ drop n r)" by simp
    with False show ?thesis by (intro exI [of _ "[]"] exI [of _ "take n r"]) (auto simp del: drop_eq_Nil)
  qed
qed

lemma list_all_take: "list_all P xs \<Longrightarrow> list_all P (take n xs)"
  by (metis append_take_drop_id list_all_append)

lemma window_shape:
  assumes "Valid b"
  obtains p ms q where "take n (drop k b) = p @ concat ms @ q" "list_all cont p" "length p \<le> 3"
    "\<forall>r \<in> set ms. good_rune r" "q = [] \<or> (\<exists>q'. q' \<noteq> [] \<and> good_rune (q @ q'))"
proof -
  obtain rs where rs: "b = concat rs" "\<forall>r \<in> set rs. good_rune r"
    using Valid_runes_good [OF assms] by blast
  obtain p ms where p: "drop k b = p @ concat ms" "list_all cont p" "length p \<le> 3"
    "\<forall>r \<in> set ms. good_rune r"
    using drop_concat_good [OF rs(2), of k] rs(1) by blast
  obtain ms' q where "take (n - length p) (concat ms) = concat ms' @ q" "\<forall>r \<in> set ms'. good_rune r"
    "q = [] \<or> (\<exists>q'. q' \<noteq> [] \<and> good_rune (q @ q'))"
    using take_concat_good [OF p(4)] by blast
  with p show thesis
    by (intro that [of "take n p" ms' q]) (auto simp: list_all_take)
qed

lemma edge_start_conts:
  "list_all cont p \<Longrightarrow> length p \<le> n \<Longrightarrow> t = [] \<or> RuneStart (hd t) \<Longrightarrow> edge_start n (p @ t) = length p"
proof (induction p arbitrary: n)
  case Nil
  then show ?case by (cases t; cases n) auto
next
  case (Cons c p)
  then show ?case by (cases n) (auto simp: RuneStart_def)
qed

lemma edge_end_walk:
  "RuneStart c \<Longrightarrow> list_all cont cs \<Longrightarrow> s \<le> length pre \<Longrightarrow> length cs < n \<Longrightarrow>
   data = pre @ c # cs @ post \<Longrightarrow>
   edge_end data s (length pre + Suc (length cs)) n =
     (if FullRune (c # cs @ post) then length data else length pre)"
proof (induction cs arbitrary: n post rule: rev_induct)
  case Nil
  then show ?case by (cases n) (auto simp: nth_append)
next
  case (snoc d cs)
  from snoc.prems obtain m where m: "n = Suc m" by (cases n) auto
  have d: "data ! (length pre + Suc (length cs)) = d"
    using snoc.prems(5) by (simp add: nth_append)
  from snoc.IH [of m "d # post"] snoc.prems m d show ?case
    by (auto simp: RuneStart_def)
qed

lemma edge_end_tail:
  assumes "RuneStart c" "list_all cont cs" "length cs \<le> 3" "s \<le> length pre"
  shows "edge_end (pre @ c # cs) s (length (pre @ c # cs)) UTFMax =
    (if FullRune (c # cs) then length (pre @ c # cs) else length pre)"
  using edge_end_walk [of c cs s pre UTFMax "pre @ c # cs" "[]"] assms
  by (simp add: UTFMax_def)

lemma edge_end_below: "i \<le> s \<Longrightarrow> edge_end data s i n = length data"
  by (cases i; cases n) auto

lemma good_rune_proper_prefix:
  assumes "good_rune (q @ q')" "q \<noteq> []" "q' \<noteq> []"
  obtains c cs where "q = c # cs" "RuneStart c" "list_all cont cs" "length cs \<le> 3" "\<not> FullRune q"
proof -
  obtain c cs where c: "q @ q' = c # cs" "RuneStart c" "list_all cont cs" "length (q @ q') \<le> 4"
    using good_rune_shape [OF assms(1)] by metis
  with assms(2) obtain ds where "q = c # ds" "cs = ds @ q'" by (cases q) auto
  with c good_rune_prefix_not_full [OF assms] show thesis by (intro that [of c ds]) auto
qed

lemma hd_concat_good: "\<forall>r \<in> set ms. good_rune r \<Longrightarrow> concat ms \<noteq> [] \<Longrightarrow> RuneStart (hd (concat ms))"
proof (induction ms)
  case (Cons r ms)
  then obtain c cs where "r = c # cs" "RuneStart c" using good_rune_shape [of r] by (metis list.set_intros(1))
  then show ?case by simp
qed simp

lemma edge_end_window:
  assumes ms: "\<forall>r \<in> set ms. good_rune r" and q: "q = [] \<or> (\<exists>q'. q' \<noteq> [] \<and> good_rune (q @ q'))"
  shows "edge_end (p @ concat ms @ q) (length p) (length (p @ concat ms @ q)) UTFMax
    = length (p @ concat ms)"
proof (cases "q = []")
  case False
  with q obtain q' where "q' \<noteq> []" "good_rune (q @ q')" by blast
  with False obtain c cs where "q = c # cs" "RuneStart c" "list_all cont cs" "length cs \<le> 3" "\<not> FullRune q"
    using good_rune_proper_prefix by metis
  with edge_end_tail [of c cs "length p" "p @ concat ms"] show ?thesis by simp
next
  case True
  show ?thesis
  proof (cases ms rule: rev_cases)
    case Nil
    with True show ?thesis by (simp add: edge_end_below)
  next
    case (snoc ms' r)
    with ms obtain c cs where "r = c # cs" "RuneStart c" "list_all cont cs" "length r \<le> 4" "FullRune r"
      using good_rune_shape [of r] good_rune_FullRune [of r] by (metis in_set_conv_decomp)
    with edge_end_tail [of c cs "length p" "p @ concat ms'"] snoc True show ?thesis by simp
  qed
qed

lemma utf8Edges_window:
  assumes "list_all cont p" "length p \<le> 3" "\<forall>r \<in> set ms. good_rune r"
    "q = [] \<or> (\<exists>q'. q' \<noteq> [] \<and> good_rune (q @ q'))"
  shows "utf8Edges (p @ concat ms @ q) = (length p, length (p @ concat ms))"
proof -
  have "concat ms @ q = [] \<or> RuneStart (hd (concat ms @ q))"
  proof (cases "concat ms = []")
    case True
    show ?thesis
    proof (cases "q = []")
      case False
      with assms(4) obtain c cs where "q = c # cs" "RuneStart c"
        using good_rune_proper_prefix by metis
      then show ?thesis by (subst True) simp
    qed (use True in simp)
  qed (use hd_concat_good [OF assms(3)] in simp)
  then have "edge_start (UTFMax - 1) (p @ concat ms @ q) = length p"
    using assms by (intro edge_start_conts) (auto simp: UTFMax_def)
  with edge_end_window [OF assms(3,4), of p] show ?thesis by (simp add: utf8Edges_def Let_def)
qed

text \<open>every window of a valid UTF-8 file, wherever its two cuts fall, is detected as UTF-8; so
  paging, tailing and sniffing never mistake part of a UTF-8 file for GBK or binary data.\<close>

theorem detectEncoding_window:
  assumes "Valid b" shows "detectEncoding (take n (drop k b)) = ''utf-8''"
proof -
  obtain p ms q where w: "take n (drop k b) = p @ concat ms @ q" "list_all cont p" "length p \<le> 3"
    "\<forall>r \<in> set ms. good_rune r" "q = [] \<or> (\<exists>q'. q' \<noteq> [] \<and> good_rune (q @ q'))"
    using window_shape [OF assms] by blast
  then show ?thesis
    by (simp add: detectEncoding_def utf8Edges_window Valid_concat_good)
qed

section \<open>Line-wise decoding\<close>

lemma decodeLine_Nil [simp]: "decodeLine cd [] fileEnc [] = []"
  by (simp add: decodeLine_def isASCII_def)

lemma decode_crlf_line_Nil [simp]: "decode_crlf_line cd fileEnc [] = []"
  by (simp add: decode_crlf_line_def)

text \<open>The scanning loop of \<open>decodeText\<close> is the line-by-line map it is meant to be.\<close>

lemma decode_lines_split:
  "decode_lines cd fileEnc data = join [nl] (map (decode_crlf_line cd fileEnc) (split_on nl data))"
proof (induction cd fileEnc data rule: decode_lines.induct)
  case (1 cd fileEnc data)
  show ?case
  proof (cases "IndexByte data nl")
    case None
    then show ?thesis by (subst decode_lines.simps) (simp add: split_on_no_sep)
  next
    case (Some i)
    let ?r = "drop (Suc i) data"
    have i: "i < length data" "data ! i = nl" "nl \<notin> set (take i data)"
      using IndexByte_Some [OF Some] by auto
    then have "split_on nl data = take i data # split_on nl ?r"
      by (metis id_take_nth_drop split_on_append_sep)
    with 1 [of i] Some i show ?thesis
      by (auto simp: decode_lines.simps [of _ _ data] join_Cons)
  qed
qed

lemma decodeLine_utf8:
  "\<not> isGBFamily fileEnc \<Longrightarrow> Valid line \<Longrightarrow> decodeLine cd line fileEnc [] = line"
  by (simp add: decodeLine_def)

definition line_preserving :: "codec \<Rightarrow> bool" where
  "line_preserving cd \<longleftrightarrow>
     (\<forall>b s. nl \<notin> set b \<longrightarrow> gbkDecode cd b = Some s \<or> gb18030Decode cd b = Some s \<longrightarrow> nl \<notin> set s)"

lemma decodeLine_no_nl:
  assumes "line_preserving cd" "nl \<notin> set line" shows "nl \<notin> set (decodeLine cd line fileEnc forced)"
proof -
  have t: "nl \<notin> set s"
    if "transform_result (gbkDecode cd line) = Inr s \<or> transform_result (gb18030Decode cd line) = Inr s"
    for s
  proof -
    from that have "gbkDecode cd line = Some s \<or> gb18030Decode cd line = Some s"
      by (auto simp: transform_result_def split: option.splits)
    with assms show ?thesis unfolding line_preserving_def by blast
  qed
  have "nl \<notin> set s" if "decodeToUTF8 cd line e = Inr s" for e s
    using that assms(2) t [of s]
    by (simp add: decodeToUTF8_def Let_def split: if_split_asm)
  then have "nl \<notin> set (decode_or_raw cd line e)" for e
    using assms(2) by (auto simp: decode_or_raw_def split: sum.split)
  then show ?thesis using assms(2) by (simp add: decodeLine_def)
qed

lemma decode_crlf_line_no_nl:
  assumes "line_preserving cd" "nl \<notin> set line" shows "nl \<notin> set (decode_crlf_line cd fileEnc line)"
  using assms decodeLine_no_nl [OF assms(1), of "butlast line"] decodeLine_no_nl [OF assms]
  by (auto simp: decode_crlf_line_def dest: in_set_butlastD)

text \<open>decoding a whole text keeps its line structure.  When the GBK and GB18030 decoders map
  newline-free input to newline-free text (no GBK trail byte is a newline), the decoded text has
  exactly as many lines as the file has, so a line number means the same before and after decoding.\<close>

theorem decodeText_lines:
  assumes "line_preserving cd"
  shows "\<exists>s. decodeText cd data fileEnc [] = Inr s \<and>
    length (split_on nl s) = length (split_on nl data) \<and>
    (isGBFamily fileEnc \<or> \<not> Valid data \<longrightarrow>
       split_on nl s = map (decode_crlf_line cd fileEnc) (split_on nl data))"
proof -
  have "split_on nl (decode_lines cd fileEnc data) = map (decode_crlf_line cd fileEnc) (split_on nl data)"
    unfolding decode_lines_split
    using decode_crlf_line_no_nl [OF assms] split_on_elem_no_sep
    by (intro split_on_join) fastforce+
  then show ?thesis by (auto simp: decodeText_def)
qed

section \<open>Examples\<close>

text \<open>An accented letter cut in two: the window holds its second byte, then ASCII.\<close>

theorem detectEncoding_window_witness:
  "detectEncoding (take 2 (drop 1 [CHR 0xC3, CHR 0xA9, CHR ''x''])) = ''utf-8''"
proof (rule detectEncoding_window)
  show "Valid [CHR 0xC3, CHR 0xA9, CHR ''x'']"
    by (simp add: Valid_def runes_step rune_len_def lead_of_def in_range_def bval_def RuneError_def)
qed

theorem decodeText_lines_witness:
  "\<exists>cd s. line_preserving cd \<and> decodeText cd [CHR 0xFF, nl, CHR ''b''] ''gbk'' [] = Inr s \<and>
    length (split_on nl s) = 2"
proof -
  let ?cd = "\<lparr>gbkDecode = (\<lambda>b. Some (map (\<lambda>c. if c = nl then nl else CHR ''?'') b)), gbkEncode = (\<lambda>b. None),
    gb18030Decode = (\<lambda>b. None), gb18030Encode = (\<lambda>b. None)\<rparr>"
  have lp: "line_preserving ?cd" by (auto simp: line_preserving_def)
  from decodeText_lines [OF lp, of "[CHR 0xFF, nl, CHR ''b'']" "''gbk''"] lp show ?thesis by fastforce
qed

end
