(* ===== verification/Read_Window.thy ===== *)
theory Read_Window
  imports Text_Encoding
begin

text \<open>
  The windows of \<open>remote_read_file\<close> (\<open>readops.go\<close>, lines 29 to 282, and the backward read of
  \<open>taillog.go\<close>, lines 77 to 153): which bytes of a file a byte range, a line range or a request for
  the last lines selects.  An open file is its content \<open>f\<close>; \<open>ReadAt\<close> returns the bytes the file has
  at that place.  Read errors other than the end of the file are not modelled.
\<close>

section \<open>Definitions\<close>

definition maxLineScanBytes :: nat where [go_defs]: "maxLineScanBytes = 16777216"
definition tailBlockSize :: nat where [go_defs]: "tailBlockSize = 32768"
definition readerSize :: nat where [go_defs]: "readerSize = 65536"

record readWindow =
  w_data :: bytes
  w_offset :: nat
  w_more :: bool
  w_capped :: bool
  w_nextLine :: nat
  w_cutLine :: bool

definition ReadAt :: "bytes \<Rightarrow> nat \<Rightarrow> nat \<Rightarrow> bytes" where
  "ReadAt f n off = take n (drop off f)"

definition empty_window :: readWindow where
  "empty_window = \<lparr>w_data = [], w_offset = 0, w_more = False, w_capped = False, w_nextLine = 0,
     w_cutLine = False\<rparr>"

definition readByteWindow :: "bytes \<Rightarrow> nat \<Rightarrow> int \<Rightarrow> nat \<Rightarrow> readWindow" where
  "readByteWindow f sz off maxBytes =
     (let off = nat (min (max off 0) (int sz));
          buf = ReadAt f (min maxBytes (sz - off)) off;
          w = empty_window\<lparr>w_data := buf, w_offset := off\<rparr>
      in if off + length buf < sz then
           w\<lparr>w_more := True, w_capped := True,
             w_data := (case LastIndexByte buf nl of
                          Some i \<Rightarrow> if length buf div 2 \<le> i then take (Suc i) buf else buf
                        | None \<Rightarrow> buf)\<rparr>
         else w)"

text \<open>\<open>bufio.Reader.ReadSlice\<close> over what is left of the file: up to the next newline, a full buffer,
  or the rest of the file.\<close>

datatype slice_status = SliceOk | BufferFull | SliceEOF

definition ReadSlice :: "bytes \<Rightarrow> bytes \<times> bytes \<times> slice_status" where
  "ReadSlice rest =
     (case IndexByte (take readerSize rest) nl of
        Some i \<Rightarrow> (take (Suc i) rest, drop (Suc i) rest, SliceOk)
      | None \<Rightarrow>
          if readerSize \<le> length rest then (take readerSize rest, drop readerSize rest, BufferFull)
          else (rest, [], SliceEOF))"

lemma ReadSlice_shorter:
  "ReadSlice rest = (chunk, rest', st) \<Longrightarrow> st \<noteq> SliceEOF \<Longrightarrow> length rest' < length rest"
  by (auto simp: ReadSlice_def readerSize_def split: option.splits if_splits dest!: IndexByte_Some)

function skip_lines :: "bytes \<Rightarrow> nat \<Rightarrow> nat \<Rightarrow> nat \<Rightarrow> bytes option \<times> nat" where
  "skip_lines rest line start off =
     (if line < start then
        (case ReadSlice rest of
           (chunk, rest', SliceOk) \<Rightarrow> skip_lines rest' (Suc line) start (off + length chunk)
         | (chunk, rest', BufferFull) \<Rightarrow> skip_lines rest' line start (off + length chunk)
         | (chunk, rest', SliceEOF) \<Rightarrow> (None, off + length chunk))
      else (Some rest, off))"
  by pat_completeness auto
termination
  by (relation "measure (\<lambda>(rest, _). length rest)") (auto dest: ReadSlice_shorter [OF sym])

declare skip_lines.simps [simp del]

text \<open>The collecting loop: \<open>ls\<close> is where the line being read starts in the collected data.\<close>

function line_loop :: "bytes \<Rightarrow> nat \<Rightarrow> int \<Rightarrow> nat \<Rightarrow> nat \<Rightarrow> readWindow \<Rightarrow> readWindow" where
  "line_loop rest line endl maxBytes ls w =
     (if endl \<le> 0 \<or> int line \<le> endl then
        (case ReadSlice rest of
           (chunk, rest', st) \<Rightarrow>
             (let got = w_data w @ chunk; w' = w\<lparr>w_data := got\<rparr> in
              if maxBytes < length got then
                (if 0 < ls then
                   w'\<lparr>w_more := True, w_capped := True, w_data := take ls got, w_nextLine := line\<rparr>
                 else w'\<lparr>w_more := True, w_capped := True, w_data := take maxBytes got,
                        w_nextLine := Suc line, w_cutLine := True\<rparr>)
              else
                (case st of
                   SliceOk \<Rightarrow> line_loop rest' (Suc line) endl maxBytes (length got) w'
                 | BufferFull \<Rightarrow> line_loop rest' line endl maxBytes ls w'
                 | SliceEOF \<Rightarrow> w')))
      else if rest \<noteq> [] then w\<lparr>w_more := True, w_nextLine := line\<rparr> else w)"
  by pat_completeness auto
termination
  by (relation "measure (\<lambda>(rest, _). length rest)") (auto dest: ReadSlice_shorter [OF sym])

declare line_loop.simps [simp del]

definition readLineWindow :: "bytes \<Rightarrow> nat \<Rightarrow> int \<Rightarrow> nat \<Rightarrow> readWindow" where
  "readLineWindow f start endl maxBytes =
     (case skip_lines f 1 start 0 of
        (None, off) \<Rightarrow> empty_window\<lparr>w_offset := off\<rparr>
      | (Some rest, off) \<Rightarrow>
          line_loop rest (max start 1) endl maxBytes 0 (empty_window\<lparr>w_offset := off\<rparr>))"

text \<open>\<open>countNewlinesAt\<close>, 64 KiB at a time; its third result is false only on a read error.\<close>

function count_loop :: "bytes \<Rightarrow> nat \<Rightarrow> nat \<Rightarrow> nat \<Rightarrow> char \<Rightarrow> nat \<times> char" where
  "count_loop f to off n lst =
     (if off < to then
        (let want = min readerSize (to - off); chunk = ReadAt f want off; k = length chunk;
             n' = n + count_list chunk nl;
             lst' = (if 0 < k then last chunk else lst)
         in if k < want then (n', lst') else count_loop f to (off + k) n' lst')
      else (n, lst))"
  by pat_completeness auto
termination
  by (relation "measure (\<lambda>(f, to, off, n, lst). to - off)") (auto simp: ReadAt_def readerSize_def)

declare count_loop.simps [simp del]

definition countNewlinesAt :: "bytes \<Rightarrow> nat \<Rightarrow> nat \<times> char" where
  "countNewlinesAt f to = count_loop f to 0 0 (CHR 0x00)"

definition lineCount :: "bytes \<Rightarrow> nat \<Rightarrow> nat" where
  "lineCount f sz =
     (if sz = 0 \<or> maxLineScanBytes < sz then 0
      else case countNewlinesAt f sz of (n, lst) \<Rightarrow> if lst \<noteq> nl then Suc n else n)"

definition lineNumberAt :: "bytes \<Rightarrow> nat \<Rightarrow> nat" where
  "lineNumberAt f off =
     (if maxLineScanBytes < off then 0 else Suc (fst (countNewlinesAt f off)))"

definition windowLines :: "bytes \<Rightarrow> nat" where
  "windowLines data =
     (if data \<noteq> [] \<and> last data \<noteq> nl then Suc (count_list data nl) else count_list data nl)"

definition writeNumbered :: "nat \<Rightarrow> gostring \<Rightarrow> gostring" where
  "writeNumbered n text =
     (let num = Itoa (int n) in replicate (6 - length num) (CHR '' '') @ num @ tab # text)"

definition numberLines :: "gostring \<Rightarrow> nat \<Rightarrow> gostring" where
  "numberLines content first =
     (let ls = split_on nl (TrimSuffix content [nl]) in
      join [nl] (map (\<lambda>i. writeNumbered (first + i) (ls ! i)) [0..<length ls]))"

definition numberedLen :: "nat \<Rightarrow> gostring \<Rightarrow> nat" where
  "numberedLen n text = max 6 (length (Itoa (int n))) + 1 + length text"

definition countNewlines :: "bytes \<Rightarrow> nat" where
  "countNewlines b = count_list b nl"

text \<open>\<open>readTailBytes\<close>: blocks are put in front of the buffer until it holds more than \<open>n\<close> newlines,
  the byte cap or the head of the file is reached.\<close>

definition tail_block :: "nat \<Rightarrow> nat \<Rightarrow> nat \<Rightarrow> nat" where
  "tail_block maxBytes off got =
     (let block = min tailBlockSize off in if maxBytes < got + block then maxBytes - got else block)"

function tail_loop :: "bytes \<Rightarrow> nat \<Rightarrow> nat \<Rightarrow> nat \<Rightarrow> bytes \<Rightarrow> nat \<times> bytes" where
  "tail_loop f n maxBytes off buf =
     (if 0 < off \<and> length buf < maxBytes then
        (let block = tail_block maxBytes off (length buf);
             buf' = ReadAt f block (off - block) @ buf
         in if n < countNewlines buf' then (off - block, buf')
            else tail_loop f n maxBytes (off - block) buf')
      else (off, buf))"
  by pat_completeness auto
termination
  by (relation "measure (\<lambda>(f, n, m, off, buf). off)")
    (auto simp: tail_block_def tailBlockSize_def Let_def)

declare tail_loop.simps [simp del]

fun nl_scan :: "bytes \<Rightarrow> nat \<Rightarrow> nat \<Rightarrow> nat \<Rightarrow> nat" where
  "nl_scan [] i seen skip = 0"
| "nl_scan (c # cs) i seen skip =
     (if c = nl then if Suc seen = skip then Suc i else nl_scan cs (Suc i) (Suc seen) skip
      else nl_scan cs (Suc i) seen skip)"

definition readTailBytes :: "bytes \<Rightarrow> nat \<Rightarrow> nat \<Rightarrow> nat \<Rightarrow> bytes \<times> nat \<times> bool" where
  "readTailBytes f sz n maxBytes =
     (if sz = 0 \<or> n = 0 then ([], sz, False)
      else case tail_loop f n maxBytes sz [] of (off, buf) \<Rightarrow>
        (let truncated = (0 < off \<and> maxBytes \<le> length buf);
             newlines = countNewlines buf;
             pos = (if n < newlines then nl_scan buf 0 0 (newlines - n)
                    else if truncated then (case IndexByte buf nl of Some i \<Rightarrow> Suc i | None \<Rightarrow> 0)
                    else 0)
         in (drop pos buf, off + pos, truncated)))"

definition lineStartsAt :: "bytes \<Rightarrow> nat \<Rightarrow> bool" where
  "lineStartsAt f off \<longleftrightarrow> off = 0 \<or> ReadAt f 1 (off - 1) = [nl]"

text \<open>The loop of \<open>readTailWindow\<close>; \<open>n\<close> is positive, so more than \<open>n\<close> lines hold a newline.\<close>

function trim_head :: "nat \<Rightarrow> bytes \<Rightarrow> nat \<Rightarrow> bytes \<times> nat" where
  "trim_head n data off =
     (if n < windowLines data then
        (case IndexByte data nl of
           Some i \<Rightarrow> trim_head n (drop (Suc i) data) (off + Suc i)
         | None \<Rightarrow> (data, off))
      else (data, off))"
  by pat_completeness auto
termination
  by (relation "measure (\<lambda>(n, data, off). length data)") (auto dest: IndexByte_Some)

declare trim_head.simps [simp del]

definition readTailWindow :: "bytes \<Rightarrow> nat \<Rightarrow> nat \<Rightarrow> nat \<Rightarrow> readWindow" where
  "readTailWindow f sz n maxBytes =
     (case readTailBytes f sz n maxBytes of (data, off, capped) \<Rightarrow>
       case trim_head n data off of (data, off) \<Rightarrow>
         empty_window\<lparr>w_data := data, w_offset := off,
           w_capped := capped \<and> (windowLines data < n \<or> \<not> lineStartsAt f off)\<rparr>)"

definition alignToLine :: "bytes \<Rightarrow> readWindow \<Rightarrow> readWindow" where
  "alignToLine f w =
     (if lineStartsAt f (w_offset w) then w
      else case IndexByte (w_data w) nl of
             Some i \<Rightarrow>
               if i < length (w_data w) div 2
               then w\<lparr>w_data := drop (Suc i) (w_data w), w_offset := w_offset w + Suc i\<rparr> else w
           | None \<Rightarrow> w)"

section \<open>The lines of a file\<close>

text \<open>The reference the windows are measured against: the lines with their newlines, the last one
  possibly without.\<close>

function raw_lines :: "bytes \<Rightarrow> bytes list" where
  "raw_lines f =
     (if f = [] then []
      else case IndexByte f nl of
             Some i \<Rightarrow> take (Suc i) f # raw_lines (drop (Suc i) f)
           | None \<Rightarrow> [f])"
  by pat_completeness auto
termination
  by (relation "measure length") (auto dest: IndexByte_Some)

declare raw_lines.simps [simp del]

definition is_line :: "bytes \<Rightarrow> bool" where
  "is_line l \<longleftrightarrow> (\<exists>a. nl \<notin> set a \<and> l = a @ [nl])"

lemma raw_lines_Nil [simp]: "raw_lines [] = []"
  by (simp add: raw_lines.simps)

lemma raw_lines_last: "a \<noteq> [] \<Longrightarrow> nl \<notin> set a \<Longrightarrow> raw_lines a = [a]"
  by (simp add: raw_lines.simps)

lemma raw_lines_nl: "nl \<notin> set a \<Longrightarrow> raw_lines (a @ nl # b) = (a @ [nl]) # raw_lines b"
  by (simp add: raw_lines.simps [of "a @ nl # b"] IndexByte_append)

lemma first_line_cases:
  obtains (none) "nl \<notin> set f" | (line) a b where "f = a @ nl # b" "nl \<notin> set a"
  by (meson split_list_first)

lemma lines_induct [case_names last line]:
  assumes "\<And>f. nl \<notin> set f \<Longrightarrow> P f" "\<And>a b. nl \<notin> set a \<Longrightarrow> P b \<Longrightarrow> P (a @ nl # b)"
  shows "P f"
proof (induction f rule: length_induct)
  case (1 f)
  then show ?case by (cases f rule: first_line_cases) (auto intro: assms)
qed

lemma raw_lines_no_nl: "nl \<notin> set a \<Longrightarrow> raw_lines a = (if a = [] then [] else [a])"
  by (simp add: raw_lines_last)

lemma concat_raw_lines [simp]: "concat (raw_lines f) = f"
  by (induction f rule: lines_induct) (auto simp: raw_lines_no_nl raw_lines_nl)

lemma raw_lines_eq_Nil [simp]: "raw_lines f = [] \<longleftrightarrow> f = []"
  by (metis concat.simps(1) concat_raw_lines raw_lines_Nil)

lemma raw_lines_not_Nil: "l \<in> set (raw_lines f) \<Longrightarrow> l \<noteq> []"
  by (induction f rule: lines_induct) (auto simp: raw_lines_no_nl raw_lines_nl split: if_splits)

lemma windowLines_raw: "windowLines f = length (raw_lines f)"
proof (induction f rule: lines_induct)
  case (line a b)
  then show ?case by (auto simp: windowLines_def raw_lines_nl)
qed (auto simp: windowLines_def raw_lines_no_nl dest: last_in_set)

lemma raw_lines_append:
  "a = [] \<or> last a = nl \<Longrightarrow> raw_lines (a @ b) = raw_lines a @ raw_lines b"
proof (induction a rule: lines_induct)
  case (last a)
  then show ?case using last_in_set [of a] by (cases "a = []") auto
next
  case (line a c)
  then show ?case by (cases "c = []") (auto simp: raw_lines_nl)
qed

lemma raw_lines_butlast: "Suc i < length (raw_lines f) \<Longrightarrow> is_line (raw_lines f ! i)"
proof (induction f arbitrary: i rule: lines_induct)
  case (line a b)
  then show ?case by (cases i) (auto simp: raw_lines_nl is_line_def)
qed (auto simp: raw_lines_no_nl split: if_splits)

section \<open>Counting lines\<close>

lemma ReadAt_split:
  assumes "k \<le> n" shows "ReadAt f n off = ReadAt f k off @ ReadAt f (n - k) (off + k)"
  using assms take_add [of k "n - k" "drop off f"] by (simp add: ReadAt_def add.commute)

lemma ReadAt_short: "length (ReadAt f k off) < k \<Longrightarrow> k \<le> n \<Longrightarrow> ReadAt f n off = ReadAt f k off"
  by (auto simp: ReadAt_def)

lemma count_loop_spec:
  "count_loop f to off n lst =
     (let x = ReadAt f (to - off) off in (n + count_list x nl, if x = [] then lst else last x))"
proof (induction f to off n lst rule: count_loop.induct)
  case (1 f to off n lst)
  let ?want = "min readerSize (to - off)"
  let ?chunk = "ReadAt f ?want off"
  consider "to \<le> off" | "off < to" "length ?chunk < ?want" | "off < to" "length ?chunk = ?want"
    by (fastforce simp: ReadAt_def)
  then show ?case
  proof cases
    case 2
    with ReadAt_short [of f ?want off "to - off"] show ?thesis
      by (subst count_loop.simps) (auto simp: Let_def)
  next
    case 3
    let ?next = "off + length ?chunk"
    have split: "ReadAt f (to - off) off = ?chunk @ ReadAt f (to - ?next) ?next"
      using 3 ReadAt_split [of ?want "to - off" f off] by simp
    have ne: "?chunk \<noteq> []" using 3 by (auto simp: readerSize_def)
    then have pos: "0 < length ?chunk" by simp
    from ne have "count_loop f to off n lst = count_loop f to ?next (n + count_list ?chunk nl) (last ?chunk)"
      using 3 by (subst count_loop.simps) (auto simp: Let_def readerSize_def)
    also have "\<dots> = (let x = ReadAt f (to - ?next) ?next in
        (n + count_list ?chunk nl + count_list x nl, if x = [] then last ?chunk else last x))"
      using "1.IH" [OF 3(1) refl refl refl refl refl] unfolding if_P [OF pos] by (simp add: 3(2))
    finally show ?thesis using ne unfolding split Let_def by (simp only: count_list_append) simp
  qed (subst count_loop.simps, simp add: ReadAt_def Let_def)
qed

lemma countNewlinesAt_spec:
  "countNewlinesAt f to =
     (count_list (take to f) nl, if take to f = [] then CHR 0x00 else last (take to f))"
  by (simp add: countNewlinesAt_def count_loop_spec ReadAt_def Let_def)

lemma lineCount_spec:
  "length f \<le> maxLineScanBytes \<Longrightarrow> lineCount f (length f) = length (raw_lines f)"
  by (auto simp: lineCount_def countNewlinesAt_spec windowLines_def simp flip: windowLines_raw)

lemma lineNumberAt_spec:
  "off \<le> maxLineScanBytes \<Longrightarrow> lineNumberAt f off = Suc (count_list (take off f) nl)"
  by (simp add: lineNumberAt_def countNewlinesAt_spec)

lemma numberedLen_exact: "numberedLen n text = length (writeNumbered n text)"
  by (simp add: numberedLen_def writeNumbered_def Let_def max_def)


section \<open>Line windows\<close>

text \<open>Reading in slices collects whole lines: the loop over slices is the loop over lines.\<close>

fun collect_lines :: "bytes list \<Rightarrow> nat \<Rightarrow> int \<Rightarrow> nat \<Rightarrow> readWindow \<Rightarrow> readWindow" where
  "collect_lines [] line endl maxBytes w = w"
| "collect_lines (l # ls) line endl maxBytes w =
     (if endl \<le> 0 \<or> int line \<le> endl then
        (if maxBytes < length (w_data w @ l) then
           (if w_data w \<noteq> [] then w\<lparr>w_more := True, w_capped := True, w_nextLine := line\<rparr>
            else w\<lparr>w_more := True, w_capped := True, w_data := take maxBytes l,
                   w_nextLine := Suc line, w_cutLine := True\<rparr>)
         else collect_lines ls (Suc line) endl maxBytes (w\<lparr>w_data := w_data w @ l\<rparr>))
      else w\<lparr>w_more := True, w_nextLine := line\<rparr>)"

lemma ReadSlice_cases:
  assumes "ReadSlice rest = (chunk, rest', st)"
  obtains (ok) a where "st = SliceOk" "chunk = a @ [nl]" "nl \<notin> set a" "rest = chunk @ rest'"
  | (full) "st = BufferFull" "nl \<notin> set chunk" "rest = chunk @ rest'" "chunk \<noteq> []"
  | (eof) "st = SliceEOF" "nl \<notin> set chunk" "rest = chunk" "rest' = []"
proof (cases "IndexByte (take readerSize rest) nl")
  case None
  then have no: "nl \<notin> set (take readerSize rest)" by simp
  show thesis
  proof (cases "readerSize \<le> length rest")
    case True
    with assms None have r: "chunk = take readerSize rest" "rest' = drop readerSize rest" "st = BufferFull"
      by (auto simp: ReadSlice_def)
    moreover have "chunk \<noteq> []" using True r by (auto simp: readerSize_def)
    ultimately show ?thesis using no by (intro full) auto
  next
    case False
    with assms None no show ?thesis by (intro eof) (auto simp: ReadSlice_def)
  qed
next
  case (Some i)
  then have i: "i < length rest" "rest ! i = nl" "i < readerSize" "nl \<notin> set (take i rest)"
    by (auto dest!: IndexByte_Some)
  with assms Some show thesis
    by (intro ok [of "take i rest"]) (auto simp: ReadSlice_def take_Suc_nth dest: id_take_nth_drop)
qed

lemma line_loop_lines:
  assumes "nl \<notin> set part" "length (w_data w @ part) \<le> maxBytes"
    "part \<noteq> [] \<Longrightarrow> endl \<le> 0 \<or> int line \<le> endl"
  shows "line_loop rest line endl maxBytes (length (w_data w)) (w\<lparr>w_data := w_data w @ part\<rparr>) =
    collect_lines (raw_lines (part @ rest)) line endl maxBytes w"
  using assms
proof (induction "length rest" arbitrary: rest line part w rule: less_induct)
  case less
  obtain chunk rest' st where rs: "ReadSlice rest = (chunk, rest', st)" by (metis prod_cases3)
  show ?case
  proof (cases "endl \<le> 0 \<or> int line \<le> endl")
    case False
    with less.prems have [simp]: "part = []" by auto
    show ?thesis
    proof (cases "raw_lines rest")
      case (Cons l ls)
      then have "rest \<noteq> []" by auto
      with False Cons show ?thesis by (subst line_loop.simps) simp
    qed (use False in \<open>subst line_loop.simps, simp\<close>)
  next
    case True
    note step = line_loop.simps [of rest line endl maxBytes "length (w_data w)"]
    show ?thesis
      using rs
    proof (cases rule: ReadSlice_cases)
      case (ok a)
      then have lines: "raw_lines (part @ rest) = (part @ chunk) # raw_lines rest'"
        using raw_lines_nl [of "part @ a" rest'] less.prems(1) by simp
      have "length rest' < length rest" using ok by simp
      from less.hyps [OF this, of "[]" "w\<lparr>w_data := w_data w @ part @ chunk\<rparr>" "Suc line"]
      show ?thesis using True rs ok less.prems lines by (subst step) (auto simp: Let_def)
    next
      case full
      have "length rest' < length rest" using full by simp
      from less.hyps [OF this, of "part @ chunk" w line] show ?thesis
      proof (cases "maxBytes < length (w_data w @ part @ chunk)")
        case big: True
        obtain l ls where l: "raw_lines (part @ rest) = (part @ chunk @ l) # ls"
        proof (cases rest' rule: first_line_cases)
          case none
          then show thesis using full less.prems(1) by (intro that [of rest' "[]"]) (simp add: raw_lines_last)
        next
          case (line a b)
          then show thesis using raw_lines_nl [of "part @ chunk @ a" b] full less.prems(1)
            by (intro that [of "a @ [nl]" "raw_lines b"]) simp
        qed
        show ?thesis using True rs full big l less.prems(2) by (subst step) (auto simp: Let_def)
      qed (use True rs full less.prems in \<open>subst step, auto simp: Let_def\<close>)
    next
      case eof
      then have "raw_lines (part @ rest) = (if part @ chunk = [] then [] else [part @ chunk])"
        using less.prems(1) by (simp add: raw_lines_no_nl)
      then show ?thesis using True rs eof less.prems(2) by (subst step) (auto simp: Let_def)
    qed
  qed
qed


lemma skip_lines_lines:
  assumes "nl \<notin> set part" "part \<noteq> [] \<Longrightarrow> line < start" "line \<le> start"
  shows "case skip_lines rest line start off of
      (None, o') \<Rightarrow> o' = off + length rest \<and> length (raw_lines (part @ rest)) \<le> start - line
    | (Some r, o') \<Rightarrow> raw_lines r = drop (start - line) (raw_lines (part @ rest)) \<and>
        o' + length part = off + length (concat (take (start - line) (raw_lines (part @ rest))))"
  using assms
proof (induction "length rest" arbitrary: rest line part off rule: less_induct)
  case less
  obtain chunk rest' st where rs: "ReadSlice rest = (chunk, rest', st)" by (metis prod_cases3)
  show ?case
  proof (cases "line < start")
    case True
    then have m: "start - line = Suc (start - Suc line)" by simp
    note step = skip_lines.simps [of rest line start off]
    show ?thesis
      using rs
    proof (cases rule: ReadSlice_cases)
      case (ok a)
      then have lines: "raw_lines (part @ rest) = (part @ chunk) # raw_lines rest'"
        using raw_lines_nl [of "part @ a" rest'] less.prems(1) by simp
      have "length rest' < length rest" using ok by simp
      from less.hyps [OF this, of "[]" "Suc line" "off + length chunk"] show ?thesis
        using True rs ok lines unfolding m by (subst step) (auto split: prod.splits option.splits)
    next
      case full
      then have "length rest' < length rest" by simp
      from less.hyps [OF this, of "part @ chunk" line "off + length chunk"] show ?thesis
        using True rs full less.prems by (subst step) (auto split: prod.splits option.splits)
    next
      case eof
      then show ?thesis using True rs less.prems
        by (subst step) (auto simp: raw_lines_no_nl)
    qed
  next
    case False
    with less.prems have "part = []" "line = start" by auto
    then show ?thesis by (subst skip_lines.simps) simp
  qed
qed

lemma readLineWindow_lines:
  assumes "1 \<le> start"
  shows "readLineWindow f start endl maxBytes =
    collect_lines (drop (start - 1) (raw_lines f)) start endl maxBytes
      (empty_window\<lparr>w_offset := length (concat (take (start - 1) (raw_lines f)))\<rparr>)"
proof (cases "skip_lines f 1 start 0")
  case (Pair r off)
  note skipped = skip_lines_lines [of "[]" 1 start 0 f, unfolded Pair]
  show ?thesis
  proof (cases r)
    case None
    with skipped assms have "length (raw_lines f) \<le> start - 1" "off = length f" by auto
    with None Pair show ?thesis by (simp add: readLineWindow_def)
  next
    case (Some rest)
    with skipped assms have "raw_lines rest = drop (start - 1) (raw_lines f)"
      "off = length (concat (take (start - 1) (raw_lines f)))" by auto
    with Some Pair assms line_loop_lines [of "[]" "empty_window\<lparr>w_offset := off\<rparr>" maxBytes endl start rest]
    show ?thesis by (simp add: readLineWindow_def empty_window_def max_def)
  qed
qed

text \<open>What the collecting loop returns: everything asked for when it fits, otherwise as many whole
  lines as fit, or the head of a first line that is too long.\<close>

definition asked :: "bytes list \<Rightarrow> nat \<Rightarrow> int \<Rightarrow> bytes list" where
  "asked ls line endl = (if endl \<le> 0 then ls else take (nat (endl - int line + 1)) ls)"

lemma asked_Cons:
  "asked (l # ls) line endl =
     (if endl \<le> 0 \<or> int line \<le> endl then l # asked ls (Suc line) endl else [])"
proof (cases "0 < endl \<and> int line \<le> endl")
  case True
  then have "nat (endl - int line + 1) = Suc (nat (endl - int (Suc line) + 1))" by linarith
  with True show ?thesis by (simp add: asked_def)
qed (auto simp: asked_def)

lemma asked_Nil [simp]: "asked [] line endl = []"
  by (simp add: asked_def)

lemma collect_lines_fit:
  "length (w_data w @ concat (asked ls line endl)) \<le> maxBytes \<Longrightarrow>
   collect_lines ls line endl maxBytes w =
     (let n = length (asked ls line endl); w' = w\<lparr>w_data := w_data w @ concat (asked ls line endl)\<rparr>
      in if n < length ls then w'\<lparr>w_more := True, w_nextLine := line + n\<rparr> else w')"
  by (induction ls arbitrary: line w) (auto simp: asked_Cons Let_def)

lemma collect_lines_capped:
  assumes "maxBytes < length (w_data w @ concat (asked ls line endl))" "length (w_data w) \<le> maxBytes"
  obtains k where "k < length (asked ls line endl)"
    "length (w_data w @ concat (take k (asked ls line endl))) \<le> maxBytes"
    "maxBytes < length (w_data w @ concat (take (Suc k) (asked ls line endl)))"
    "collect_lines ls line endl maxBytes w =
      (let got = w_data w @ concat (take k (asked ls line endl)) in
       if got \<noteq> [] then w\<lparr>w_data := got, w_more := True, w_capped := True, w_nextLine := line + k\<rparr>
       else w\<lparr>w_data := take maxBytes (ls ! k), w_more := True, w_capped := True,
              w_nextLine := line + Suc k, w_cutLine := True\<rparr>)"
  using assms
proof (induction ls arbitrary: line w thesis)
  case (Cons l ls)
  then have range: "endl \<le> 0 \<or> int line \<le> endl" by (auto simp: asked_Cons split: if_splits)
  show ?case
  proof (cases "maxBytes < length (w_data w @ l)")
    case True
    with range Cons.prems show ?thesis by (intro Cons.prems(1) [of 0]) (auto simp: asked_Cons Let_def)
  next
    case False
    let ?w = "w\<lparr>w_data := w_data w @ l\<rparr>"
    from False range Cons.prems obtain k where k: "k < length (asked ls (Suc line) endl)"
      "length (w_data ?w @ concat (take k (asked ls (Suc line) endl))) \<le> maxBytes"
      "maxBytes < length (w_data ?w @ concat (take (Suc k) (asked ls (Suc line) endl)))"
      "collect_lines ls (Suc line) endl maxBytes ?w =
        (let got = w_data ?w @ concat (take k (asked ls (Suc line) endl)) in
         if got \<noteq> [] then ?w\<lparr>w_data := got, w_more := True, w_capped := True, w_nextLine := Suc line + k\<rparr>
         else ?w\<lparr>w_data := take maxBytes (ls ! k), w_more := True, w_capped := True,
              w_nextLine := Suc line + Suc k, w_cutLine := True\<rparr>)"
      using Cons.IH [of "Suc line" ?w thesis] by (auto simp: asked_Cons)
    then show ?thesis using False range
      by (intro Cons.prems(1) [of "Suc k"]) (auto simp: asked_Cons Let_def)
  qed
qed simp

lemma asked_sub: "l \<in> set (asked ls line endl) \<Longrightarrow> l \<in> set ls"
  by (auto simp: asked_def dest: in_set_takeD split: if_splits)

lemma asked_raw_not_Nil:
  assumes "want = asked (drop (start - 1) (raw_lines f)) start endl" "0 < k" "k \<le> length want"
  shows "concat (take k want) \<noteq> []"
proof -
  have "want ! 0 \<in> set (take k want)" using assms(2,3) by (auto simp: in_set_conv_nth intro!: exI [of _ 0])
  moreover have "want ! 0 \<in> set (raw_lines f)"
    using assms asked_sub in_set_dropD nth_mem by (metis less_le_trans)
  ultimately show ?thesis using raw_lines_not_Nil by fastforce
qed

lemma readLineWindow_fit:
  assumes "1 \<le> start" "want = asked (drop (start - 1) (raw_lines f)) start endl"
    "length (concat want) \<le> maxBytes"
  shows "readLineWindow f start endl maxBytes =
    (let w = empty_window\<lparr>w_offset := length (concat (take (start - 1) (raw_lines f))),
                          w_data := concat want\<rparr>
     in if length want < length (drop (start - 1) (raw_lines f))
        then w\<lparr>w_more := True, w_nextLine := start + length want\<rparr> else w)"
  using assms(3) unfolding readLineWindow_lines [OF assms(1)] assms(2)
  by (subst collect_lines_fit) (auto simp: empty_window_def Let_def)

lemma readLineWindow_capped:
  assumes "1 \<le> start" "want = asked (drop (start - 1) (raw_lines f)) start endl"
    "maxBytes < length (concat want)"
  obtains k where "k < length want" "length (concat (take k want)) \<le> maxBytes"
    "maxBytes < length (concat (take (Suc k) want))"
    "readLineWindow f start endl maxBytes =
      (let w = empty_window\<lparr>w_offset := length (concat (take (start - 1) (raw_lines f))),
                            w_more := True, w_capped := True\<rparr>
       in if 0 < k then w\<lparr>w_data := concat (take k want), w_nextLine := start + k\<rparr>
          else w\<lparr>w_data := take maxBytes (raw_lines f ! (start - 1)), w_nextLine := Suc start,
                 w_cutLine := True\<rparr>)"
proof -
  let ?w = "empty_window\<lparr>w_offset := length (concat (take (start - 1) (raw_lines f)))\<rparr>"
  let ?ls = "drop (start - 1) (raw_lines f)"
  have w0: "w_data ?w = []" by (simp add: empty_window_def)
  obtain k where k: "k < length want" "length (concat (take k want)) \<le> maxBytes"
    "maxBytes < length (concat (take (Suc k) want))"
    "collect_lines ?ls start endl maxBytes ?w =
      (let got = concat (take k want) in
       if got \<noteq> [] then ?w\<lparr>w_data := got, w_more := True, w_capped := True, w_nextLine := start + k\<rparr>
       else ?w\<lparr>w_data := take maxBytes (?ls ! k), w_more := True, w_capped := True,
              w_nextLine := start + Suc k, w_cutLine := True\<rparr>)"
    using collect_lines_capped [of maxBytes ?w ?ls start endl thesis] assms(2,3)
    unfolding w0 by auto
  have "start - 1 < length (raw_lines f)" using k(1) assms(2) by (cases "?ls = []") auto
  moreover have "0 < k \<Longrightarrow> concat (take k want) \<noteq> []"
    using asked_raw_not_Nil [OF assms(2)] k(1) by simp
  ultimately show thesis
    using k by (intro that [OF k(1-3)], unfold readLineWindow_lines [OF assms(1)])
      (auto simp: Let_def empty_window_def)
qed

text \<open>C11: reading lines \<open>start\<close> to \<open>endl\<close> (to the end of the file when \<open>endl\<close> is not positive)
  returns exactly those lines of the file when they fit in \<open>maxBytes\<close>, and says whether the file goes
  on and at which line.  When they do not fit the window is marked capped and holds either as many
  whole lines as fit, with the number of the next one, or the first \<open>maxBytes\<close> bytes of a first line
  that is too long on its own.\<close>

theorem line_window_exact:
  assumes "1 \<le> start"
  shows "let ls = drop (start - 1) (raw_lines f); want = asked ls start endl;
             w = readLineWindow f start endl maxBytes in
    w_offset w = length (concat (take (start - 1) (raw_lines f))) \<and>
    (if length (concat want) \<le> maxBytes then
       w_data w = concat want \<and> \<not> w_capped w \<and> (w_more w \<longleftrightarrow> length want < length ls) \<and>
       w_nextLine w = (if w_more w then start + length want else 0)
     else
       w_capped w \<and> w_more w \<and>
       (\<exists>k. k < length want \<and> length (concat (take k want)) \<le> maxBytes \<and>
            maxBytes < length (concat (take (Suc k) want)) \<and>
            (if 0 < k then w_data w = concat (take k want) \<and> w_nextLine w = start + k
             else w_cutLine w \<and> w_data w = take maxBytes (raw_lines f ! (start - 1)) \<and>
                  w_nextLine w = Suc start)))"
proof (cases "length (concat (asked (drop (start - 1) (raw_lines f)) start endl)) \<le> maxBytes")
  case True
  then show ?thesis using readLineWindow_fit [OF assms refl True] by (simp add: Let_def empty_window_def)
next
  case False
  then have big: "maxBytes < length (concat (asked (drop (start - 1) (raw_lines f)) start endl))" by simp
  show ?thesis
  proof (rule readLineWindow_capped [OF assms refl big], goal_cases)
    case (1 k)
    with False show ?case unfolding Let_def by (auto simp: empty_window_def intro!: exI [of _ k])
  qed
qed

theorem line_window_exact_witness:
  "1 \<le> (2 :: nat) \<and> w_data (readLineWindow [CHR ''a'', nl, CHR ''b'', nl, CHR ''c''] 2 2 8) = [CHR ''b'', nl]"
proof
  have "raw_lines [CHR ''a'', nl, CHR ''b'', nl, CHR ''c''] = [[CHR ''a'', nl], [CHR ''b'', nl], [CHR ''c'']]"
    by code_simp
  then show "w_data (readLineWindow [CHR ''a'', nl, CHR ''b'', nl, CHR ''c''] 2 2 8) = [CHR ''b'', nl]"
    using line_window_exact [of 2 "[CHR ''a'', nl, CHR ''b'', nl, CHR ''c'']" 2 8]
    by (simp add: asked_def Let_def numeral_2_eq_2 split: if_splits)
qed simp


text \<open>Following \<open>next_start_line\<close> from the first line, \<open>n\<close> windows at most.\<close>

fun line_pages :: "nat \<Rightarrow> bytes \<Rightarrow> nat \<Rightarrow> nat \<Rightarrow> bytes list" where
  "line_pages 0 f start maxBytes = []"
| "line_pages (Suc n) f start maxBytes =
     (let w = readLineWindow f start 0 maxBytes in
      w_data w # (if w_more w then line_pages n f (w_nextLine w) maxBytes else []))"

lemma asked_all [simp]: "asked ls line 0 = ls"
  by (simp add: asked_def)

lemma concat_line_pages:
  assumes "\<forall>l \<in> set (raw_lines f). length l \<le> maxBytes"
    "1 \<le> start" "0 < n" "length (raw_lines f) < start + n"
  shows "concat (line_pages n f start maxBytes) = concat (drop (start - 1) (raw_lines f))"
  using assms(2-)
proof (induction n arbitrary: start)
  case (Suc n)
  let ?ls = "drop (start - 1) (raw_lines f)"
  show ?case
  proof (cases "length (concat ?ls) \<le> maxBytes")
    case True
    then show ?thesis using readLineWindow_fit [OF Suc.prems(1), of ?ls f 0 maxBytes]
      by (simp add: Let_def empty_window_def)
  next
    case False
    then obtain k where k: "k < length ?ls" "maxBytes < length (concat (take (Suc k) ?ls))"
      "readLineWindow f start 0 maxBytes =
        (let w = empty_window\<lparr>w_offset := length (concat (take (start - 1) (raw_lines f))),
                              w_more := True, w_capped := True\<rparr>
         in if 0 < k then w\<lparr>w_data := concat (take k ?ls), w_nextLine := start + k\<rparr>
            else w\<lparr>w_data := take maxBytes (raw_lines f ! (start - 1)), w_nextLine := Suc start,
                   w_cutLine := True\<rparr>)"
      using readLineWindow_capped [OF Suc.prems(1), of ?ls f 0 maxBytes thesis] by auto
    have "0 < k"
    proof (rule ccontr)
      assume "\<not> 0 < k"
      with k(1,2) have "maxBytes < length (raw_lines f ! (start - 1))"
        by (simp add: take_Suc_conv_app_nth)
      moreover have "raw_lines f ! (start - 1) \<in> set (raw_lines f)" using k(1) by simp
      ultimately show False using assms(1) by auto
    qed
    moreover have "concat (line_pages n f (start + k) maxBytes) = concat (drop (start + k - 1) (raw_lines f))"
      using Suc.prems k(1) \<open>0 < k\<close> by (intro Suc.IH) auto
    moreover have "drop (start + k - 1) (raw_lines f) = drop k ?ls" using Suc.prems(1) by (simp add: add.commute)
    moreover have "concat (take k ?ls) @ concat (drop k ?ls) = concat ?ls"
      by (metis append_take_drop_id concat_append)
    ultimately show ?thesis using k(3) by (simp add: Let_def empty_window_def)
  qed
qed simp

text \<open>a client that starts at line 1 and follows \<open>next_start_line\<close> reads the file completely: the
  windows, put together, are the file, whatever its size, as long as each single line fits in
  \<open>maxBytes\<close>.\<close>

theorem line_paging_complete:
  assumes "\<forall>l \<in> set (raw_lines f). length l \<le> maxBytes"
  shows "concat (line_pages (Suc (length (raw_lines f))) f 1 maxBytes) = f"
  using concat_line_pages [OF assms, of 1 "Suc (length (raw_lines f))"] by simp

theorem line_paging_complete_witness:
  "concat (line_pages 3 [CHR ''a'', nl, CHR ''b'', nl] 1 2) = [CHR ''a'', nl, CHR ''b'', nl]"
proof -
  have r: "raw_lines [CHR ''a'', nl, CHR ''b'', nl] = [[CHR ''a'', nl], [CHR ''b'', nl]]" by code_simp
  then have *: "\<forall>l \<in> set (raw_lines [CHR ''a'', nl, CHR ''b'', nl]). length l \<le> 2" by simp
  show ?thesis
    using line_paging_complete [OF *] by (simp only: r list.size numeral_3_eq_3 add_0 add_Suc_right One_nat_def add_0_right)
qed

section \<open>The last lines\<close>

lemma tail_loop_spec:
  assumes "buf = drop off f" "length buf \<le> maxBytes" "off \<le> length f"
  shows "case tail_loop f n maxBytes off buf of (off', buf') \<Rightarrow>
    off' \<le> length f \<and> buf' = drop off' f \<and> length buf' \<le> maxBytes \<and>
    (off' = 0 \<or> length buf' = maxBytes \<or> n < countNewlines buf')"
  using assms
proof (induction f n maxBytes off buf rule: tail_loop.induct)
  case (1 f n maxBytes off buf)
  let ?block = "tail_block maxBytes off (length buf)"
  let ?buf = "ReadAt f ?block (off - ?block) @ buf"
  show ?case
  proof (cases "0 < off \<and> length buf < maxBytes")
    case True
    then have b: "?block \<le> off" "?block + length buf \<le> maxBytes"
      by (auto simp: tail_block_def Let_def)
    then have *: "?buf = drop (off - ?block) f" "length ?buf \<le> maxBytes" "off - ?block \<le> length f"
      using "1.prems" by (auto simp: ReadAt_def drop_take [symmetric])
        (metis add_diff_cancel_left' append_take_drop_id diff_le_self drop_drop le_add_diff_inverse2)
    from "1.IH" [OF True refl refl _ *] * show ?thesis
      by (subst tail_loop.simps) (simp add: True Let_def)
  next
    case False
    with "1.prems" show ?thesis by (subst tail_loop.simps) auto
  qed
qed


lemma nl_scan_spec:
  "seen < skip \<Longrightarrow> skip \<le> seen + count_list buf nl \<Longrightarrow>
   \<exists>a b. buf = a @ nl # b \<and> nl_scan buf i seen skip = i + length a + 1 \<and>
         count_list b nl = seen + count_list buf nl - skip"
proof (induction buf arbitrary: i seen)
  case (Cons c cs)
  have step: ?case if "\<exists>a b. cs = a @ nl # b \<and> nl_scan (c # cs) i seen skip = Suc i + length a + 1 \<and>
      count_list b nl = seen + count_list (c # cs) nl - skip"
    using that by (metis append_Cons length_Cons add_Suc_shift add.commute)
  consider (here) "c = nl" "Suc seen = skip" | (skip) "c = nl" "Suc seen < skip" | (other) "c \<noteq> nl"
    using Cons.prems(1) by linarith
  then show ?case
  proof cases
    case here
    then show ?thesis by (intro exI [of _ "[]"] exI [of _ cs]) auto
  next
    case skip
    then show ?thesis using Cons.IH [of "Suc seen" "Suc i"] Cons.prems by (intro step) simp
  next
    case other
    then show ?thesis using Cons.IH [of seen "Suc i"] Cons.prems by (intro step) simp
  qed
qed simp

lemma trim_head_spec:
  "0 < n \<Longrightarrow> trim_head n data off =
     (let k = length (raw_lines data) - n in
      (concat (drop k (raw_lines data)), off + length (concat (take k (raw_lines data)))))"
proof (induction data arbitrary: off rule: lines_induct)
  case (last f)
  then show ?case by (subst trim_head.simps) (simp add: windowLines_raw raw_lines_no_nl)
next
  case (line a b)
  then show ?case
    by (subst trim_head.simps)
      (simp add: windowLines_raw raw_lines_nl IndexByte_append Let_def Suc_diff_le)
qed

lemma lineStartsAt_iff: "off \<le> length f \<Longrightarrow> lineStartsAt f off \<longleftrightarrow> off = 0 \<or> last (take off f) = nl"
  by (cases off) (auto simp: lineStartsAt_def ReadAt_def take_Suc_nth last_conv_nth hd_drop_conv_nth
      take_Suc hd_conv_nth)

lemma raw_lines_at_start:
  assumes "off \<le> length f" "lineStartsAt f off"
  shows "raw_lines f = raw_lines (take off f) @ raw_lines (drop off f)"
  using assms raw_lines_append [of "take off f" "drop off f"] by (auto simp: lineStartsAt_iff)

lemma lines_count: "count_list d nl \<le> length (raw_lines d) \<and> length (raw_lines d) \<le> Suc (count_list d nl)"
  by (auto simp flip: windowLines_raw simp: windowLines_def)

definition last_lines :: "nat \<Rightarrow> bytes \<Rightarrow> bytes" where
  "last_lines n f = concat (drop (length (raw_lines f) - n) (raw_lines f))"

lemma last_lines_suffix:
  assumes "off \<le> length f" "lineStartsAt f off" "n \<le> length (raw_lines (drop off f))"
  shows "last_lines n (drop off f) = last_lines n f"
  using raw_lines_at_start [OF assms(1,2)] assms(3) by (simp add: last_lines_def)

lemma raw_lines_concat_drop: "raw_lines (concat (drop k (raw_lines f))) = drop k (raw_lines f)"
proof (induction f arbitrary: k rule: lines_induct)
  case (last f)
  then show ?case by (cases k) (auto simp: raw_lines_no_nl)
next
  case (line a b)
  then show ?case by (cases k) (auto simp: raw_lines_nl)
qed

lemma concat_take_ends: "k < length (raw_lines f) \<Longrightarrow> 0 < k \<Longrightarrow> last (concat (take k (raw_lines f))) = nl"
proof (induction f arbitrary: k rule: lines_induct)
  case (line a b)
  show ?case
  proof (cases "k = 1")
    case False
    with line.prems line.hyps have "last (concat (take (k - 1) (raw_lines b))) = nl"
      by (intro line.IH) (auto simp: raw_lines_nl)
    with line.hyps line.prems show ?thesis by (cases k) (auto simp: raw_lines_nl last_append)
  qed (simp add: raw_lines_nl line.hyps)
qed (auto simp: raw_lines_no_nl split: if_splits)

lemma last_lines_drop:
  assumes "0 < n"
  obtains off where "last_lines n f = drop off f" "off \<le> length f" "lineStartsAt f off"
    "off = 0 \<or> length (raw_lines (drop off f)) = n"
proof -
  define k where "k = length (raw_lines f) - n"
  let ?a = "concat (take k (raw_lines f))"
  let ?b = "concat (drop k (raw_lines f))"
  have f: "f = ?a @ ?b" by (metis append_take_drop_id concat_append concat_raw_lines)
  then have b: "drop (length ?a) f = ?b" "take (length ?a) f = ?a" by (metis append_eq_conv_conj)+
  have "k = 0 \<or> last ?a = nl" using assms concat_take_ends [of k f] by (cases "k = 0") (auto simp: k_def)
  then have "lineStartsAt f (length ?a)" using b(2) f by (subst lineStartsAt_iff) (auto, metis length_append le_add1)
  moreover have "length (raw_lines ?b) = n" if "length ?a \<noteq> 0"
    using that by (cases "k = 0") (simp_all add: raw_lines_concat_drop k_def)
  ultimately show thesis using b f
    by (intro that [of "length ?a"]) (auto simp: last_lines_def k_def, metis length_append le_add1)
qed

lemma readTailBytes_cases:
  assumes "readTailBytes f (length f) n maxBytes = (data, off, truncated)" "f \<noteq> []" "0 < n"
  obtains (enough) "off \<le> length f" "data = drop off f" "length data \<le> maxBytes"
      "0 < off" "lineStartsAt f off" "count_list data nl = n"
  | (all) "off = 0" "data = f" "length f \<le> maxBytes" "\<not> truncated"
  | (cap) start where "0 < start" "start \<le> length f" "length (drop start f) = maxBytes" "truncated"
      "count_list (drop start f) nl \<le> n"
      "case IndexByte (drop start f) nl of Some i \<Rightarrow> off = start + Suc i | None \<Rightarrow> off = start"
      "data = drop off f"
proof -
  obtain start buf where loop: "tail_loop f n maxBytes (length f) [] = (start, buf)" by (metis surj_pair)
  with tail_loop_spec [of "[]" "length f" f maxBytes n]
  have spec: "start \<le> length f" "buf = drop start f" "length buf \<le> maxBytes"
    "start = 0 \<or> length buf = maxBytes \<or> n < countNewlines buf" by auto
  have r: "truncated = (0 < start \<and> maxBytes \<le> length buf)"
    "off = start + (if n < countNewlines buf then nl_scan buf 0 0 (countNewlines buf - n)
                    else if truncated then (case IndexByte buf nl of Some i \<Rightarrow> Suc i | None \<Rightarrow> 0) else 0)"
    "data = drop off f"
    using assms loop spec(2) by (auto simp: readTailBytes_def Let_def add.commute)
  show thesis
  proof (cases "n < countNewlines buf")
    case True
    with nl_scan_spec [of 0 "countNewlines buf - n" buf 0] assms(3) obtain a b where
      ab: "buf = a @ nl # b" "nl_scan buf 0 0 (countNewlines buf - n) = length a + 1" "count_list b nl = n"
      by (auto simp: countNewlines_def)
    with r True have off: "off = start + length a + 1" by simp
    define h where "h = take start f"
    have f: "f = (h @ a @ [nl]) @ b" using ab(1) spec(2) by (simp add: h_def) (metis append_take_drop_id)
    have "off = length (h @ a @ [nl])" using off spec(1) by (simp add: h_def)
    with f have "take off f = h @ a @ [nl]" "drop off f = b" "off \<le> length f"
      by (metis append_eq_conv_conj, metis append_eq_conv_conj, metis length_append le_add1)
    then show thesis using ab spec off r by (intro enough) (auto simp: lineStartsAt_iff)
  next
    case False
    show thesis
    proof (cases truncated)
      case True
      with False r spec show thesis
        by (intro cap [of start]) (auto simp: countNewlines_def split: option.splits)
    next
      case F: False
      with False r spec have "start = 0" by auto
      with F False r spec show thesis by (intro all) auto
    qed
  qed
qed


lemma trim_head_suffix:
  assumes "0 < n" "off \<le> length f" "trim_head n (drop off f) off = (d, o')"
  shows "d = last_lines n (drop off f)" "d = drop o' f" "o' \<le> length f" "off \<le> o'"
proof -
  let ?ls = "raw_lines (drop off f)" and ?k = "length (raw_lines (drop off f)) - n"
  have r: "d = concat (drop ?k ?ls)" "o' = off + length (concat (take ?k ?ls))"
    using assms by (simp_all add: trim_head_spec Let_def)
  have "drop off f = concat (take ?k ?ls) @ concat (drop ?k ?ls)"
    by (metis append_take_drop_id concat_append concat_raw_lines)
  with r show "d = drop o' f" by (metis append_eq_conv_conj drop_drop add.commute)
  show "o' \<le> length f" using r \<open>drop off f = _\<close> assms(2) by (metis (no_types) add_le_mono1 add.commute le_add1 le_add_diff_inverse length_append length_drop nat_add_left_cancel_le)
qed (use assms in \<open>auto simp: trim_head_spec last_lines_def Let_def\<close>)

lemma drop_same: "drop a f = drop b f \<Longrightarrow> a \<le> length f \<Longrightarrow> b \<le> length f \<Longrightarrow> a = b"
  by (metis diff_diff_cancel length_drop)

lemma last_lines_start:
  assumes "0 < n" "drop off f = last_lines n f" "off \<le> length f" "n \<le> length (raw_lines f)"
  shows "lineStartsAt f off" "length (raw_lines (drop off f)) = n"
proof -
  obtain off' where o: "last_lines n f = drop off' f" "off' \<le> length f" "lineStartsAt f off'"
    using last_lines_drop [OF assms(1)] by metis
  with assms show "lineStartsAt f off" by (metis drop_same)
  show "length (raw_lines (drop off f)) = n"
    using assms(2,4) by (simp add: last_lines_def raw_lines_concat_drop)
qed

lemma lines_suffix_le: "off \<le> length f \<Longrightarrow> lineStartsAt f off \<Longrightarrow> length (raw_lines (drop off f)) \<le> length (raw_lines f)"
  by (simp add: raw_lines_at_start)

lemma cap_first_newline:
  assumes "0 < n" "0 < start" "start \<le> length f" "count_list (drop start f) nl \<le> n"
    "length (last_lines n f) < length (drop start f)"
  shows "\<exists>x. drop start f = x @ nl # last_lines n f \<and> nl \<notin> set x \<and> length (raw_lines (last_lines n f)) = n"
proof -
  obtain off where o: "last_lines n f = drop off f" "off \<le> length f" "lineStartsAt f off"
    "off = 0 \<or> length (raw_lines (drop off f)) = n"
    using last_lines_drop [OF assms(1)] by metis
  have "start < off" using assms(3,5) o(1,2) by simp
  with o have n: "length (raw_lines (drop off f)) = n" and off: "last (take off f) = nl"
    using lineStartsAt_iff [OF o(2)] by auto
  define x where "x = drop start (take off f)"
  have f: "drop start f = x @ drop off f"
    using \<open>start < off\<close> by (metis append_take_drop_id drop_append diff_is_0_eq drop0 length_take less_imp_le min.absorb2 o(2) x_def)
  have "x \<noteq> []" using \<open>start < off\<close> o(2) by (simp add: x_def)
  then have "last x = nl" using off \<open>start < off\<close> o(2) by (simp add: x_def last_drop)
  then obtain y where y: "x = y @ [nl]" using \<open>x \<noteq> []\<close> by (metis append_butlast_last_id)
  have "count_list (drop start f) nl = count_list y nl + 1 + count_list (drop off f) nl" by (simp add: f y)
  with assms(4) lines_count [of "drop off f"] n have "count_list y nl = 0" by linarith
  then have "nl \<notin> set y" by (simp add: count_list_0_iff)
  with f y o(1) n show ?thesis by auto
qed

lemma cap_offset:
  assumes "0 < n" "start \<le> length f" "length (drop start f) = maxBytes" "count_list (drop start f) nl \<le> n"
    "case IndexByte (drop start f) nl of Some i \<Rightarrow> off = start + Suc i | None \<Rightarrow> off = start"
    "data = drop off f"
  shows "off \<le> length f \<and> count_list data nl \<le> n - 1 \<and> length data \<le> maxBytes \<and>
      (IndexByte (drop start f) nl \<noteq> None \<longrightarrow> lineStartsAt f off)"
proof (cases "IndexByte (drop start f) nl")
  case None
  with assms show ?thesis by simp
next
  case (Some i)
  then obtain x y where xy: "(drop start f) = x @ nl # y" "i = length x"
    by (metis IndexByte_Some id_take_nth_drop length_take min.absorb4 less_imp_le min.absorb2)
  with Some assms(5) have off: "off = start + length (x @ [nl])" by simp
  have "f = (take start f @ x @ [nl]) @ y" using xy(1) by simp (metis append_take_drop_id)
  moreover have "off = length (take start f @ x @ [nl])" using off assms(2) by simp
  ultimately have "drop off f = y" "take off f = take start f @ x @ [nl]" "off \<le> length f"
    by (metis append_eq_conv_conj, metis append_eq_conv_conj, metis length_append le_add1)
  with xy assms show ?thesis by (auto simp: lineStartsAt_iff)
qed

lemma tail_window_cap:
  assumes "0 < n" "0 < start" "start \<le> length f" "length (drop start f) = maxBytes" "truncated"
    "count_list (drop start f) nl \<le> n"
    "case IndexByte (drop start f) nl of Some i \<Rightarrow> off = start + Suc i | None \<Rightarrow> off = start"
    "data = drop off f" "trim_head n data off = (d, o')"
    "capped = (truncated \<and> (windowLines d < n \<or> \<not> lineStartsAt f o'))"
  shows "d = drop o' f \<and> length d \<le> maxBytes \<and>
      (if capped then maxBytes \<le> length (last_lines n f) else d = last_lines n f)"
proof -
  let ?b = "drop start f"
  note data = cap_offset [OF assms(1,3,4,6,7,8)]
  have "length (raw_lines data) \<le> n" using lines_count [of data] data assms(1) by linarith
  then have all: "last_lines n data = data" by (simp add: last_lines_def)
  have th: "d = last_lines n data" "d = drop o' f" "o' \<le> length f"
    using trim_head_suffix [OF assms(1) conjunct1 [OF data], of d o'] assms(8,9) by auto
  then have d: "d = data" "o' = off"
    using all assms(8) drop_same [of o' f off] conjunct1 [OF data] by simp_all
  show ?thesis
  proof (cases "capped \<and> length (last_lines n f) < maxBytes")
    case True
    then obtain x where x: "?b = x @ nl # last_lines n f" "nl \<notin> set x" "length (raw_lines (last_lines n f)) = n"
      using cap_first_newline [OF assms(1,2,3,6)] assms(4) by auto
    then have "IndexByte ?b nl = Some (length x)" by (simp add: IndexByte_append)
    with assms(7) have "off = start + Suc (length x)" by simp
    then have "data = last_lines n f" using x(1) assms(8) by (metis add.commute drop_drop append_eq_conv_conj append.assoc append_Cons append_Nil length_append_singleton)
    moreover have "lineStartsAt f off" using data \<open>IndexByte ?b nl = _\<close> by simp
    ultimately show ?thesis using True x(3) d by (simp add: assms(10) windowLines_raw)
  next
    case False
    have "d = last_lines n f" if "\<not> capped"
      using that assms(5) all d last_lines_suffix [of off f n] conjunct1 [OF data] assms(8)
      by (simp add: assms(10) windowLines_raw)
    with False d assms(8) data show ?thesis by auto
  qed
qed

text \<open>C10: asking for the last \<open>n\<close> lines returns the end of the file, at most \<open>maxBytes\<close> of it.  Unless the
  result is marked capped it is exactly the last \<open>n\<close> lines (the whole file when it has fewer), however
  the blocks read backwards fall and whether or not the file ends with a newline; and it is only marked
  capped when those lines fill \<open>maxBytes\<close>.\<close>

theorem tail_window_exact:
  assumes "0 < n"
  shows "let w = readTailWindow f (length f) n maxBytes in
    w_data w = drop (w_offset w) f \<and> length (w_data w) \<le> maxBytes \<and>
    (if w_capped w then maxBytes \<le> length (last_lines n f) else w_data w = last_lines n f)"
proof (cases "f = []")
  case True
  then show ?thesis
    by (simp add: readTailWindow_def readTailBytes_def trim_head_spec [OF assms] last_lines_def empty_window_def Let_def)
next
  case False
  obtain data off tr where t: "readTailBytes f (length f) n maxBytes = (data, off, tr)" by (metis prod_cases3)
  obtain d o' where h: "trim_head n data off = (d, o')" by (metis surj_pair)
  define capped where "capped = (tr \<and> (windowLines d < n \<or> \<not> lineStartsAt f o'))"
  have w: "readTailWindow f (length f) n maxBytes = empty_window\<lparr>w_data := d, w_offset := o', w_capped := capped\<rparr>"
    using t h by (simp add: readTailWindow_def capped_def)
  have "d = drop o' f \<and> length d \<le> maxBytes \<and>
      (if capped then maxBytes \<le> length (last_lines n f) else d = last_lines n f)"
    using t False assms
  proof (cases rule: readTailBytes_cases)
    case enough
    have d: "d = last_lines n data" "d = drop o' f" "o' \<le> length f" "off \<le> o'"
      using trim_head_suffix [OF assms enough(1), of d o'] h enough(2) by auto
    have n: "n \<le> length (raw_lines data)" using lines_count [of data] enough(6) by simp
    with d enough have l: "d = last_lines n f" using last_lines_suffix by metis
    have "n \<le> length (raw_lines f)" using n enough lines_suffix_le [of off f] by simp
    with l d assms have "\<not> capped" using last_lines_start [of n o' f] by (simp add: capped_def windowLines_raw)
    moreover have "length d \<le> maxBytes" using d(2,4) enough(2,3) by simp
    ultimately show ?thesis using l d(2) by simp
  next
    case all
    then have "d = last_lines n f" "d = drop o' f" using trim_head_suffix [OF assms, of 0 f d o'] h by auto
    moreover have "length d \<le> maxBytes" using all(3) calculation(2) by simp
    ultimately show ?thesis using all(4) by (simp add: capped_def)
  next
    case (cap start)
    with assms h capped_def show ?thesis by (intro tail_window_cap [of n start f maxBytes tr off data]) auto
  qed
  then show ?thesis unfolding w Let_def
    by (elim conjE) (simp add: empty_window_def del: length_drop split: if_splits)
qed

theorem tail_window_exact_witness:
  "\<exists>f. 0 < (2 :: nat) \<and> w_data (readTailWindow f (length f) 2 8) = [CHR ''b'', nl, CHR ''c'']"
proof -
  let ?f = "[CHR ''a'', nl, CHR ''b'', nl, CHR ''c'']"
  have "last_lines 2 ?f = [CHR ''b'', nl, CHR ''c'']" by code_simp
  with tail_window_exact [of 2 ?f 8] have "w_data (readTailWindow ?f (length ?f) 2 8) = [CHR ''b'', nl, CHR ''c'']"
    by (auto simp: Let_def split: if_splits)
  then show ?thesis by (intro exI [of _ ?f]) simp
qed

end
