(* ===== verification/Gb_Edges.thy ===== *)
theory Gb_Edges
  imports Read_Window
begin

text \<open>
  Window edges that fall inside a character (\<open>readops.go\<close>, lines 284 to 407): \<open>windowEdges\<close> for
  both encoding families, the length of a GBK-family character as the decoder reads it, and
  \<open>gbHeadSkip\<close>, which resynchronises a window that starts in the middle of a file.  The lemmas relate
  the local resynchronisation to the parse of the whole file from its start.
\<close>

section \<open>Definitions\<close>

definition isGB18030 :: "gostring \<Rightarrow> bool" where
  "isGB18030 encoding \<longleftrightarrow> EqualFold (TrimSpace encoding) ''gb18030''"

definition gb_lead :: "char \<Rightarrow> bool" where
  "gb_lead c \<longleftrightarrow> \<not> (bval c < 0x81 \<or> bval c = 0xFF)"

text \<open>The linear index of a four-byte sequence, and whether it lies in a range the decoder maps.\<close>

definition gb_linear :: "char \<Rightarrow> char \<Rightarrow> char \<Rightarrow> char \<Rightarrow> nat" where
  "gb_linear a b c d =
     (((bval a - 0x81) * 10 + (bval b - 0x30)) * 126 + (bval c - 0x81)) * 10 + (bval d - 0x30)"

definition gbCharLen :: "bytes \<Rightarrow> bool \<Rightarrow> nat" where
  "gbCharLen b gb18030 =
     (if \<not> gb_lead (b ! 0) then 1
      else if length b < 2 then 2
      else
        (let t = b ! 1 in
         if 0x40 \<le> bval t \<and> bval t \<noteq> 0x7F \<and> bval t \<noteq> 0xFF then 2
         else if gb18030 \<and> 0x30 \<le> bval t \<and> bval t \<le> 0x3F then
           (if (2 < length b \<and> \<not> gb_lead (b ! 2)) \<or>
               (3 < length b \<and> (bval (b ! 3) < 0x30 \<or> 0x39 < bval (b ! 3))) then 1
            else if 3 < length b \<and>
                 (let r = gb_linear (b ! 0) (b ! 1) (b ! 2) (b ! 3)
                  in 39420 \<le> r \<and> (r < 189000 \<or> 189000 + 0x100000 \<le> r)) then 1
            else 4)
         else 1))"

lemma gbCharLen_pos [simp]: "0 < gbCharLen b g"
  by (simp add: gbCharLen_def Let_def)

function gb_whole :: "bytes \<Rightarrow> bool \<Rightarrow> nat \<Rightarrow> nat" where
  "gb_whole data g i =
     (if i < length data then
        (let n = gbCharLen (drop i data) g in
         if length data < i + n then i else gb_whole data g (i + n))
      else i)"
  by pat_completeness auto
termination
  by (relation "measure (\<lambda>(data, g, i). length data - i)") (auto intro: diff_less_mono2)

declare gb_whole.simps [simp del]

definition gbWholeChars :: "bytes \<Rightarrow> bool \<Rightarrow> nat" where
  "gbWholeChars data g = gb_whole data g 0"

definition gb_limit :: "bool \<Rightarrow> nat" where
  "gb_limit g = (if g then 0x30 else 0x40)"

text \<open>The search runs from the last byte down; the result \<open>-1\<close> is \<open>None\<close>.\<close>

fun boundary_from :: "bytes \<Rightarrow> nat \<Rightarrow> nat \<Rightarrow> nat option" where
  "boundary_from data limit 0 = None"
| "boundary_from data limit (Suc i) =
     (if bval (data ! i) < limit then Some (Suc i) else boundary_from data limit i)"

definition gbLastBoundary :: "bytes \<Rightarrow> bool \<Rightarrow> nat option" where
  "gbLastBoundary data g = boundary_from data (gb_limit g) (length data)"

definition is_utf8_name :: "gostring \<Rightarrow> bool" where
  "is_utf8_name encoding \<longleftrightarrow>
     EqualFold (TrimSpace encoding) ''utf-8'' \<or> EqualFold (TrimSpace encoding) ''utf8''"

definition windowEdges :: "bytes \<Rightarrow> gostring \<Rightarrow> bool \<Rightarrow> bool \<Rightarrow> nat \<times> nat" where
  "windowEdges data encoding head tail =
     (if isGBFamily encoding then
        (0, if tail then
              (let g = isGB18030 encoding;
                   base = (case gbLastBoundary data g of Some p \<Rightarrow> p | None \<Rightarrow> 0)
               in base + gbWholeChars (drop base data) g)
            else length data)
      else if is_utf8_name encoding then
        (let (s, e) = utf8Edges data; start = (if head then s else 0)
         in (start, if tail then max e start else length data))
      else (0, length data))"

definition gbSyncScan :: nat where [go_defs]: "gbSyncScan = 65536"

function gb_sync :: "bytes \<Rightarrow> bool \<Rightarrow> nat \<Rightarrow> nat \<Rightarrow> nat" where
  "gb_sync seq g stop p = (if p < stop then gb_sync seq g stop (p + gbCharLen (drop p seq) g) else p)"
  by pat_completeness auto
termination
  by (relation "measure (\<lambda>(seq, g, stop, p). stop - p)") (auto intro: diff_less_mono2)

declare gb_sync.simps [simp del]

definition gbHeadSkip :: "bytes \<Rightarrow> nat \<Rightarrow> bytes \<Rightarrow> bool \<Rightarrow> nat" where
  "gbHeadSkip f off data g =
     (if off = 0 \<or> data = [] then 0
      else
        (let n = min off gbSyncScan; prev = ReadAt f n (off - n);
             parse = (\<lambda>p. let seq = prev @ take (min (length data) 4) data
                          in min (gb_sync seq g (length prev) p - length prev) (length data))
         in case gbLastBoundary prev g of
              Some p \<Rightarrow> parse p
            | None \<Rightarrow> if n < off then 0 else parse 0))"

section \<open>The parse of the whole text\<close>

text \<open>The character boundaries of a text: where the decoder, reading from the start, begins a
  character.\<close>

inductive gb_bound :: "bytes \<Rightarrow> bool \<Rightarrow> nat \<Rightarrow> bool" for f g where
  start: "gb_bound f g 0"
| step: "gb_bound f g i \<Longrightarrow> i < length f \<Longrightarrow> gb_bound f g (i + gbCharLen (drop i f) g)"

text \<open>A character seen whole is read the same however much text follows.\<close>

lemma gbCharLen_append:
  assumes "b \<noteq> []" "gbCharLen b g \<le> length b" shows "gbCharLen (b @ c) g = gbCharLen b g"
proof -
  have l: "0 < length b" using assms(1) by simp
  consider "length b = 1" | "length b = 2" | "length b = 3" | "4 \<le> length b" using l by linarith
  then show ?thesis
    using assms(2) l by cases (auto simp: gbCharLen_def Let_def nth_append split: if_splits)
qed

lemma gbCharLen_le4: "gbCharLen b g \<le> 4"
  by (auto simp: gbCharLen_def Let_def)

text \<open>Four bytes decide the length of a character.\<close>

lemma gbCharLen_take:
  assumes "4 \<le> k" shows "gbCharLen (take k b) g = gbCharLen b g"
  using assms by (auto simp: gbCharLen_def Let_def min_def not_less)

text \<open>Only the first byte of a character can lie below the limit.\<close>


lemma gbCharLen_limit:
  assumes "j < gbCharLen b g" "j < length b" "bval (b ! j) < gb_limit g"
  shows "j = 0 \<and> gbCharLen b g = 1"
proof -
  consider "j = 0" | "j = 1" | "j = 2" | "j = 3" using assms(1) gbCharLen_le4 [of b g] by linarith
  then show ?thesis
    using assms by cases (auto simp: gbCharLen_def gb_limit_def gb_lead_def Let_def split: if_splits)
qed

definition gb_next :: "bytes \<Rightarrow> bool \<Rightarrow> nat \<Rightarrow> nat" where
  "gb_next f g i = (if i < length f then i + gbCharLen (drop i f) g else i)"

lemma gb_bound_iter: "gb_bound f g i \<longleftrightarrow> (\<exists>k. i = (gb_next f g ^^ k) 0)"
proof
  show "gb_bound f g i \<Longrightarrow> \<exists>k. i = (gb_next f g ^^ k) 0"
  proof (induction rule: gb_bound.induct)
    case start
    show ?case by (rule exI [of _ 0]) simp
  next
    case (step i)
    then obtain k where "i = (gb_next f g ^^ k) 0" by blast
    moreover have "i + gbCharLen (drop i f) g = gb_next f g i" using step by (simp add: gb_next_def)
    ultimately show ?case by (intro exI [of _ "Suc k"]) simp
  qed
next
  have "gb_bound f g i \<Longrightarrow> gb_bound f g (gb_next f g i)" for i
    by (simp add: gb_next_def gb_bound.step)
  then have "gb_bound f g ((gb_next f g ^^ k) 0)" for k
    by (induction k) (auto intro: gb_bound.start)
  then show "\<exists>k. i = (gb_next f g ^^ k) 0 \<Longrightarrow> gb_bound f g i" by blast
qed

lemma gb_next_ge: "i \<le> gb_next f g i"
  by (simp add: gb_next_def)

lemma gb_next_mono: "a \<le> b \<Longrightarrow> (gb_next f g ^^ a) i \<le> (gb_next f g ^^ b) i"
  by (rule lift_Suc_mono_le [of "\<lambda>k. (gb_next f g ^^ k) i"]) (simp_all add: gb_next_ge)

lemma gb_bound_next:
  assumes "gb_bound f g p" "gb_bound f g q" "p < q"
  shows "gb_next f g p \<le> q"
proof -
  obtain a b where ab: "p = (gb_next f g ^^ a) 0" "q = (gb_next f g ^^ b) 0"
    using assms by (auto simp: gb_bound_iter)
  have "Suc a \<le> b" using assms(3) gb_next_mono [of b a f g 0] ab by (meson leD not_less_eq_eq)
  then show ?thesis using gb_next_mono [of "Suc a" b f g 0] ab by simp
qed

lemma gb_bound_covers: "q < length f \<Longrightarrow> \<exists>i. gb_bound f g i \<and> i \<le> q \<and> q < i + gbCharLen (drop i f) g"
proof (induction q)
  case 0
  then show ?case by (intro exI [of _ 0]) (auto intro: gb_bound.start)
next
  case (Suc q)
  then obtain i where i: "gb_bound f g i" "i \<le> q" "q < i + gbCharLen (drop i f) g" by auto
  show ?case
  proof (cases "Suc q < i + gbCharLen (drop i f) g")
    case False
    with i have "Suc q = i + gbCharLen (drop i f) g" by simp
    with i Suc.prems show ?thesis by (intro exI [of _ "Suc q"]) (auto intro: gb_bound.step)
  qed (use i in \<open>auto intro: exI [of _ i]\<close>)
qed

text \<open>A byte below the limit is a character of its own: the position after it is a boundary.\<close>

lemma gb_bound_after:
  assumes "q < length f" "bval (f ! q) < gb_limit g"
  shows "gb_bound f g (Suc q)"
proof -
  obtain i where i: "gb_bound f g i" "i \<le> q" "q < i + gbCharLen (drop i f) g"
    using gb_bound_covers [OF assms(1)] by blast
  then have "q - i = 0 \<and> gbCharLen (drop i f) g = 1"
    using assms by (intro gbCharLen_limit) (auto simp: nth_drop)
  then have "i = q" "gbCharLen (drop i f) g = 1" using i(2) by auto
  then show ?thesis using gb_bound.step [OF i(1)] assms(1) by simp
qed

lemma boundary_from_Some:
  "boundary_from data limit n = Some p \<Longrightarrow> 0 < p \<and> p \<le> n \<and> bval (data ! (p - 1)) < limit"
  by (induction n) (auto split: if_splits)

lemma gbLastBoundary_bound:
  assumes "gbLastBoundary (ReadAt f n off) g = Some p"
  shows "0 < p" "p \<le> length (ReadAt f n off)" "gb_bound f g (off + p)"
proof -
  from assms have p: "0 < p" "p \<le> length (ReadAt f n off)" "bval (ReadAt f n off ! (p - 1)) < gb_limit g"
    using boundary_from_Some by (auto simp: gbLastBoundary_def)
  then show "0 < p" "p \<le> length (ReadAt f n off)" by auto
  from p have "bval (f ! (off + (p - 1))) < gb_limit g" "off + (p - 1) < length f"
    by (auto simp: ReadAt_def)
  then show "gb_bound f g (off + p)" using gb_bound_after [of "off + (p - 1)" f g] p(1) by simp
qed

lemma gb_whole_bound:
  assumes "data = ReadAt f n off" "gb_bound f g (off + i)" "i \<le> length data"
  shows "gb_bound f g (off + gb_whole data g i) \<and> gb_whole data g i \<le> length data \<and> i \<le> gb_whole data g i \<and>
    (i + 4 \<le> length data \<longrightarrow> i < gb_whole data g i)"
  using assms
proof (induction data g i rule: gb_whole.induct)
  case (1 data g i)
  show ?case
  proof (cases "i < length data \<and> i + gbCharLen (drop i data) g \<le> length data")
    case True
    let ?n = "gbCharLen (drop i data) g"
    obtain r where r: "drop off f = data @ r" using "1.prems"(1) by (metis ReadAt_def append_take_drop_id)
    have "drop (off + i) f = drop i (drop off f)" by (simp add: add.commute)
    also have "\<dots> = drop i data @ r" unfolding r using True by simp
    finally have "drop (off + i) f = drop i data @ r" .
    then have n: "gbCharLen (drop (off + i) f) g = ?n"
      using True gbCharLen_append [of "drop i data" g r] by (simp add: le_diff_conv2)
    have "off + i < length f" using True "1.prems"(1) by (auto simp: ReadAt_def)
    with gb_bound.step [OF "1.prems"(2)] n have next_bound: "gb_bound f g (off + (i + ?n))" by (simp add: add.assoc)
    have "gb_whole data g i = gb_whole data g (i + ?n)" using True by (subst gb_whole.simps) (simp add: Let_def)
    moreover have "gb_bound f g (off + gb_whole data g (i + ?n)) \<and> gb_whole data g (i + ?n) \<le> length data \<and>
        i + ?n \<le> gb_whole data g (i + ?n)"
      using True "1.prems"(1) next_bound "1.IH" [OF _ refl] by auto
    moreover from this have "i < gb_whole data g (i + ?n)" using gbCharLen_pos [of "drop i data" g] by linarith
    ultimately show ?thesis by simp
  next
    case False
    then have "gb_whole data g i = i" by (subst gb_whole.simps) (auto simp: Let_def)
    with False "1.prems" gbCharLen_le4 [of "drop i data" g] show ?thesis by auto
  qed
qed

text \<open>Resynchronising at a boundary of the whole text skips nothing.\<close>

lemma gb_sync_bound:
  assumes "gb_bound f g (base + p)" "gb_bound f g (base + stop)" "p \<le> stop" "base + stop \<le> length f"
    "seq = drop base f \<or> (\<exists>k. seq = take k (drop base f) \<and> stop + 3 < k)"
  shows "gb_sync seq g stop p = stop"
  using assms(1,3)
proof (induction "stop - p" arbitrary: p rule: less_induct)
  case less
  show ?case
  proof (cases "p < stop")
    case True
    have "gbCharLen (drop p seq) g = gbCharLen (drop (base + p) f) g"
      using assms(5) True gbCharLen_take [of "_ - p" "drop (p + base) f" g] by (auto simp: drop_take add.commute)
    then have n: "base + (p + gbCharLen (drop p seq) g) = gb_next f g (base + p)"
      using True assms(4) by (simp add: gb_next_def)
    have le: "p + gbCharLen (drop p seq) g \<le> stop"
      using gb_bound_next [OF less.prems(1) assms(2)] True n by simp
    have "gb_bound f g (base + (p + gbCharLen (drop p seq) g))"
      unfolding n gb_next_def using less.prems(1) by (auto intro: gb_bound.step)
    with le True have "gb_sync seq g stop (p + gbCharLen (drop p seq) g) = stop"
      by (intro less.hyps) (auto intro: diff_less_mono2)
    with True show ?thesis by (subst gb_sync.simps) simp
  qed (use less.prems in \<open>subst gb_sync.simps, simp\<close>)
qed

lemma gbHeadSkip_bound:
  assumes "gb_bound f g off" "off \<le> length f" "data = ReadAt f n off" "4 \<le> length data \<or> data = drop off f"
  shows "gbHeadSkip f off data g = 0"
proof -
  let ?n = "min off gbSyncScan"
  let ?prev = "ReadAt f ?n (off - ?n)"
  let ?seq = "?prev @ take (min (length data) 4) data"
  have len: "length ?prev = ?n" using assms(2) by (simp add: ReadAt_def)
  have sync: "gb_sync ?seq g (length ?prev) p = length ?prev"
    if "gb_bound f g (off - ?n + p)" "p \<le> ?n" for p
  proof (rule gb_sync_bound [of f g "off - ?n"])
    have split: "drop (off - ?n) f = ?prev @ drop off f"
      by (simp add: ReadAt_def) (metis append_take_drop_id diff_le_self drop_drop le_add_diff_inverse2 min.cobounded1 add.commute diff_diff_cancel)
    show "?seq = drop (off - ?n) f \<or> (\<exists>k. ?seq = take k (drop (off - ?n) f) \<and> length ?prev + 3 < k)"
    proof (cases "4 \<le> length data")
      case True
      then have "min (length data) 4 = 4" "4 \<le> n" using assms(3) by (auto simp: ReadAt_def)
      then have "take (min (length data) 4) data = take 4 (drop off f)"
        using assms(3) by (simp add: ReadAt_def min.absorb2)
      then have "?seq = take (length ?prev + 4) (drop (off - ?n) f)" unfolding split by simp
      then show ?thesis by (intro disjI2 exI [of _ "length ?prev + 4"]) simp
    next
      case False
      with assms(4) split show ?thesis by simp
    qed
  qed (use that assms(1,2) len in auto)
  show ?thesis
  proof (cases "gbLastBoundary ?prev g")
    case None
    then show ?thesis using sync [of 0] len
      by (auto simp: gbHeadSkip_def Let_def min_def gb_bound.start split: if_splits)
  next
    case (Some p)
    from gbLastBoundary_bound [OF this] sync [of p] len Some show ?thesis
      by (simp add: gbHeadSkip_def Let_def)
  qed
qed

end
