(* ===== verification/Line_Reader.thy ===== *)
theory Line_Reader
  imports Gb_Edges
begin

text \<open>
  Reading a file line by line (\<open>readCappedLine\<close> and \<open>excerpt\<close> of \<open>searchops.go\<close>, lines 459 to 508,
  and the loop of \<open>readPickedLines\<close>, \<open>readops.go\<close>, lines 556 to 597): what the search and the
  line-picking read have in common.
\<close>

section \<open>Definitions\<close>

definition searchLineBuf :: nat where [go_defs]: "searchLineBuf = 1048576"
definition maxPickedLines :: nat where [go_defs]: "maxPickedLines = 1000"

text \<open>The line without its ending, how many bytes of the file it took, what is left of the file, and
  whether the file ended.\<close>

function capped_line :: "bytes \<Rightarrow> bytes \<Rightarrow> nat \<Rightarrow> bytes \<times> nat \<times> bytes \<times> bool" where
  "capped_line rest buf used =
     (case ReadSlice rest of
        (chunk, rest', st) \<Rightarrow>
          (let used' = used + length chunk; buf' = buf @ take (searchLineBuf - length buf) chunk
           in if st = BufferFull then capped_line rest' buf' used'
              else (TrimSuffix (TrimSuffix buf' [nl]) [cr], used', rest', st = SliceEOF)))"
  by pat_completeness auto
termination
  by (relation "measure (\<lambda>(rest, _). length rest)") (auto dest: ReadSlice_shorter [OF sym])

declare capped_line.simps [simp del]

definition readCappedLine :: "bytes \<Rightarrow> bytes \<times> nat \<times> bytes \<times> bool" where
  "readCappedLine rest = capped_line rest [] 0"

definition ellipsis :: gostring where
  "ellipsis = [CHR 0xE2, CHR 0x80, CHR 0xA6]"

definition rune_up :: "gostring \<Rightarrow> nat \<Rightarrow> nat \<Rightarrow> nat" where
  "rune_up text s e = s + length (takeWhile (\<lambda>c. \<not> RuneStart c) (take (e - s) (drop s text)))"

fun rune_down :: "gostring \<Rightarrow> nat \<Rightarrow> nat \<Rightarrow> nat" where
  "rune_down text s 0 = 0"
| "rune_down text s (Suc e) =
     (if Suc e < length text \<and> s < Suc e \<and> \<not> RuneStart (text ! Suc e) then rune_down text s e else Suc e)"

definition excerpt_span :: "gostring \<Rightarrow> nat option \<Rightarrow> nat \<Rightarrow> nat \<times> nat" where
  "excerpt_span text loc limit =
     (let s = (case loc of Some l \<Rightarrow> l - limit div 4 | None \<Rightarrow> 0);
          e = min (length text) (s + limit);
          s' = rune_up text s e
      in (s', rune_down text s' e))"

text \<open>\<open>loc\<close> is where the first match of the pattern starts, if there is a pattern and a match.\<close>

definition excerpt :: "gostring \<Rightarrow> nat option \<Rightarrow> nat \<Rightarrow> gostring" where
  "excerpt text loc limit =
     (if length text \<le> limit then text
      else case excerpt_span text loc limit of (s, e) \<Rightarrow>
        (if 0 < s then ellipsis @ ''['' @ Itoa (int s) @ '' bytes] '' else []) @
        take (e - s) (drop s text) @
        (if e < length text then '' '' @ ellipsis @ ''['' @ Itoa (int (length text) - int e) @ '' more bytes]''
         else []))"

text \<open>Whatever the reader's buffer, it returns the next line, cut at the cap.\<close>

definition chop_line :: "bytes \<Rightarrow> bytes" where
  "chop_line l = TrimSuffix (TrimSuffix (take searchLineBuf l) [nl]) [cr]"

lemma chop_line_Nil [simp]: "chop_line [] = []"
  by (simp add: chop_line_def TrimSuffix_single)

lemma capped_line_lines:
  assumes "nl \<notin> set part"
  shows "capped_line rest (take searchLineBuf part) (length part) =
    (case raw_lines (part @ rest) of
       [] \<Rightarrow> ([], 0, [], True)
     | l # ls \<Rightarrow> (chop_line l, length l, concat ls, last l \<noteq> nl))"
  using assms
proof (induction "length rest" arbitrary: rest part rule: less_induct)
  case less
  obtain chunk rest' st where rs: "ReadSlice rest = (chunk, rest', st)" by (metis prod_cases3)
  have grow: "take searchLineBuf part @ take (searchLineBuf - length (take searchLineBuf part)) chunk =
    take searchLineBuf (part @ chunk)"
    by (cases "length part \<le> searchLineBuf") simp_all
  note step = capped_line.simps [of rest "take searchLineBuf part" "length part", unfolded rs prod.case Let_def grow]
  show ?case
    using rs
  proof (cases rule: ReadSlice_cases)
    case (ok a)
    then have "raw_lines (part @ rest) = (part @ chunk) # raw_lines rest'"
      using raw_lines_nl [of "part @ a" rest'] less.prems by simp
    with ok show ?thesis by (subst step) (simp add: chop_line_def)
  next
    case full
    then have "length rest' < length rest" by simp
    from less.hyps [OF this, of "part @ chunk"] full less.prems show ?thesis by (subst step) simp
  next
    case eof
    then have "raw_lines (part @ rest) = (if part @ chunk = [] then [] else [part @ chunk])"
      using less.prems by (simp add: raw_lines_no_nl)
    moreover have "part @ chunk \<noteq> [] \<Longrightarrow> last (part @ chunk) \<noteq> nl"
      using eof less.prems last_in_set [of "part @ chunk"] by auto
    moreover have "TrimSuffix (TrimSuffix [] [nl]) [cr] = []" by (simp add: TrimSuffix_single)
    ultimately show ?thesis using eof
      by (subst step) (auto simp: chop_line_def simp del: take_append)
  qed
qed

lemma readCappedLine_lines:
  "readCappedLine rest =
    (case raw_lines rest of
       [] \<Rightarrow> ([], 0, [], True)
     | l # ls \<Rightarrow> (chop_line l, length l, concat ls, last l \<noteq> nl))"
  using capped_line_lines [of "[]" rest] by (simp add: readCappedLine_def)

lemma readCappedLine_shorter:
  assumes "readCappedLine rest = (line, used, rest', eof)" "used \<noteq> 0"
  shows "length rest' < length rest"
proof (cases "raw_lines rest")
  case (Cons l ls)
  then have "rest = l @ concat ls" by (metis concat.simps(2) concat_raw_lines)
  then have "length rest = length l + length (concat ls)" by simp
  with assms Cons show ?thesis by (simp add: readCappedLine_lines)
qed (use assms in \<open>simp add: readCappedLine_lines\<close>)

subsection \<open>Picking lines\<close>

record picked =
  pk_out :: gostring
  pk_start :: nat
  pk_offset :: nat
  pk_returned :: nat
  pk_seen :: nat
  pk_left :: "int list"
  pk_next :: "nat option"

function picked_loop ::
  "codec \<Rightarrow> gostring \<Rightarrow> gostring \<Rightarrow> nat \<Rightarrow> bytes \<Rightarrow> nat \<Rightarrow> picked \<Rightarrow> picked" where
  "picked_loop cd enc forced maxBytes rest off p =
     (if pk_left p = [] then p
      else case readCappedLine rest of
        (line, used, rest', eof) \<Rightarrow>
          (if used = 0 then p
           else
             (let seen = Suc (pk_seen p); p = p\<lparr>pk_seen := seen\<rparr>;
                  go_on = (\<lambda>p. if eof then p else picked_loop cd enc forced maxBytes rest' (off + used) p)
              in if int seen = hd (pk_left p) then
                   (let text = decodeLine cd line enc forced in
                    if pk_out p \<noteq> [] \<and> maxBytes < length (pk_out p) + 1 + numberedLen seen text
                    then p\<lparr>pk_next := Some seen\<rparr>
                    else if pk_out p = [] then
                      (let text = (if maxBytes < numberedLen seen text
                                   then excerpt text None (max (maxBytes - 8) 1) else text)
                       in go_on (p\<lparr>pk_start := seen, pk_offset := off, pk_out := writeNumbered seen text,
                                   pk_returned := Suc (pk_returned p), pk_left := tl (pk_left p)\<rparr>))
                    else go_on (p\<lparr>pk_out := pk_out p @ [nl] @ writeNumbered seen text,
                                   pk_returned := Suc (pk_returned p), pk_left := tl (pk_left p)\<rparr>))
                 else go_on p)))"
  by pat_completeness auto
termination
  by (relation "measure (\<lambda>(cd, enc, forced, m, rest, off, p). length rest)")
    (auto dest: readCappedLine_shorter [OF sym])

declare picked_loop.simps [simp del]


section \<open>Picked lines\<close>

definition picked_text :: "codec \<Rightarrow> gostring \<Rightarrow> gostring \<Rightarrow> bytes list \<Rightarrow> nat \<Rightarrow> int \<Rightarrow> gostring" where
  "picked_text cd enc forced ls seen n =
     writeNumbered (nat n) (decodeLine cd (chop_line (ls ! (nat n - Suc seen))) enc forced)"

lemma writeNumbered_not_Nil [simp]: "writeNumbered n t \<noteq> []"
  by (simp add: writeNumbered_def Let_def)

lemma picked_text_Cons:
  "int (Suc seen) < n \<Longrightarrow> picked_text cd enc forced (l # ls) seen n = picked_text cd enc forced ls (Suc seen) n"
proof -
  assume "int (Suc seen) < n"
  then have "nat n - Suc seen = Suc (nat n - Suc (Suc seen))" by linarith
  then show ?thesis by (simp add: picked_text_def)
qed

lemma join_sep_snoc: "join sep (xs @ [x]) = (if xs = [] then x else join sep xs @ sep @ x)"
  by (induction xs) (auto simp: join_Cons)

lemma join_prefix_le: "length (join sep (xs @ [x])) \<le> length (join sep (xs @ x # ys))"
  by (induction xs) (auto simp: join_Cons)

lemma join_eq_Nil: "\<forall>x \<in> set xs. x \<noteq> [] \<Longrightarrow> join sep xs = [] \<longleftrightarrow> xs = []"
  by (cases xs) (auto simp: join_Cons)

lemma raw_lines_tail:
  assumes "raw_lines f = l # ls"
  shows "raw_lines (concat ls) = ls" "last l \<noteq> nl \<Longrightarrow> ls = []" "l \<noteq> []"
proof -
  show "raw_lines (concat ls) = ls" using raw_lines_concat_drop [of 1 f] assms by simp
  show "ls = []" if "last l \<noteq> nl"
    using raw_lines_butlast [of 0 f] assms that by (cases ls) (auto simp: is_line_def)
  show "l \<noteq> []" using raw_lines_not_Nil [of l f] assms by simp
qed

text \<open>The state of the loop says what it still has to do: \<open>texts\<close> are the requested lines still in
  the file, and they fit.\<close>

definition picks :: "codec \<Rightarrow> gostring \<Rightarrow> gostring \<Rightarrow> bytes list \<Rightarrow> picked \<Rightarrow> gostring list" where
  "picks cd enc forced ls p = map (picked_text cd enc forced ls (pk_seen p))
     (filter (\<lambda>n. n \<le> int (pk_seen p + length ls)) (pk_left p))"

definition pick_ok :: "codec \<Rightarrow> gostring \<Rightarrow> gostring \<Rightarrow> nat \<Rightarrow> bytes list \<Rightarrow> gostring list \<Rightarrow> picked \<Rightarrow> bool" where
  "pick_ok cd enc forced maxBytes ls out p \<longleftrightarrow>
     sorted_wrt (<) (pk_left p) \<and> (\<forall>n \<in> set (pk_left p). int (pk_seen p) < n) \<and>
     pk_out p = join [nl] out \<and> (\<forall>x \<in> set out. x \<noteq> []) \<and> pk_next p = None \<and>
     length (join [nl] (out @ picks cd enc forced ls p)) \<le> maxBytes"

definition pick_done :: "codec \<Rightarrow> gostring \<Rightarrow> gostring \<Rightarrow> bytes list \<Rightarrow> gostring list \<Rightarrow> picked \<Rightarrow> picked \<Rightarrow> bool" where
  "pick_done cd enc forced ls out p q \<longleftrightarrow>
     pk_out q = join [nl] (out @ picks cd enc forced ls p) \<and>
     pk_left q = filter (\<lambda>n. int (pk_seen p + length ls) < n) (pk_left p) \<and> pk_next q = None"

lemma pick_skip:
  assumes "pick_ok cd enc forced maxBytes (l # ls) out p" "int (Suc (pk_seen p)) \<notin> set (pk_left p)"
  shows "pick_ok cd enc forced maxBytes ls out (p\<lparr>pk_seen := Suc (pk_seen p)\<rparr>)"
    "pick_done cd enc forced ls out (p\<lparr>pk_seen := Suc (pk_seen p)\<rparr>) q \<Longrightarrow> pick_done cd enc forced (l # ls) out p q"
proof -
  have later: "\<forall>n \<in> set (pk_left p). int (Suc (pk_seen p)) < n"
    using assms by (auto simp: pick_ok_def) (metis add.commute int_ops(4) le_imp_0_less linorder_not_le order_le_less zless_iff_Suc_zadd zle_add1_eq_le)
  then have same: "picks cd enc forced (l # ls) p = picks cd enc forced ls (p\<lparr>pk_seen := Suc (pk_seen p)\<rparr>)"
    by (auto simp: picks_def picked_text_Cons)
  from later show "pick_ok cd enc forced maxBytes ls out (p\<lparr>pk_seen := Suc (pk_seen p)\<rparr>)"
    using assms(1) by (auto simp: pick_ok_def same)
  show "pick_done cd enc forced ls out (p\<lparr>pk_seen := Suc (pk_seen p)\<rparr>) q \<Longrightarrow> pick_done cd enc forced (l # ls) out p q"
    by (simp add: pick_done_def same)
qed

lemma nat_1_add: "nat (1 + int k) = Suc k"
  by simp

lemma pick_take:
  assumes "pick_ok cd enc forced maxBytes (l # ls) out p" "pk_left p = n # ns" "n = int (Suc (pk_seen p))"
  defines "x \<equiv> writeNumbered (Suc (pk_seen p)) (decodeLine cd (chop_line l) enc forced)"
  assumes "pk_seen q = Suc (pk_seen p)" "pk_left q = ns" "pk_next q = None"
    "pk_out q = (if pk_out p = [] then x else pk_out p @ [nl] @ x)"
  shows "pick_ok cd enc forced maxBytes ls (out @ [x]) q" "length (join [nl] (out @ [x])) \<le> maxBytes"
    "pick_done cd enc forced ls (out @ [x]) q r \<Longrightarrow> pick_done cd enc forced (l # ls) out p r"
proof -
  have ns: "\<forall>m \<in> set ns. n < m" "sorted_wrt (<) ns" using assms(1,2) by (auto simp: pick_ok_def)
  then have rest: "map (picked_text cd enc forced (l # ls) (pk_seen p)) (filter (\<lambda>n. n \<le> int (Suc (pk_seen p) + length ls)) ns) =
    picks cd enc forced ls q"
    unfolding picks_def assms(5,6) using assms(3) by (intro map_cong refl) (auto intro!: picked_text_Cons)
  then have texts: "picks cd enc forced (l # ls) p = x # picks cd enc forced ls q"
    using assms(2,3) by (simp add: picks_def picked_text_def x_def nat_1_add)
  have out: "pk_out q = join [nl] (out @ [x])" "\<forall>y \<in> set out. y \<noteq> []"
    using assms(1,8) by (auto simp: pick_ok_def join_sep_snoc join_eq_Nil)
  have fits: "length (join [nl] (out @ x # picks cd enc forced ls q)) \<le> maxBytes"
    using assms(1) texts by (simp add: pick_ok_def)
  then show "length (join [nl] (out @ [x])) \<le> maxBytes"
    using join_prefix_le [of "[nl]" out x] le_trans by blast
  show "pick_ok cd enc forced maxBytes ls (out @ [x]) q"
    using ns out assms(3,5,6,7) fits by (simp add: pick_ok_def x_def)
  show "pick_done cd enc forced ls (out @ [x]) q r \<Longrightarrow> pick_done cd enc forced (l # ls) out p r"
    using texts assms(2,3,5,6) by (simp add: pick_done_def)
qed

lemma pick_end:
  assumes "pick_ok cd enc forced maxBytes [] out p" shows "pick_done cd enc forced [] out p p"
proof -
  have "filter (\<lambda>n. n \<le> int (pk_seen p)) (pk_left p) = []" "filter (\<lambda>n. int (pk_seen p) < n) (pk_left p) = pk_left p"
    using assms by (auto simp: pick_ok_def filter_empty_conv filter_id_conv)
  with assms show ?thesis by (simp add: pick_done_def pick_ok_def picks_def)
qed

lemma picked_loop_done:
  assumes "raw_lines rest = ls" "pick_ok cd enc forced maxBytes ls out p"
  shows "pick_done cd enc forced ls out p (picked_loop cd enc forced maxBytes rest off p)"
  using assms
proof (induction ls arbitrary: rest off p out)
  case Nil
  then show ?case using pick_end by (subst picked_loop.simps) (auto simp: readCappedLine_lines)
next
  case (Cons l ls)
  note tail = raw_lines_tail [OF Cons.prems(1)]
  have "raw_lines rest = l # ls" by (rule Cons.prems(1))
  then have read: "readCappedLine rest = (chop_line l, length l, concat ls, last l \<noteq> nl)"
    by (simp add: readCappedLine_lines)
  have go: "pick_done cd enc forced ls out' q
      (if last l \<noteq> nl then q else picked_loop cd enc forced maxBytes (concat ls) (off + length l) q)"
    if ok: "pick_ok cd enc forced maxBytes ls out' q" for out' q
  proof (cases "last l = nl")
    case False
    with ok tail(2) pick_end show ?thesis by auto
  qed (use Cons.IH [OF tail(1) ok] in simp)
  let ?seen = "Suc (pk_seen p)"
  let ?text = "decodeLine cd (chop_line l) enc forced"
  note step = picked_loop.simps [of cd enc forced maxBytes rest off p, unfolded read prod.case Let_def]
  show ?case
  proof (cases "pk_left p")
    case Nil
    with Cons.prems show ?thesis by (simp add: picked_loop.simps pick_done_def pick_ok_def picks_def)
  next
    case left: (Cons n ns)
    show ?thesis
    proof (cases "int ?seen = n")
      case False
      then have "int ?seen \<notin> set (pk_left p)" using left Cons.prems(2) by (auto simp: pick_ok_def)
      from pick_skip [OF Cons.prems(2) this] go show ?thesis
        using left False tail(3) by (subst step) simp
    next
      case True
      let ?x = "writeNumbered ?seen ?text"
      let ?q = "p\<lparr>pk_seen := ?seen, pk_start := if pk_out p = [] then ?seen else pk_start p,
        pk_offset := if pk_out p = [] then off else pk_offset p,
        pk_out := if pk_out p = [] then ?x else pk_out p @ [nl] @ ?x,
        pk_returned := Suc (pk_returned p), pk_left := ns\<rparr>"
      have none: "pk_next p = None" using Cons.prems(2) by (simp add: pick_ok_def)
      have q: "pk_seen ?q = ?seen" "pk_left ?q = ns" "pk_next ?q = None"
        "pk_out ?q = (if pk_out p = [] then ?x else pk_out p @ [nl] @ ?x)" using none by simp_all
      note t = pick_take [OF Cons.prems(2) left True [symmetric] q]
      have "length (pk_out ?q) \<le> maxBytes" using t(1,2) by (simp add: pick_ok_def)
      then have "picked_loop cd enc forced maxBytes rest off p =
        (if last l \<noteq> nl then ?q else picked_loop cd enc forced maxBytes (concat ls) (off + length l) ?q)"
        using left True tail(3) none by (subst step) (auto simp: numberedLen_exact)
      with t(3) go [OF t(1)] show ?thesis by simp
    qed
  qed
qed

end
