(* ===== verification/Paths.thy ===== *)
theory Paths
  imports Go_Prelude
begin

text \<open>
  \<open>path/filepath\<close> on Unix, as the source uses it: lexical cleaning, joining, and the directory and base
  name of a path.  A path is a byte string; its components are the non-empty pieces between slashes.
\<close>

section \<open>Definitions\<close>

abbreviation slash :: char where "slash \<equiv> CHR 0x2F"

definition comps :: "gostring \<Rightarrow> gostring list" where
  "comps p = filter (\<lambda>c. c \<noteq> []) (split_on slash p)"

definition IsAbs :: "gostring \<Rightarrow> bool" where
  "IsAbs p \<longleftrightarrow> p \<noteq> [] \<and> hd p = slash"

text \<open>The stack of kept components, innermost first.\<close>

definition clean_step :: "bool \<Rightarrow> gostring list \<Rightarrow> gostring \<Rightarrow> gostring list" where
  "clean_step rooted st c =
     (if c = ''.'' then st
      else if c = ''..'' then
        (case st of
           [] \<Rightarrow> (if rooted then [] else [''..''])
         | t # st' \<Rightarrow> (if t = ''..'' then ''..'' # st else st'))
      else c # st)"

fun clean_stack :: "bool \<Rightarrow> gostring list \<Rightarrow> gostring list \<Rightarrow> gostring list" where
  "clean_stack rooted st [] = st"
| "clean_stack rooted st (c # cs) = clean_stack rooted (clean_step rooted st c) cs"

definition path_of :: "bool \<Rightarrow> gostring list \<Rightarrow> gostring" where
  "path_of rooted cs =
     (if rooted then slash # join [slash] cs else if cs = [] then ''.'' else join [slash] cs)"

definition clean_comps :: "gostring \<Rightarrow> gostring list" where
  "clean_comps p = rev (clean_stack (IsAbs p) [] (comps p))"

definition Clean :: "gostring \<Rightarrow> gostring" where
  "Clean p = path_of (IsAbs p) (clean_comps p)"

definition Join :: "gostring list \<Rightarrow> gostring" where
  "Join ps = (let qs = dropWhile (\<lambda>p. p = []) ps in if qs = [] then [] else Clean (join [slash] qs))"

definition Dir :: "gostring \<Rightarrow> gostring" where
  "Dir p = Clean (rev (dropWhile (\<lambda>c. c \<noteq> slash) (rev p)))"

definition Base :: "gostring \<Rightarrow> gostring" where
  "Base p =
     (if p = [] then ''.''
      else (let q = rev (takeWhile (\<lambda>c. c \<noteq> slash) (dropWhile (\<lambda>c. c = slash) (rev p)))
            in if q = [] then [slash] else q))"

text \<open>\<open>filepath.Abs\<close> in a process whose working directory is \<open>cwd\<close>.\<close>

definition Abs :: "gostring \<Rightarrow> gostring \<Rightarrow> gostring" where
  "Abs cwd p = (if IsAbs p then Clean p else Join [cwd, p])"

section \<open>Cleaned paths\<close>

text \<open>A real component: neither empty, nor a dot, and without a slash.\<close>

definition plain :: "gostring \<Rightarrow> bool" where
  "plain c \<longleftrightarrow> c \<noteq> [] \<and> c \<noteq> ''.'' \<and> slash \<notin> set c"

lemma comps_plain: "c \<in> set (comps p) \<Longrightarrow> c \<noteq> [] \<and> slash \<notin> set c"
  by (auto simp: comps_def dest: split_on_elem_no_sep)

lemma clean_step_subset: "set (clean_step rooted st c) \<subseteq> insert ''..'' (set st \<union> ({c} - {''.''}))"
  by (cases st) (auto simp: clean_step_def)

lemma clean_stack_subset:
  "set (clean_stack rooted st cs) \<subseteq> insert ''..'' (set st \<union> (set cs - {''.''}))"
proof (induction cs arbitrary: st)
  case (Cons c cs)
  from Cons.IH [of "clean_step rooted st c"] clean_step_subset [of rooted st c] show ?case by auto
qed auto

lemma clean_stack_plain:
  assumes "\<forall>c \<in> set st. plain c" "\<forall>c \<in> set cs. c \<noteq> [] \<and> slash \<notin> set c"
  shows "\<forall>c \<in> set (clean_stack rooted st cs). plain c"
proof
  fix c assume "c \<in> set (clean_stack rooted st cs)"
  with clean_stack_subset have "c = ''..'' \<or> c \<in> set st \<or> (c \<in> set cs \<and> c \<noteq> ''.'')" by blast
  with assms show "plain c" by (auto simp: plain_def)
qed

lemma clean_comps_plain: "\<forall>c \<in> set (clean_comps p). plain c"
  using clean_stack_plain [of "[]" "comps p"] comps_plain by (simp add: clean_comps_def)

lemma clean_stack_rooted: "''..'' \<notin> set st \<Longrightarrow> ''..'' \<notin> set (clean_stack True st cs)"
proof (induction cs arbitrary: st)
  case (Cons c cs)
  then have "''..'' \<notin> set (clean_step True st c)" by (cases st) (auto simp: clean_step_def)
  with Cons.IH show ?case by simp
qed simp

lemma clean_comps_rooted: "IsAbs p \<Longrightarrow> ''..'' \<notin> set (clean_comps p)"
  using clean_stack_rooted [of "[]" "comps p"] by (simp add: clean_comps_def)

lemma filter_split_on_join:
  "\<forall>c \<in> set cs. c \<noteq> [] \<and> slash \<notin> set c \<Longrightarrow> comps (join [slash] cs) = cs"
proof (cases "cs = []")
  case False
  assume "\<forall>c \<in> set cs. c \<noteq> [] \<and> slash \<notin> set c"
  with False show ?thesis by (simp add: comps_def split_on_join filter_id_conv)
qed (simp add: comps_def)

lemma comps_slash [simp]: "comps (slash # p) = comps p"
  by (simp add: comps_def)

lemma plain_hd: "plain c \<Longrightarrow> hd c \<noteq> slash"
  by (cases c) (auto simp: plain_def)

lemma hd_join: "cs \<noteq> [] \<Longrightarrow> hd cs \<noteq> [] \<Longrightarrow> hd (join sep cs) = hd (hd cs)"
  by (cases cs) (auto simp: join_Cons)

lemma IsAbs_path_of: "\<forall>c \<in> set cs. plain c \<Longrightarrow> IsAbs (path_of rooted cs) = rooted"
proof (cases cs)
  case (Cons c cs')
  assume p: "\<forall>c \<in> set cs. plain c"
  then have "plain c" using Cons by simp
  then show ?thesis
    using Cons by (auto simp: path_of_def IsAbs_def join_Cons plain_hd plain_def hd_append)
qed (auto simp: path_of_def IsAbs_def)

lemma comps_path_of: "\<forall>c \<in> set cs. plain c \<Longrightarrow> cs \<noteq> [] \<or> rooted \<Longrightarrow> comps (path_of rooted cs) = cs"
  by (auto simp: path_of_def filter_split_on_join plain_def)

lemma IsAbs_Clean [simp]: "IsAbs (Clean p) = IsAbs p"
  by (simp add: Clean_def IsAbs_path_of clean_comps_plain)

lemma clean_stack_id:
  "''..'' \<notin> set cs \<Longrightarrow> ''.'' \<notin> set cs \<Longrightarrow> clean_stack rooted st cs = rev cs @ st"
  by (induction cs arbitrary: st) (auto simp: clean_step_def)

lemma clean_comps_path_of:
  assumes "\<forall>c \<in> set cs. plain c" "''..'' \<notin> set cs" shows "clean_comps (path_of True cs) = cs"
proof -
  have "''.'' \<notin> set cs" using assms(1) by (auto simp: plain_def)
  with assms show ?thesis
    by (simp add: clean_comps_def comps_path_of IsAbs_path_of clean_stack_id)
qed

lemma clean_comps_Clean: "IsAbs p \<Longrightarrow> clean_comps (Clean p) = clean_comps p"
  by (simp add: Clean_def clean_comps_path_of clean_comps_plain clean_comps_rooted)

lemma Clean_Clean: "IsAbs p \<Longrightarrow> Clean (Clean p) = Clean p"
  by (simp add: Clean_def [of "Clean p"] clean_comps_Clean) (simp add: Clean_def)

end
