(* ===== verification/File_System.thy ===== *)
theory File_System
  imports Paths "HOL-Library.Sublist"
begin

text \<open>
  The Unix file system as the file tools see it through the \<open>os\<close> package: a finite tree of files,
  directories and symbolic links, addressed by lists of components, and the resolution of a path by
  the kernel.  Every operation that follows links is one walk; \<open>filepath.EvalSymlinks\<close> is the same walk
  with Go's own bound on links.  Permissions are not modelled: every node can be read and written.
\<close>

section \<open>Nodes\<close>

type_synonym loc = "gostring list"

datatype node =
    NFile (ndata: bytes) (nmode: nat)
  | NDir (nmode: nat)
  | NLink (ntarget: gostring)

record filesys =
  nodes :: "(loc \<times> node) list"
  workdir :: gostring
  umask :: nat

datatype fs_error =
    ENOENT
  | ENOTDIR
  | ELOOP
  | EEXIST
  | EISDIR
  | ENOTEMPTY
  | EINVAL
  | EXDEV
  | TooManyLinks

text \<open>The root directory always exists.\<close>

definition node_at :: "filesys \<Rightarrow> loc \<Rightarrow> node option" where
  "node_at fs p = (if p = [] then Some (NDir 493) else map_of (nodes fs) p)"

section \<open>Resolution\<close>

text \<open>The components a link target stands for; a trailing slash asks for a directory, like a final dot.\<close>

definition link_comps :: "gostring \<Rightarrow> gostring list" where
  "link_comps t = comps t @ (if t \<noteq> [] \<and> last t = slash then [''.''] else [])"

text \<open>\<open>walk fs mk n cur cs\<close>: follow the components \<open>cs\<close> from the directory \<open>cur\<close> through at most \<open>n\<close>
  links.  With \<open>mk\<close> the last component may be missing: it is where the file would be created.\<close>

function walk :: "filesys \<Rightarrow> bool \<Rightarrow> nat \<Rightarrow> loc \<Rightarrow> gostring list \<Rightarrow> fs_error + loc" where
  "walk fs mk n cur [] = Inr cur"
| "walk fs mk n cur (c # cs) =
     (if c = ''.'' then walk fs mk n cur cs
      else if c = ''..'' then walk fs mk n (butlast cur) cs
      else
        (case node_at fs (cur @ [c]) of
           None \<Rightarrow> if mk \<and> cs = [] then Inr (cur @ [c]) else Inl ENOENT
         | Some (NDir _) \<Rightarrow> walk fs mk n (cur @ [c]) cs
         | Some (NFile _ _) \<Rightarrow> if cs = [] then Inr (cur @ [c]) else Inl ENOTDIR
         | Some (NLink t) \<Rightarrow>
             (case n of
                0 \<Rightarrow> Inl ELOOP
              | Suc m \<Rightarrow> walk fs mk m (if IsAbs t then [] else cur) (link_comps t @ cs))))"
  by pat_completeness auto
termination
  by (relation "measures [\<lambda>(fs, mk, n, cur, cs). n, \<lambda>(fs, mk, n, cur, cs). length cs]") auto

declare walk.simps(2) [simp del]

text \<open>The kernel follows at most 40 links; \<open>filepath.EvalSymlinks\<close> counts to 255.\<close>

definition MAXSYMLINKS :: nat where [go_defs]: "MAXSYMLINKS = 40"

definition resolve :: "filesys \<Rightarrow> bool \<Rightarrow> loc \<Rightarrow> fs_error + loc" where
  "resolve fs mk p = walk fs mk MAXSYMLINKS [] p"

definition EvalSymlinks :: "filesys \<Rightarrow> loc \<Rightarrow> fs_error + loc" where
  "EvalSymlinks fs p =
     (case walk fs False 255 [] p of Inl ELOOP \<Rightarrow> Inl TooManyLinks | r \<Rightarrow> r)"

text \<open>\<open>os.Lstat\<close> resolves the directory and looks at the last component itself.\<close>

definition lresolve :: "filesys \<Rightarrow> loc \<Rightarrow> fs_error + loc" where
  "lresolve fs p =
     (if p = [] then Inr []
      else case resolve fs False (butlast p) of Inl e \<Rightarrow> Inl e | Inr d \<Rightarrow> Inr (d @ [last p]))"

definition Lstat :: "filesys \<Rightarrow> loc \<Rightarrow> fs_error + node" where
  "Lstat fs p =
     (case lresolve fs p of
        Inl e \<Rightarrow> Inl e
      | Inr q \<Rightarrow> (case node_at fs q of None \<Rightarrow> Inl ENOENT | Some x \<Rightarrow> Inr x))"

definition Stat :: "filesys \<Rightarrow> loc \<Rightarrow> fs_error + node" where
  "Stat fs p =
     (case resolve fs False p of
        Inl e \<Rightarrow> Inl e
      | Inr q \<Rightarrow> (case node_at fs q of None \<Rightarrow> Inl ENOENT | Some x \<Rightarrow> Inr x))"

definition Readlink :: "filesys \<Rightarrow> loc \<Rightarrow> fs_error + gostring" where
  "Readlink fs p =
     (case Lstat fs p of Inl e \<Rightarrow> Inl e | Inr (NLink t) \<Rightarrow> Inr t | Inr _ \<Rightarrow> Inl EINVAL)"

section \<open>Successful walks\<close>

text \<open>The walks that succeed, as a relation, for rule induction.\<close>

definition special :: "gostring \<Rightarrow> bool" where
  "special c \<longleftrightarrow> c = ''.'' \<or> c = ''..''"

definition link_base :: "gostring \<Rightarrow> loc \<Rightarrow> loc" where
  "link_base t cur = (if IsAbs t then [] else cur)"

inductive walks :: "filesys \<Rightarrow> bool \<Rightarrow> nat \<Rightarrow> loc \<Rightarrow> gostring list \<Rightarrow> loc \<Rightarrow> bool" for fs mk where
  w_end: "walks fs mk n cur [] cur"
| w_dot: "walks fs mk n cur cs q \<Longrightarrow> walks fs mk n cur (''.'' # cs) q"
| w_up: "walks fs mk n (butlast cur) cs q \<Longrightarrow> walks fs mk n cur (''..'' # cs) q"
| w_new: "\<not> special c \<Longrightarrow> node_at fs (cur @ [c]) = None \<Longrightarrow> mk \<Longrightarrow> walks fs mk n cur [c] (cur @ [c])"
| w_dir: "\<not> special c \<Longrightarrow> node_at fs (cur @ [c]) = Some (NDir m) \<Longrightarrow> walks fs mk n (cur @ [c]) cs q \<Longrightarrow>
    walks fs mk n cur (c # cs) q"
| w_file: "\<not> special c \<Longrightarrow> node_at fs (cur @ [c]) = Some (NFile d m) \<Longrightarrow> walks fs mk n cur [c] (cur @ [c])"
| w_link: "\<not> special c \<Longrightarrow> node_at fs (cur @ [c]) = Some (NLink t) \<Longrightarrow>
    walks fs mk n (link_base t cur) (link_comps t @ cs) q \<Longrightarrow> walks fs mk (Suc n) cur (c # cs) q"

lemma walks_walk: "walks fs mk n cur cs q \<Longrightarrow> walk fs mk n cur cs = Inr q"
  by (induction rule: walks.induct) (simp_all add: walk.simps(2) special_def link_base_def)

lemma walk_walks: "walk fs mk n cur cs = Inr q \<Longrightarrow> walks fs mk n cur cs q"
proof (induction fs mk n cur cs rule: walk.induct)
  case (1 fs mk n cur)
  then show ?case by (simp add: walks.w_end)
next
  case (2 fs mk n cur c cs)
  note ih = 2(1-4) and ok = 2(5)
  consider (dot) "c = ''.''" | (up) "c = ''..''" | (proper) "\<not> special c" by (auto simp: special_def)
  then show ?case
  proof cases
    case dot
    then have "walk fs mk n cur cs = Inr q" using ok by (simp add: walk.simps(2))
    then show ?thesis unfolding dot by (intro walks.w_dot ih(1) dot)
  next
    case up
    then have "walk fs mk n (butlast cur) cs = Inr q" using ok by (simp add: walk.simps(2))
    then show ?thesis unfolding up by (intro walks.w_up ih(2)) (simp_all add: up)
  next
    case proper
    then have c: "c \<noteq> ''.''" "c \<noteq> ''..''" by (simp_all add: special_def)
    show ?thesis
    proof (cases "node_at fs (cur @ [c])")
      case None
      with ok c have "mk" "cs = []" "q = cur @ [c]" by (auto simp: walk.simps(2) split: if_splits)
      then show ?thesis using walks.w_new [OF proper None] by simp
    next
      case (Some x)
      show ?thesis
      proof (cases x)
        case (NFile d m)
        with ok c Some have "cs = []" "q = cur @ [c]" by (auto simp: walk.simps(2) split: if_splits)
        then show ?thesis using walks.w_file [OF proper] Some NFile by simp
      next
        case (NDir m)
        with ok c Some have "walk fs mk n (cur @ [c]) cs = Inr q" by (simp add: walk.simps(2))
        then show ?thesis using walks.w_dir [OF proper] ih(3) [OF c Some NDir] Some NDir by blast
      next
        case (NLink t)
        with ok c Some obtain k where k: "n = Suc k"
          "walk fs mk k (if IsAbs t then [] else cur) (link_comps t @ cs) = Inr q"
          by (auto simp: walk.simps(2) split: nat.splits)
        from ih(4) [OF c Some NLink k] show ?thesis
          unfolding k(1) by (intro walks.w_link [OF proper]) (simp_all add: Some NLink link_base_def)
      qed
    qed
  qed
qed

lemma walk_iff: "walk fs mk n cur cs = Inr q \<longleftrightarrow> walks fs mk n cur cs q"
  using walk_walks walks_walk by blast

inductive_cases walks_NilE [elim!]: "walks fs mk n cur [] q"
inductive_cases walks_ConsE: "walks fs mk n cur (c # cs) q"

lemma walks_mono: "walks fs mk n cur cs q \<Longrightarrow> n \<le> m \<Longrightarrow> walks fs mk m cur cs q"
proof (induction arbitrary: m rule: walks.induct)
  case (w_link c cur t n cs q)
  then obtain k where "m = Suc k" "n \<le> k" by (cases m) auto
  then show ?case using walks.w_link [OF w_link(1,2)] w_link(4) by blast
qed (auto intro: walks.intros)

lemma walks_mk: "walks fs False n cur cs q \<Longrightarrow> walks fs True n cur cs q"
  by (induction rule: walks.induct) (auto intro: walks.intros)

lemma walk_det: "walks fs mk n cur cs q \<Longrightarrow> walks fs mk m cur cs r \<Longrightarrow> q = r"
  by (metis walks_mono nat_le_linear walk_iff sum.inject(2))

text \<open>Deleting dots from a path changes nothing.\<close>

inductive undot :: "gostring list \<Rightarrow> gostring list \<Rightarrow> bool" where
  u_nil: "undot [] []"
| u_keep: "undot as bs \<Longrightarrow> undot (c # as) (c # bs)"
| u_drop: "undot as bs \<Longrightarrow> undot (''.'' # as) bs"

inductive_cases undot_NilE [elim!]: "undot [] bs"
inductive_cases undot_ConsE: "undot (c # as) bs"

lemma undot_refl: "undot as as"
  by (induction as) (auto intro: undot.intros)

lemma undot_append: "undot as bs \<Longrightarrow> undot (xs @ as) (xs @ bs)"
  by (induction xs) (auto intro: undot.intros)

lemma undot_filter: "undot as (filter (\<lambda>c. c \<noteq> ''.'') as)"
  by (induction as) (auto intro: undot.intros)

lemma walks_undot: "walks fs mk n cur as q \<Longrightarrow> undot as bs \<Longrightarrow> walks fs mk n cur bs q"
proof (induction arbitrary: bs rule: walks.induct)
  case (w_link c cur t n cs q)
  from w_link(5,1) obtain bs' where "bs = c # bs'" "undot cs bs'" by (auto simp: special_def elim: undot_ConsE)
  then show ?case using walks.w_link [OF w_link(1,2)] w_link(4) undot_append by blast
qed (auto simp: special_def elim!: undot_ConsE intro: walks.intros)

section \<open>Where a walk ends\<close>

definition is_dir :: "filesys \<Rightarrow> loc \<Rightarrow> bool" where
  "is_dir fs p = (case node_at fs p of Some (NDir m) \<Rightarrow> True | _ \<Rightarrow> False)"

lemma is_dir_iff: "is_dir fs p \<longleftrightarrow> (\<exists>m. node_at fs p = Some (NDir m))"
  by (simp add: is_dir_def split: option.splits node.splits)

text \<open>All directories above a location exist as real directories (not links), the location itself
  included for \<open>dirs\<close>.\<close>

definition placed :: "filesys \<Rightarrow> loc \<Rightarrow> bool" where
  "placed fs q \<longleftrightarrow> (\<forall>i < length q. is_dir fs (take i q))"

definition dirs :: "filesys \<Rightarrow> loc \<Rightarrow> bool" where
  "dirs fs q \<longleftrightarrow> placed fs q \<and> is_dir fs q"

lemma dirs_root [simp]: "dirs fs []"
  by (simp add: dirs_def placed_def is_dir_iff node_at_def)

lemma placed_snoc: "placed fs (cur @ [c]) \<longleftrightarrow> dirs fs cur"
  by (auto simp: placed_def dirs_def less_Suc_eq)

lemma dirs_placed: "dirs fs q \<Longrightarrow> placed fs q"
  by (simp add: dirs_def)

lemma dirs_snoc: "dirs fs cur \<Longrightarrow> node_at fs (cur @ [c]) = Some (NDir m) \<Longrightarrow> dirs fs (cur @ [c])"
  by (auto simp: dirs_def [of fs "cur @ [c]"] placed_snoc is_dir_iff)

lemma placed_prefix: "placed fs (xs @ ys) \<Longrightarrow> ys \<noteq> [] \<Longrightarrow> dirs fs xs"
  unfolding placed_def dirs_def by (auto dest: spec [of _ "length xs"]) (metis le_less length_append nat_less_le take_append
      trans_less_add1 append_Nil2 diff_is_0_eq' take0)

lemma dirs_butlast: "dirs fs cur \<Longrightarrow> dirs fs (butlast cur)"
  by (cases cur rule: rev_cases) (auto simp: placed_snoc dest: dirs_placed)

lemma link_base_dirs: "dirs fs cur \<Longrightarrow> dirs fs (link_base t cur)"
  by (simp add: link_base_def)

lemma walks_placed: "walks fs mk n cur cs q \<Longrightarrow> dirs fs cur \<Longrightarrow> placed fs q"
  by (induction rule: walks.induct)
    (auto simp: placed_snoc dirs_placed dirs_butlast link_base_dirs intro: dirs_snoc)

text \<open>A walk never ends at a link.\<close>

lemma dirs_no_link: "dirs fs q \<Longrightarrow> node_at fs q \<noteq> Some (NLink t)"
  by (auto simp: dirs_def is_dir_iff)

lemma walks_no_link: "walks fs mk n cur cs q \<Longrightarrow> dirs fs cur \<Longrightarrow> node_at fs q \<noteq> Some (NLink t)"
  by (induction rule: walks.induct) (simp_all add: dirs_butlast link_base_dirs dirs_no_link dirs_snoc)

lemma walks_split:
  assumes "walks fs mk n cur (xs @ ys) q" "ys \<noteq> []" "dirs fs cur"
  shows "\<exists>mid j k. n = j + k \<and> walks fs False j cur xs mid \<and> dirs fs mid \<and> walks fs mk k mid ys q"
  using assms
proof (induction n cur "xs @ ys" q arbitrary: xs rule: walks.induct)
  case (w_dot n cur cs q)
  show ?case
  proof (cases xs)
    case Nil
    with w_dot show ?thesis by (metis add_0 append_Nil walks.w_dot walks.w_end)
  next
    case (Cons c xs')
    with w_dot have "cs = xs' @ ys" "c = ''.''" by auto
    with w_dot(2) [of xs'] w_dot(4,5) Cons show ?thesis by (metis walks.w_dot)
  qed
next
  case (w_up n cur cs q)
  show ?case
  proof (cases xs)
    case Nil
    with w_up show ?thesis by (metis add_0 append_Nil walks.w_up walks.w_end)
  next
    case (Cons c xs')
    with w_up have "cs = xs' @ ys" "c = ''..''" by auto
    with w_up(2) [of xs'] w_up(4,5) Cons dirs_butlast show ?thesis by (metis walks.w_up)
  qed
next
  case (w_dir c cur m n cs q)
  show ?case
  proof (cases xs)
    case Nil
    with w_dir show ?thesis by (metis add_0 append_Nil walks.w_dir walks.w_end)
  next
    case (Cons c' xs')
    with w_dir have "cs = xs' @ ys" "c' = c" by auto
    with w_dir(4) [of xs'] w_dir(1,2,6,7) Cons dirs_snoc show ?thesis by (metis walks.w_dir)
  qed
next
  case (w_link c cur t n cs q)
  show ?case
  proof (cases xs)
    case Nil
    with w_link show ?thesis by (metis add_0 append_Nil walks.w_link walks.w_end)
  next
    case (Cons c' xs')
    with w_link have cs: "link_comps t @ cs = (link_comps t @ xs') @ ys" "c' = c" by auto
    from w_link(4) [OF cs(1) w_link(6) link_base_dirs [OF w_link(7)]] obtain mid j k where
      "n = j + k" "walks fs False j (link_base t cur) (link_comps t @ xs') mid" "dirs fs mid" "walks fs mk k mid ys q"
      by blast
    with walks.w_link [OF w_link(1,2)] Cons cs(2) show ?thesis by (metis add_Suc)
  qed
qed (metis append_is_Nil_conv append_Nil append_eq_Cons_conv add_0 walks.intros)+

text \<open>Walks compose, and their links add up.\<close>

lemma walks_join:
  assumes "walks fs False j cur xs mid" "dirs fs mid" "walks fs mk k mid ys q" "ys \<noteq> []"
  shows "walks fs mk (j + k) cur (xs @ ys) q"
  using assms
proof (induction rule: walks.induct)
  case (w_end n cur)
  then show ?case using walks_mono by simp
next
  case (w_file c cur d m n)
  then show ?case by (simp add: dirs_def is_dir_iff)
qed (auto intro: walks.intros)

text \<open>A real directory is reached without following a link.\<close>

lemma walks_dirs:
  assumes "dirs fs (cur @ cs)" "\<forall>c \<in> set cs. \<not> special c"
  shows "walks fs mk n cur cs (cur @ cs)"
  using assms
proof (induction cs arbitrary: cur)
  case (Cons c cs)
  have "dirs fs (cur @ [c])"
    using Cons.prems(1) dirs_placed [of fs "cur @ c # cs"] placed_prefix [of fs "cur @ [c]" cs] by (cases "cs = []") auto
  then obtain m where "node_at fs (cur @ [c]) = Some (NDir m)" by (auto simp: dirs_def is_dir_iff)
  with Cons.prems Cons.IH [of "cur @ [c]"] show ?case by (auto intro!: walks.w_dir)
qed (simp add: walks.w_end)

text \<open>A walk that may create its target fails without that permission only because the target is missing.\<close>

lemma walk_create:
  "walks fs True n cur cs q \<Longrightarrow> n \<le> m \<Longrightarrow> walk fs False m cur cs = Inr q \<or> walk fs False m cur cs = Inl ENOENT"
proof (induction arbitrary: m rule: walks.induct)
  case (w_link c cur t n cs q)
  then obtain k where k: "m = Suc k" "n \<le> k" by (cases m) auto
  then show ?case using w_link(1,2) w_link(4) [OF k(2)] by (simp add: walk.simps(2) special_def link_base_def)
qed (simp_all add: walk.simps special_def)

section \<open>Names\<close>

text \<open>A location consists of proper names.\<close>

definition names :: "loc \<Rightarrow> bool" where
  "names q \<longleftrightarrow> (\<forall>c \<in> set q. plain c \<and> c \<noteq> ''..'')"

lemma names_special: "names q \<Longrightarrow> \<forall>c \<in> set q. \<not> special c"
  by (auto simp: names_def plain_def special_def)

lemma names_append [simp]: "names (p @ q) \<longleftrightarrow> names p \<and> names q"
  by (auto simp: names_def)

lemma names_simps [simp]: "names []" "names (c # q) \<longleftrightarrow> plain c \<and> c \<noteq> ''..'' \<and> names q"
  by (auto simp: names_def)

lemma names_butlast: "names q \<Longrightarrow> names (butlast q)"
  by (auto simp: names_def dest: in_set_butlastD)

lemma names_clean_comps: "IsAbs p \<Longrightarrow> names (clean_comps p)"
  using clean_comps_plain clean_comps_rooted by (auto simp: names_def)

definition slashless :: "gostring list \<Rightarrow> bool" where
  "slashless cs \<longleftrightarrow> (\<forall>c \<in> set cs. c \<noteq> [] \<and> slash \<notin> set c)"

lemma slashless_simps [simp]:
  "slashless []" "slashless (c # cs) \<longleftrightarrow> c \<noteq> [] \<and> slash \<notin> set c \<and> slashless cs"
  "slashless (as @ bs) \<longleftrightarrow> slashless as \<and> slashless bs"
  by (auto simp: slashless_def)

lemma slashless_link_comps [simp]: "slashless (link_comps t)"
  using comps_plain by (auto simp: link_comps_def slashless_def)

lemma names_slashless: "names q \<Longrightarrow> slashless q"
  by (auto simp: names_def slashless_def plain_def)

lemma walks_names: "walks fs mk n cur cs q \<Longrightarrow> names cur \<Longrightarrow> slashless cs \<Longrightarrow> names q"
  by (induction rule: walks.induct)
    (auto simp: names_butlast link_base_def special_def plain_def)

end
