(* ===== verification/Sandbox.thy ===== *)
theory Sandbox
  imports File_System
begin

text \<open>
  The file-system sandbox (\<open>fileops.go\<close>): a path given by the caller must lie under one of the configured
  roots, both as written and after its symbolic links are resolved.  The theorems relate what
  \<open>validatePath\<close> accepts to where the kernel ends up when the accepted path is opened.
\<close>

section \<open>Definitions\<close>

datatype path_error =
    PathEmpty
  | PathEscapes
  | PathUnresolved gostring fs_error
  | PathLinkEscapes gostring
  | PathParentEscapes gostring

definition underRoots :: "gostring \<Rightarrow> gostring list \<Rightarrow> bool" where
  "underRoots path roots \<longleftrightarrow>
     list_ex (\<lambda>r. let root = Clean r;
                      pre = (if HasSuffix root [slash] then root else root @ [slash])
                  in path = root \<or> HasPrefix path pre) roots"

definition maxSymlinkHops :: nat where [go_defs]: "maxSymlinkHops = 40"

text \<open>Paths are absolute and cleaned here, given by their components: the directory of a path is all
  but its last component, and a relative link target is joined to it and cleaned.\<close>

function resolvePath :: "filesys \<Rightarrow> loc \<Rightarrow> nat \<Rightarrow> fs_error + loc" where
  "resolvePath fs p hops =
     (case EvalSymlinks fs p of
        Inr real \<Rightarrow> Inr real
      | Inl e \<Rightarrow>
          if e \<noteq> ENOENT then Inl e
          else
            (case Lstat fs p of
               Inr (NLink t) \<Rightarrow>
                 if maxSymlinkHops \<le> hops then Inl ELOOP
                 else resolvePath fs
                        (clean_comps (if IsAbs t then t else path_of True (butlast p) @ [slash] @ t)) (Suc hops)
             | _ \<Rightarrow>
                 if p = [] then Inr p
                 else (case resolvePath fs (butlast p) hops of Inl e \<Rightarrow> Inl e | Inr rp \<Rightarrow> Inr (rp @ [last p]))))"
  by pat_completeness auto
termination
  by (relation "measures [\<lambda>(fs, p, hops). maxSymlinkHops - hops, \<lambda>(fs, p, hops). length p]") auto

declare resolvePath.simps [simp del]

definition resolveRoots :: "filesys \<Rightarrow> gostring list \<Rightarrow> gostring list" where
  "resolveRoots fs roots =
     map (\<lambda>r. case resolvePath fs (clean_comps r) 0 of Inr real \<Rightarrow> path_of True real | Inl e \<Rightarrow> Clean r) roots"

definition validatePath :: "filesys \<Rightarrow> gostring \<Rightarrow> gostring list \<Rightarrow> path_error + gostring" where
  "validatePath fs path roots =
     (if path = [] then Inl PathEmpty
      else
        (let abs = Clean (Abs (workdir fs) path) in
         if roots = [] then Inr abs
         else if \<not> underRoots abs roots then Inl PathEscapes
         else
           (case resolvePath fs (clean_comps abs) 0 of
              Inl e \<Rightarrow> Inl (PathUnresolved abs e)
            | Inr rc \<Rightarrow>
                (let real = path_of True rc in
                 if real \<noteq> abs \<and> \<not> underRoots real (resolveRoots fs roots) then Inl (PathLinkEscapes abs)
                 else Inr abs))))"

definition validateLinkPath :: "filesys \<Rightarrow> gostring \<Rightarrow> gostring list \<Rightarrow> path_error + gostring" where
  "validateLinkPath fs path roots =
     (if path = [] then Inl PathEmpty
      else
        (let abs = Clean (Abs (workdir fs) path) in
         if roots = [] then Inr abs
         else if \<not> underRoots abs roots then Inl PathEscapes
         else if list_ex (\<lambda>r. abs = Clean r) roots then Inr abs
         else
           (case resolvePath fs (butlast (clean_comps abs)) 0 of
              Inl e \<Rightarrow> Inl (PathUnresolved abs e)
            | Inr parent \<Rightarrow>
                if \<not> underRoots (path_of True parent) (resolveRoots fs roots) then Inl (PathParentEscapes abs)
                else Inr abs)))"

section \<open>Roots as component prefixes\<close>

lemma split_on_sep: "split_on c (x @ c # y) = split_on c x @ split_on c y"
proof (induction x)
  case (Cons a x)
  obtain u us where "split_on c x = u # us" using split_on_not_Nil [of c x] by (cases "split_on c x") auto
  then show ?case using Cons by simp
qed simp

lemma comps_sep: "comps (x @ slash # y) = comps x @ comps y"
  by (simp add: comps_def split_on_sep)

lemma path_of_True: "path_of True cs = slash # join [slash] cs"
  by (simp add: path_of_def)

lemma join_snoc: "cs \<noteq> [] \<Longrightarrow> ds \<noteq> [] \<Longrightarrow> join [slash] (cs @ ds) = join [slash] cs @ slash # join [slash] ds"
  by (induction cs) (auto simp: join_Cons)

lemma comps_names [simp]: "names cs \<Longrightarrow> comps (path_of True cs) = cs"
  by (rule comps_path_of) (auto simp: names_def)

lemma Clean_names [simp]: "names cs \<Longrightarrow> Clean (path_of True cs) = path_of True cs"
  using clean_comps_path_of [of cs] IsAbs_path_of [of cs True] by (auto simp: Clean_def names_def)

lemma path_suffix: "names cs \<Longrightarrow> HasSuffix (path_of True cs) [slash] \<longleftrightarrow> cs = []"
proof (cases cs rule: rev_cases)
  case (snoc xs x)
  assume "names cs"
  then have "x \<noteq> []" "slash \<notin> set x" using snoc by (auto simp: plain_def)
  then have x: "x \<noteq> []" "last x \<noteq> slash" using last_in_set [of x] by metis+
  obtain pre where pre: "path_of True cs = pre @ x"
    using snoc join_snoc [of xs "[x]"] by (cases "xs = []") (auto simp: path_of_True)
  have "\<not> HasSuffix (path_of True cs) [slash]"
  proof
    assume "HasSuffix (path_of True cs) [slash]"
    then obtain z where "path_of True cs = z @ [slash]" by (auto simp: HasSuffix_def dest: HasPrefix_iff [THEN iffD1]) (metis append_take_drop_id)
    then have "last (path_of True cs) = slash" by simp
    then show False using x unfolding pre by simp
  qed
  then show ?thesis using snoc by simp
qed (simp add: path_of_True HasSuffix_def)

lemma under_root:
  assumes "names rc" "names pc"
  shows "(let root = path_of True rc; pre = (if HasSuffix root [slash] then root else root @ [slash])
      in path_of True pc = root \<or> HasPrefix (path_of True pc) pre) \<longleftrightarrow> prefix rc pc"
proof (cases "rc = []")
  case True
  then show ?thesis using path_suffix [of "[]"] by (auto simp: path_of_True HasPrefix_iff)
next
  case False
  then have ns: "\<not> HasSuffix (path_of True rc) [slash]" using path_suffix [OF assms(1)] by simp
  have "prefix rc pc" if "path_of True pc = path_of True rc \<or> HasPrefix (path_of True pc) (path_of True rc @ [slash])"
  proof -
    from that consider "path_of True pc = path_of True rc" | r where "path_of True pc = path_of True rc @ slash # r"
      by (auto simp: HasPrefix_iff)
    then show ?thesis
    proof cases
      case 1
      then show ?thesis using comps_names assms by (metis prefix_order.refl)
    next
      case 2
      then have "comps (path_of True pc) = comps (path_of True rc) @ comps r" by (simp only: comps_sep)
      then show ?thesis using assms by (simp add: prefixI)
    qed
  qed
  moreover have "HasPrefix (path_of True (rc @ zs)) (path_of True rc @ [slash])" if "zs \<noteq> []" for zs
    using join_snoc [OF False that] by (auto simp: path_of_True HasPrefix_iff)
  ultimately show ?thesis using ns by (auto simp: Let_def prefix_def) (metis append_Nil2)
qed

lemma underRoots_one: "underRoots p rs \<longleftrightarrow> (\<exists>r \<in> set rs. underRoots p [r])"
  by (simp add: underRoots_def list_ex_iff)

lemma Clean_abs: "IsAbs r \<Longrightarrow> Clean r = path_of True (clean_comps r)"
  by (simp add: Clean_def)

text \<open>The string test of the source is the prefix test on components.\<close>

lemma underRoots_prefix:
  assumes "list_all IsAbs roots" "names pc"
  shows "underRoots (path_of True pc) roots \<longleftrightarrow> (\<exists>r \<in> set roots. prefix (clean_comps r) pc)"
proof -
  have "(let root = Clean r; pre = (if HasSuffix root [slash] then root else root @ [slash])
      in path_of True pc = root \<or> HasPrefix (path_of True pc) pre) \<longleftrightarrow> prefix (clean_comps r) pc"
    if "r \<in> set roots" for r
    using under_root [OF names_clean_comps assms(2), of r] that assms(1) Clean_abs [of r] by (simp add: list_all_iff)
  then show ?thesis by (simp add: underRoots_def list_ex_iff)
qed

section \<open>Resolution agrees with the kernel\<close>

text \<open>No link of the file system has a target with a parent component.\<close>

definition dotdot_free :: "filesys \<Rightarrow> bool" where
  "dotdot_free fs \<longleftrightarrow> list_all (\<lambda>(p, x). case x of NLink t \<Rightarrow> ''..'' \<notin> set (comps t) | _ \<Rightarrow> True) (nodes fs)"

lemma dotdot_free_at: "dotdot_free fs \<Longrightarrow> node_at fs p = Some (NLink t) \<Longrightarrow> ''..'' \<notin> set (comps t)"
  by (auto simp: dotdot_free_def node_at_def list_all_iff split: if_splits dest!: map_of_SomeD)

lemma clean_stack_nodots: "''..'' \<notin> set cs \<Longrightarrow> clean_stack r st cs = rev (filter (\<lambda>c. c \<noteq> ''.'') cs) @ st"
  by (induction cs arbitrary: st) (auto simp: clean_step_def)

lemma clean_comps_nodots: "''..'' \<notin> set (comps p) \<Longrightarrow> clean_comps p = filter (\<lambda>c. c \<noteq> ''.'') (comps p)"
  by (simp add: clean_comps_def clean_stack_nodots)

lemma resolvePath_existing: "walks fs False n [] p q \<Longrightarrow> n \<le> 255 \<Longrightarrow> resolvePath fs p hops = Inr q"
  using walks_mono [of fs False n "[]" p q 255]
  by (subst resolvePath.simps) (simp add: EvalSymlinks_def walks_walk)

lemma link_target_comps:
  assumes "''..'' \<notin> set (comps t)" "names d" "\<not> IsAbs t"
  shows "clean_comps (path_of True d @ [slash] @ t) = d @ filter (\<lambda>c. c \<noteq> ''.'') (comps t)"
proof -
  have c: "comps (path_of True d @ [slash] @ t) = d @ comps t" using assms(2) comps_sep by simp
  moreover have "''..'' \<notin> set d" "filter (\<lambda>c. c \<noteq> ''.'') d = d"
    using assms(2) by (auto simp: names_def plain_def filter_id_conv)
  ultimately show ?thesis using assms(1) clean_comps_nodots [of "path_of True d @ [slash] @ t"] by simp
qed

lemma undot_link_comps: "undot (link_comps t) (filter (\<lambda>c. c \<noteq> ''.'') (comps t))"
  using undot_filter [of "link_comps t"] by (simp add: link_comps_def split: if_splits)

lemma resolvePath_create:
  assumes "walks fs True n [] p q" "n + hops \<le> maxSymlinkHops" "names p" "dotdot_free fs"
  shows "resolvePath fs p hops = Inr q"
  using assms(1-3)
proof (induction n arbitrary: p hops rule: less_induct)
  case (less n)
  have n: "n \<le> 255" "n \<le> MAXSYMLINKS" using less.prems(2) by (simp_all add: maxSymlinkHops_def MAXSYMLINKS_def)
  show ?case
  proof (cases "walk fs False 255 [] p")
    case (Inr q')
    then have "q' = q" using walk_create [OF less.prems(1) n(1)] by simp
    then show ?thesis using Inr walk_iff resolvePath_existing by blast
  next
    case (Inl e)
    then have e: "EvalSymlinks fs p = Inl ENOENT"
      using walk_create [OF less.prems(1) n(1)] by (simp add: EvalSymlinks_def)
    have "p \<noteq> []" using Inl by auto
    then obtain d c where p: "p = d @ [c]" by (cases p rule: rev_cases) auto
    then obtain mid j k where m: "n = j + k" "walks fs False j [] d mid" "dirs fs mid" "walks fs True k mid [c] q"
      using walks_split [of fs True n "[]" d "[c]" q] less.prems(1) by auto
    have c: "\<not> special c" "names d" using less.prems(3) p by (auto simp: special_def plain_def)
    have ls: "lresolve fs p = Inr (mid @ [c])"
      using walks_mono [OF m(2), of MAXSYMLINKS] n(2) m(1) p by (simp add: lresolve_def resolve_def walks_walk)
    have ex: "resolvePath fs p hops = Inr q" if "walks fs False k mid [c] q"
      using resolvePath_existing [OF walks_join [OF m(2,3) that]] n(1) m(1) p by simp
    from m(4) show ?thesis
    proof (cases rule: walks.cases)
      case w_new
      then have "Lstat fs p = Inl ENOENT" using ls by (simp add: Lstat_def)
      moreover have "resolvePath fs d hops = Inr mid" using resolvePath_existing [OF m(2)] n(1) m(1) by simp
      ultimately show ?thesis using e p w_new by (subst resolvePath.simps) simp
    next
      case (w_dir m')
      then have "walks fs False k mid [c] q" using m(3) c(1) by (auto intro: walks.intros elim!: walks_NilE)
      then show ?thesis by (rule ex)
    next
      case (w_file d' m')
      then have "walks fs False k mid [c] q" by (auto intro: walks.intros)
      then show ?thesis by (rule ex)
    next
      case (w_link t k')
      have dd: "''..'' \<notin> set (comps t)" using dotdot_free_at [OF assms(4)] w_link by blast
      define T where "T = filter (\<lambda>c. c \<noteq> ''.'') (comps t)"
      have u: "walks fs True k' (link_base t mid) T q"
        using walks_undot [OF w_link(4)] undot_link_comps unfolding T_def by simp
      let ?p' = "clean_comps (if IsAbs t then t else path_of True (butlast p) @ [slash] @ t)"
      have "walks fs True (n - 1) [] ?p' q \<and> names ?p'"
      proof (cases "IsAbs t")
        case True
        then have "walks fs True k' [] T q" using u by (simp add: link_base_def)
        then have "walks fs True (n - 1) [] T q" by (rule walks_mono) (simp add: m(1) w_link(1))
        then show ?thesis using True names_clean_comps [OF True] clean_comps_nodots [OF dd] by (simp add: T_def)
      next
        case False
        have t: "names T" using dd comps_plain [of _ t] by (auto simp: T_def names_def plain_def)
        have "walks fs True (n - 1) [] (d @ T) q"
          using walks_join [OF m(2,3), of True k' T q] walks_mono [OF walks_mk [OF m(2)], of "n - 1"] u False m(1) w_link(1)
          by (cases "T = []") (auto simp: link_base_def)
        then show ?thesis using False t c(2) p link_target_comps [OF dd c(2) False] by (simp add: T_def)
      qed
      then have "resolvePath fs ?p' (Suc hops) = Inr q" using less.IH [of "n - 1" ?p' "Suc hops"] less.prems(2) m(1) w_link by auto
      moreover have "Lstat fs p = Inr (NLink t)" using ls w_link by (simp add: Lstat_def)
      ultimately show ?thesis using e less.prems(2) m(1) w_link
        by (subst resolvePath.simps) simp
    qed (use c in \<open>auto simp: special_def\<close>)
  qed
qed

section \<open>What the sandbox guarantees\<close>

lemma IsAbs_Abs: "IsAbs wd \<Longrightarrow> IsAbs (Clean (Abs wd p))"
proof -
  assume w: "IsAbs wd"
  then obtain w' where w': "wd = slash # w'" by (cases wd) (auto simp: IsAbs_def)
  have "IsAbs (Abs wd p)"
    unfolding Abs_def by (simp add: w' Join_def) (simp add: IsAbs_def)
  then show ?thesis by simp
qed

lemma names_eq: "names p \<Longrightarrow> names q \<Longrightarrow> path_of True p = path_of True q \<Longrightarrow> p = q"
  using comps_names by metis

lemma clean_comps_names [simp]: "names q \<Longrightarrow> clean_comps (path_of True q) = q"
  by (rule clean_comps_path_of) (auto simp: names_def)

lemma resolved_under:
  assumes "r \<in> set roots" "resolvePath fs (clean_comps r) 0 = Inr R" "names R" "names q" "prefix R q"
  shows "underRoots (path_of True q) (resolveRoots fs roots)"
proof -
  have "path_of True R \<in> set (resolveRoots fs roots)" using assms(1,2) by (force simp: resolveRoots_def)
  moreover have "underRoots (path_of True q) [path_of True R]"
    using underRoots_prefix [of "[path_of True R]" q] assms(3-5) IsAbs_path_of [of R True] by (simp add: names_def)
  ultimately show ?thesis using underRoots_one by blast
qed

lemma IsAbs_resolveRoots: "list_all IsAbs roots \<Longrightarrow> list_all IsAbs (resolveRoots fs roots)"
  by (auto simp: resolveRoots_def list_all_iff path_of_True IsAbs_def [of "slash # _"] split: sum.splits)

text \<open>What \<open>validatePath\<close> and \<open>resolvePath\<close> agree on for a path the kernel can open.\<close>

lemma resolvePath_resolve:
  assumes "resolve fs mk p = Inr q" "names p" "mk \<longrightarrow> dotdot_free fs"
  shows "resolvePath fs p 0 = Inr q"
proof (cases mk)
  case True
  then show ?thesis using assms by (intro resolvePath_create) (auto simp: resolve_def walk_iff go_defs)
next
  case False
  then show ?thesis using assms by (intro resolvePath_existing [of _ MAXSYMLINKS]) (auto simp: resolve_def walk_iff go_defs)
qed

lemma resolve_location:
  "resolve fs mk p = Inr q \<Longrightarrow> names p \<Longrightarrow> placed fs q \<and> names q"
  using walks_placed [of fs mk MAXSYMLINKS "[]" p q] walks_names [of fs mk MAXSYMLINKS "[]" p q]
  by (simp add: resolve_def walk_iff names_slashless)

text \<open>A path that the roots contain as written and that resolves to itself lies under a resolved root.\<close>

lemma unlinked_under:
  assumes "resolve fs mk p = Inr p" "names p" "mk \<longrightarrow> dotdot_free fs" "list_all IsAbs roots"
    and "underRoots (path_of True p) roots"
  shows "underRoots (path_of True p) (resolveRoots fs roots)"
proof -
  obtain r where r: "r \<in> set roots" "prefix (clean_comps r) p"
    using underRoots_prefix [OF assms(4,2)] assms(5) by blast
  define R where "R = clean_comps r"
  have R: "names R" using r(1) assms(4) names_clean_comps by (auto simp: list_all_iff R_def)
  from r(2) obtain ys where ys: "p = R @ ys" by (auto simp: prefix_def R_def)
  have "resolvePath fs R 0 = Inr R"
  proof (cases "ys = []")
    case True
    then show ?thesis using resolvePath_resolve [OF assms(1-3)] ys by simp
  next
    case False
    then have "dirs fs R" using resolve_location [OF assms(1,2)] ys placed_prefix by blast
    then have "walks fs False 0 [] R R" using walks_dirs [of fs "[]" R] names_special [OF R] by simp
    then show ?thesis using resolvePath_existing by simp
  qed
  with r(1) R assms(2) ys show ?thesis by (intro resolved_under) (auto simp: R_def)
qed

lemma validatePath_confined:
  assumes "validatePath fs path roots = Inr ap" "roots \<noteq> []" "list_all IsAbs roots" "IsAbs (workdir fs)"
    and "resolve fs create (clean_comps ap) = Inr q" "create \<longrightarrow> dotdot_free fs"
  shows "underRoots (path_of True q) (resolveRoots fs roots)"
proof -
  let ?a = "Clean (Abs (workdir fs) path)"
  have a: "ap = ?a" "underRoots ap roots"
    using assms(1,2) by (auto simp: validatePath_def Let_def split: if_splits sum.splits)
  have n: "names (clean_comps ap)" "path_of True (clean_comps ap) = ap"
    using IsAbs_Abs [OF assms(4)] Clean_abs [of ?a] Clean_Clean [of "Abs (workdir fs) path"] a(1) names_clean_comps by auto
  have rp: "resolvePath fs (clean_comps ap) 0 = Inr q" using resolvePath_resolve [OF assms(5) n(1) assms(6)] .
  show ?thesis
  proof (cases "path_of True q = ap")
    case True
    then have "q = clean_comps ap" using names_eq n resolve_location [OF assms(5) n(1)] by metis
    then show ?thesis using unlinked_under [of fs create "clean_comps ap" roots] assms n a(2) by simp
  next
    case False
    then show ?thesis using assms(1,2) rp a by (auto simp: validatePath_def Let_def split: if_splits)
  qed
qed

text \<open>C2: the sandbox holds for every path that \<open>validatePath\<close> accepts: wherever the kernel ends up when
  the accepted path is opened, after following every link, is below one of the roots (with their own
  links resolved).  For a file that already exists this needs no assumption on the links; for a file
  that is to be created it holds when no link target goes up through a parent component.\<close>

theorem sandbox_confines:
  assumes "validatePath fs path roots = Inr ap" "roots \<noteq> []" "list_all IsAbs roots" "IsAbs (workdir fs)"
    and "resolve fs create (clean_comps ap) = Inr q" "create \<longrightarrow> dotdot_free fs"
  shows "underRoots (path_of True q) (resolveRoots fs roots)"
  using assms by (rule validatePath_confined)

text \<open>A file system in which a link below the root leads to a directory of the root that holds a dangling
  relative link.\<close>

definition escape_fs :: filesys where
  "escape_fs =
     \<lparr>nodes = [([''r''], NDir 493), ([''r'', ''a''], NDir 493), ([''r'', ''a'', ''b''], NDir 493),
               ([''r'', ''s''], NDir 493), ([''out''], NDir 493),
               ([''r'', ''a'', ''b'', ''d''], NLink ''/r/s''),
               ([''r'', ''s'', ''l''], NLink ''../../out/new'')],
      workdir = ''/'', umask = 18\<rparr>"

text \<open>the assumption on parent components is needed: \<open>resolvePath\<close> joins the target of a dangling link
  to the directory of the path as written, not to the directory it resolves to.  In \<open>escape_fs\<close>, with the
  single root \<open>/r\<close>, the path \<open>/r/a/b/d/l\<close> is accepted, and opening it for writing creates \<open>/out/new\<close>,
  outside the root.\<close>

theorem dangling_link_escapes:
  "validatePath escape_fs ''/r/a/b/d/l'' [''/r''] = Inr ''/r/a/b/d/l'' \<and>
   resolve escape_fs True (clean_comps ''/r/a/b/d/l'') = Inr [''out'', ''new''] \<and>
   \<not> underRoots (path_of True [''out'', ''new'']) (resolveRoots escape_fs [''/r''])"
  by code_simp

theorem sandbox_confines_witness:
  "validatePath escape_fs ''/r/a/b/d'' [''/r''] = Inr ''/r/a/b/d'' \<and>
   underRoots (path_of True [''r'', ''s'']) (resolveRoots escape_fs [''/r''])"
proof -
  have v: "validatePath escape_fs ''/r/a/b/d'' [''/r''] = Inr ''/r/a/b/d''" by code_simp
  have "resolve escape_fs False (clean_comps ''/r/a/b/d'') = Inr [''r'', ''s'']"
    "list_all IsAbs [''/r'']" "IsAbs (workdir escape_fs)" by code_simp+
  from sandbox_confines [OF v _ this(2,3,1)] v show ?thesis by simp
qed

lemma validateLinkPath_confined:
  assumes "validateLinkPath fs path roots = Inr ap" "roots \<noteq> []" "list_all IsAbs roots" "IsAbs (workdir fs)"
    and "\<not> list_ex (\<lambda>r. ap = Clean r) roots" "lresolve fs (clean_comps ap) = Inr q"
  shows "underRoots (path_of True q) (resolveRoots fs roots)"
proof -
  let ?a = "Clean (Abs (workdir fs) path)"
  have a: "ap = ?a" "underRoots ap roots"
    using assms(1,2) by (auto simp: validateLinkPath_def Let_def split: if_splits sum.splits)
  have n: "names (clean_comps ap)" "path_of True (clean_comps ap) = ap"
    using IsAbs_Abs [OF assms(4)] Clean_abs [of ?a] Clean_Clean [of "Abs (workdir fs) path"] a(1) names_clean_comps by auto
  have ne: "clean_comps ap \<noteq> []"
  proof
    assume e: "clean_comps ap = []"
    then have "\<exists>r \<in> set roots. clean_comps r = []" using underRoots_prefix [OF assms(3), of "[]"] n(2) a(2) by auto
    then show False using assms(3,5) n(2) e Clean_abs by (auto simp: list_ex_iff list_all_iff)
  qed
  then obtain d where d: "resolve fs False (butlast (clean_comps ap)) = Inr d" "q = d @ [last (clean_comps ap)]"
    using assms(6) by (auto simp: lresolve_def split: sum.splits)
  have nb: "names (butlast (clean_comps ap))" using n(1) names_butlast by blast
  have "underRoots (path_of True d) (resolveRoots fs roots)"
    using assms(1,2,5) a resolvePath_resolve [OF d(1) nb]
    by (auto simp: validateLinkPath_def Let_def split: if_splits sum.splits)
  moreover have "names d" "names q"
    using resolve_location [OF d(1) nb] d(2) n(1) ne last_in_set [of "clean_comps ap"] by (auto simp: names_def)
  moreover have "list_all IsAbs (resolveRoots fs roots)" using IsAbs_resolveRoots [OF assms(3)] .
  ultimately show ?thesis using underRoots_prefix d(2) by (meson prefix_order.trans prefixI)
qed

text \<open>an operation on a path itself (delete, rename, stat) that \<open>validateLinkPath\<close> accepts acts on a name
  whose directory really lies below a resolved root, whatever the links on the way; the path may
  also be one of the roots themselves.\<close>

theorem link_sandbox_confines:
  assumes "validateLinkPath fs path roots = Inr ap" "roots \<noteq> []" "list_all IsAbs roots" "IsAbs (workdir fs)"
    and "\<not> list_ex (\<lambda>r. ap = Clean r) roots" "lresolve fs (clean_comps ap) = Inr q"
  shows "underRoots (path_of True q) (resolveRoots fs roots)"
  using assms by (rule validateLinkPath_confined)

theorem link_sandbox_confines_witness:
  "validateLinkPath escape_fs ''/r/a/b/d/l'' [''/r''] = Inr ''/r/a/b/d/l'' \<and>
   underRoots (path_of True [''r'', ''s'', ''l'']) (resolveRoots escape_fs [''/r''])"
proof -
  have v: "validateLinkPath escape_fs ''/r/a/b/d/l'' [''/r''] = Inr ''/r/a/b/d/l''" by code_simp
  have "lresolve escape_fs (clean_comps ''/r/a/b/d/l'') = Inr [''r'', ''s'', ''l'']"
    "list_all IsAbs [''/r'']" "IsAbs (workdir escape_fs)" "\<not> list_ex (\<lambda>r. ''/r/a/b/d/l'' = Clean r) [''/r'']" by code_simp+
  from link_sandbox_confines [OF v _ this(2,3,4,1)] v show ?thesis by simp
qed

end
