(* ===== verification/Read_File.thy ===== *)
theory Read_File
  imports Line_Reader Sandbox
begin

text \<open>
  \<open>remote_read_file\<close> (\<open>readops.go\<close>, lines 33 to 83 and 409 to 665): one window of a file, decoded to
  UTF-8 with the cursors of the next one.  A hint keeps the numbers of its message.  The file is read
  in one state of the file system; failing reads are not modelled.
\<close>

section \<open>Definitions\<close>

definition defaultReadMaxBytes :: nat where [go_defs]: "defaultReadMaxBytes = 65536"
definition maxReadMaxBytes :: nat where [go_defs]: "maxReadMaxBytes = 16777216"

datatype readMode = readBytes | readLines | readTail | readPicked

record ReadFileRequest =
  rfPath :: gostring
  rfEncoding :: gostring
  rfStartLine :: int
  rfEndLine :: int
  rfMaxBytes :: int
  rfTailLines :: int
  rfOffsetBytes :: int
  rfTruncateMode :: gostring
  rfLineNumbers :: bool
  rfLines :: "int list"

datatype read_hint =
    NoHint
  | HoldsOnlyLast nat nat int
  | StartPastEnd nat nat
  | LineCut nat nat nat nat
  | ContinueAtLine nat nat
  | FirstBytesNotShown nat
  | FileContinues nat nat nat
  | PickedCapped nat nat
  | PickedMissing nat nat

record ReadFileResult =
  rrPath :: gostring
  rrEncoding :: gostring
  rrIsBinary :: bool
  rrTotalSize :: nat
  rrTotalLines :: nat
  rrOffset :: nat
  rrStartLine :: nat
  rrReturnedLines :: nat
  rrTruncated :: bool
  rrNextOffset :: nat
  rrNextStartLine :: nat
  rrMissingLines :: "int list"
  rrHint :: read_hint
  rrNotNumbered :: bool
  rrContent :: gostring
  rrMode :: readMode
  rrEnd :: nat

datatype read_error =
    RPath path_error
  | RSys fs_error
  | RIsDirectory
  | REndBeforeStart int nat
  | REnc enc_error
  | RTooManyPicked nat
  | RPickedBelowOne int

definition empty_result :: "gostring \<Rightarrow> nat \<Rightarrow> ReadFileResult" where
  "empty_result p sz = \<lparr>rrPath = p, rrEncoding = [], rrIsBinary = False, rrTotalSize = sz,
     rrTotalLines = 0, rrOffset = 0, rrStartLine = 0, rrReturnedLines = 0, rrTruncated = False,
     rrNextOffset = 0, rrNextStartLine = 0, rrMissingLines = [], rrHint = NoHint, rrNotNumbered = False,
     rrContent = [], rrMode = readBytes, rrEnd = 0\<rparr>"

definition binary_notice :: gostring where
  "binary_notice = ''<binary file, use remote_download_base64>''"

definition clampMaxBytes :: "int \<Rightarrow> nat" where
  "clampMaxBytes n = min (if n \<le> 0 then defaultReadMaxBytes else nat n) maxReadMaxBytes"

definition read_mode :: "ReadFileRequest \<Rightarrow> readMode" where
  "read_mode req =
     (if 0 < rfTailLines req then readTail
      else if 0 < rfStartLine req \<or> 0 < rfEndLine req then readLines
      else readBytes)"

text \<open>The window the request asks for, before its edges are trimmed.\<close>

definition select_window :: "bytes \<Rightarrow> ReadFileRequest \<Rightarrow> nat \<Rightarrow> read_error + readWindow" where
  "select_window f req maxBytes =
     (let sz = length f; start = nat (max (rfStartLine req) 1) in
      case read_mode req of
        readTail \<Rightarrow> Inr (readTailWindow f sz (nat (rfTailLines req)) maxBytes)
      | readLines \<Rightarrow>
          if 0 < rfEndLine req \<and> rfEndLine req < int start then Inl (REndBeforeStart (rfEndLine req) start)
          else Inr (readLineWindow f start (rfEndLine req) maxBytes)
      | _ \<Rightarrow>
          (let tail = (EqualFold (rfTruncateMode req) ''tail'' \<and>
                       rfOffsetBytes req < int sz - int maxBytes);
               off = (if tail then int sz - int maxBytes else rfOffsetBytes req);
               w = readByteWindow f sz off maxBytes
           in Inr (if tail then alignToLine f w else w)))"

text \<open>Characters cut by the edges are dropped, unless nothing would be left.\<close>

definition trim_edges :: "bytes \<Rightarrow> gostring \<Rightarrow> readWindow \<Rightarrow> readWindow" where
  "trim_edges f enc w =
     (let headCut = (\<not> lineStartsAt f (w_offset w));
          gb = (headCut \<and> isGBFamily enc);
          skip = (if gb then gbHeadSkip f (w_offset w) (w_data w) (isGB18030 enc) else 0);
          (s, e) = windowEdges (drop skip (w_data w)) enc (headCut \<and> \<not> gb) (w_more w)
      in if s < e then w\<lparr>w_data := take (e - s) (drop (skip + s) (w_data w)), w_offset := w_offset w + (skip + s)\<rparr>
         else w)"

definition trimFinalNewline :: "gostring \<Rightarrow> gostring" where
  "trimFinalNewline s = TrimSuffix s [nl]"

definition first_line :: "bytes \<Rightarrow> readMode \<Rightarrow> nat \<Rightarrow> ReadFileResult \<Rightarrow> readWindow \<Rightarrow> nat" where
  "first_line f mode start res w =
     (if w_data w = [] then 0
      else if mode = readLines then start
      else if mode = readTail \<and> 0 < rrTotalLines res then rrTotalLines res + 1 - rrReturnedLines res
      else lineNumberAt f (w_offset w))"

definition readCursors ::
  "ReadFileResult \<Rightarrow> readWindow \<Rightarrow> readMode \<Rightarrow> ReadFileRequest \<Rightarrow> nat \<Rightarrow> nat \<Rightarrow> ReadFileResult" where
  "readCursors res w mode req start maxBytes =
     (let fin = w_offset w + length (w_data w);
          res = (if w_more w then res\<lparr>rrNextOffset := fin\<rparr> else res)
      in case mode of
           readTail \<Rightarrow>
             (let res = res\<lparr>rrTruncated := w_capped w\<rparr> in
              if w_capped w then res\<lparr>rrHint := HoldsOnlyLast maxBytes (rrReturnedLines res) (rfTailLines req)\<rparr>
              else res)
         | readLines \<Rightarrow>
             (let res = res\<lparr>rrTruncated := w_capped w, rrNextStartLine := w_nextLine w\<rparr> in
              if w_data w = [] \<and> \<not> w_more w then res\<lparr>rrHint := StartPastEnd start (rrTotalLines res)\<rparr>
              else if w_cutLine w then
                res\<lparr>rrHint := LineCut start maxBytes (rrNextOffset res) (rrNextStartLine res)\<rparr>
              else if w_capped w then res\<lparr>rrHint := ContinueAtLine maxBytes (rrNextStartLine res)\<rparr>
              else res)
         | _ \<Rightarrow>
             (if EqualFold (rfTruncateMode req) ''tail'' \<and> 0 < w_offset w then
                res\<lparr>rrTruncated := True, rrHint := FirstBytesNotShown (w_offset w)\<rparr>
              else if \<not> w_more w then res\<lparr>rrTruncated := False\<rparr>
              else
                (let res = res\<lparr>rrTruncated := True\<rparr>;
                     res = (if 0 < rrStartLine res \<and> w_data w \<noteq> [] \<and> last (w_data w) = nl
                            then res\<lparr>rrNextStartLine := rrStartLine res + rrReturnedLines res\<rparr> else res)
                 in res\<lparr>rrHint := FileContinues (rrTotalSize res - fin) (rrTotalSize res) fin\<rparr>)))"

definition readPickedLines ::
  "codec \<Rightarrow> bytes \<Rightarrow> ReadFileResult \<Rightarrow> ReadFileRequest \<Rightarrow> nat \<Rightarrow> read_error + ReadFileResult" where
  "readPickedLines cd f res req maxBytes =
     (let res = res\<lparr>rrMode := readPicked\<rparr>; want = remdups_adj (sort (rfLines req)) in
      if maxPickedLines < length want then Inl (RTooManyPicked (length want))
      else if hd want < 1 then Inl (RPickedBelowOne (hd want))
      else
        (let head = take readerSize f in
         if looksBinary head then Inr (res\<lparr>rrIsBinary := True, rrContent := binary_notice\<rparr>)
         else
           (let enc = (if rfEncoding req = [] then detectEncoding head else rfEncoding req);
                p = picked_loop cd enc (rfEncoding req) maxBytes f 0
                      \<lparr>pk_out = [], pk_start = 0, pk_offset = 0, pk_returned = 0, pk_seen = 0,
                       pk_left = want, pk_next = None\<rparr>;
                res = res\<lparr>rrEncoding := enc, rrTotalLines := lineCount f (rrTotalSize res),
                          rrStartLine := pk_start p, rrOffset := pk_offset p,
                          rrReturnedLines := pk_returned p, rrContent := pk_out p\<rparr>
            in case pk_next p of
                 Some n \<Rightarrow> Inr (res\<lparr>rrTruncated := True, rrNextStartLine := n, rrHint := PickedCapped maxBytes n\<rparr>)
               | None \<Rightarrow>
                   if pk_left p \<noteq> [] then
                     Inr (res\<lparr>rrMissingLines := pk_left p, rrHint := PickedMissing (length (pk_left p)) (pk_seen p)\<rparr>)
                   else Inr res)))"

definition read_window ::
  "codec \<Rightarrow> bytes \<Rightarrow> gostring \<Rightarrow> ReadFileRequest \<Rightarrow> nat \<Rightarrow> readWindow \<Rightarrow> read_error + ReadFileResult" where
  "read_window cd f ap req maxBytes w =
     (let mode = read_mode req; start = nat (max (rfStartLine req) 1);
          res = (empty_result ap (length f))\<lparr>rrOffset := w_offset w, rrMode := mode\<rparr>
      in if looksBinary (w_data w) then Inr (res\<lparr>rrIsBinary := True, rrContent := binary_notice\<rparr>)
         else
           (let enc = (if rfEncoding req = [] then detectEncoding (w_data w) else rfEncoding req);
                w = trim_edges f enc w
            in case decodeText cd (w_data w) enc (rfEncoding req) of
                 Inl e \<Rightarrow> Inl (REnc e)
               | Inr content \<Rightarrow>
                   (let res = res\<lparr>rrEncoding := enc, rrOffset := w_offset w,
                                  rrEnd := w_offset w + length (w_data w),
                                  rrTotalLines := lineCount f (length f),
                                  rrReturnedLines := windowLines (w_data w)\<rparr>;
                        res = res\<lparr>rrStartLine := first_line f mode start res w\<rparr>;
                        content = (if mode \<noteq> readBytes then trimFinalNewline content else content);
                        content = (if rfLineNumbers req \<and> 0 < rrStartLine res
                                   then numberLines content (rrStartLine res) else content);
                        res = readCursors (res\<lparr>rrContent := content\<rparr>) w mode req start maxBytes
                    in Inr (if rfLineNumbers req \<and> rrStartLine res = 0 \<and> w_data w \<noteq> []
                            then res\<lparr>rrNotNumbered := True\<rparr> else res))))"

definition ReadFileContent ::
  "codec \<Rightarrow> ReadFileRequest \<Rightarrow> gostring list \<Rightarrow> filesys \<Rightarrow> read_error + ReadFileResult" where
  "ReadFileContent cd req roots fs =
     (case validatePath fs (rfPath req) roots of
        Inl e \<Rightarrow> Inl (RPath e)
      | Inr ap \<Rightarrow>
          (case Stat fs (clean_comps ap) of
             Inl e \<Rightarrow> Inl (RSys e)
           | Inr (NFile f m) \<Rightarrow>
               (let maxBytes = clampMaxBytes (rfMaxBytes req) in
                if rfLines req \<noteq> [] then readPickedLines cd f (empty_result ap (length f)) req maxBytes
                else
                  (case select_window f req maxBytes of
                     Inl e \<Rightarrow> Inl e
                   | Inr w \<Rightarrow> read_window cd f ap req maxBytes w))
           | Inr _ \<Rightarrow> Inl RIsDirectory))"


section \<open>Byte windows\<close>

lemma byte_window:
  assumes "off \<le> length f" "w = readByteWindow f (length f) (int off) maxBytes"
  shows "w_offset w = off" "w_data w = ReadAt f (length (w_data w)) off"
    "w_more w \<longleftrightarrow> off + length (w_data w) < length f"
    "w_more w \<Longrightarrow> length (w_data w) = maxBytes \<or>
      (maxBytes div 2 < length (w_data w) \<and> last (w_data w) = nl)"
    "length (w_data w) \<le> maxBytes"
proof -
  let ?b = "ReadAt f (min maxBytes (length f - off)) off"
  have b: "length ?b = min maxBytes (length f - off)" by (simp add: ReadAt_def min.commute)
  have "nat (min (max (int off) 0) (int (length f))) = off" using assms(1) by simp
  then have w: "w = (if off + length ?b < length f then
      empty_window\<lparr>w_data := (case LastIndexByte ?b nl of
          Some i \<Rightarrow> if length ?b div 2 \<le> i then take (Suc i) ?b else ?b | None \<Rightarrow> ?b),
        w_offset := off, w_more := True, w_capped := True\<rparr>
    else empty_window\<lparr>w_data := ?b, w_offset := off\<rparr>)"
    using assms(2) by (simp add: readByteWindow_def Let_def)
  have "(w_data w = ?b \<or> (\<exists>i. w_data w = take (Suc i) ?b \<and> w_more w \<and> i < length ?b \<and> length ?b div 2 \<le> i \<and> ?b ! i = nl)) \<and>
    (w_more w \<longleftrightarrow> off + length ?b < length f)"
    using LastIndexByte_Some [of ?b nl] unfolding w by (auto simp: empty_window_def split: option.splits)
  then show "w_data w = ReadAt f (length (w_data w)) off" "w_more w \<longleftrightarrow> off + length (w_data w) < length f"
    "length (w_data w) \<le> maxBytes"
    "w_more w \<Longrightarrow> length (w_data w) = maxBytes \<or> (maxBytes div 2 < length (w_data w) \<and> last (w_data w) = nl)"
    using b assms(1) by (auto simp: ReadAt_def take_Suc_nth)
  show "w_offset w = off" unfolding w by (simp add: empty_window_def)
qed

lemma readCursors_bytes [simp]:
  "rrContent (readCursors res w readBytes req start maxBytes) = rrContent res"
  "rrOffset (readCursors res w readBytes req start maxBytes) = rrOffset res"
  "rrEnd (readCursors res w readBytes req start maxBytes) = rrEnd res"
  "rrNextOffset (readCursors res w readBytes req start maxBytes) =
     (if w_more w then w_offset w + length (w_data w) else rrNextOffset res)"
  by (simp_all add: readCursors_def Let_def)

text \<open>The result of one byte window, once the encoding and the trimmed window are known.\<close>

definition bytes_result :: "bytes \<Rightarrow> ReadFileRequest \<Rightarrow> nat \<Rightarrow> gostring \<Rightarrow> gostring \<Rightarrow> gostring \<Rightarrow> readWindow \<Rightarrow> ReadFileResult" where
  "bytes_result f req maxBytes ap enc content w =
     (let start = nat (max (rfStartLine req) 1);
          res = (empty_result ap (length f))\<lparr>rrMode := readBytes, rrEncoding := enc, rrOffset := w_offset w,
                  rrEnd := w_offset w + length (w_data w), rrTotalLines := lineCount f (length f),
                  rrReturnedLines := windowLines (w_data w)\<rparr>
      in readCursors (res\<lparr>rrStartLine := first_line f readBytes start res w, rrContent := content\<rparr>) w
           readBytes req start maxBytes)"

lemma bytes_result_sel [simp]:
  "rrContent (bytes_result f req maxBytes ap enc content w) = content"
  "rrOffset (bytes_result f req maxBytes ap enc content w) = w_offset w"
  "rrEnd (bytes_result f req maxBytes ap enc content w) = w_offset w + length (w_data w)"
  "rrNextOffset (bytes_result f req maxBytes ap enc content w) =
     (if w_more w then w_offset w + length (w_data w) else 0)"
  by (simp_all add: bytes_result_def Let_def empty_result_def)

lemma read_window_bytes:
  assumes "read_mode req = readBytes" "\<not> rfLineNumbers req"
    "\<not> looksBinary (w_data w)" "enc = (if rfEncoding req = [] then detectEncoding (w_data w) else rfEncoding req)"
    "w' = trim_edges f enc w" "decodeText cd (w_data w') enc (rfEncoding req) = Inr content"
  shows "read_window cd f ap req maxBytes w = Inr (bytes_result f req maxBytes ap enc content w')"
  using assms(3,6) unfolding read_window_def bytes_result_def Let_def assms(4) [symmetric] assms(5) [symmetric]
  by (simp only: assms(1,2) if_False simp_thms sum.case) (simp add: empty_result_def)

lemma trim_edges_more [simp]: "w_more (trim_edges f enc w) = w_more w"
  by (simp add: trim_edges_def Let_def split: prod.splits)


lemma select_window_bytes:
  assumes "read_mode req = readBytes" "\<not> EqualFold (rfTruncateMode req) ''tail''"
  shows "select_window f req maxBytes = Inr (readByteWindow f (length f) (rfOffsetBytes req) maxBytes)"
  using assms by (simp add: select_window_def Let_def)

text \<open>A page: what one call returns, by its window.\<close>

definition page_of :: "codec \<Rightarrow> bytes \<Rightarrow> gostring \<Rightarrow> ReadFileRequest \<Rightarrow> int \<Rightarrow> read_error + ReadFileResult" where
  "page_of cd f ap req off =
     (let maxBytes = clampMaxBytes (rfMaxBytes req)
      in read_window cd f ap (req\<lparr>rfOffsetBytes := off\<rparr>) maxBytes (readByteWindow f (length f) off maxBytes))"

definition byte_paging :: "ReadFileRequest \<Rightarrow> bool" where
  "byte_paging req \<longleftrightarrow> rfTailLines req \<le> 0 \<and> rfStartLine req \<le> 0 \<and> rfEndLine req \<le> 0 \<and> rfLines req = [] \<and>
     \<not> EqualFold (rfTruncateMode req) ''tail'' \<and> \<not> rfLineNumbers req"

lemma byte_paging_mode: "byte_paging req \<Longrightarrow> read_mode (req\<lparr>rfOffsetBytes := off\<rparr>) = readBytes"
  by (simp add: byte_paging_def read_mode_def)

lemma ReadFileContent_page:
  assumes "byte_paging req" "validatePath fs (rfPath req) roots = Inr ap"
    "Stat fs (clean_comps ap) = Inr (NFile f m)"
  shows "ReadFileContent cd (req\<lparr>rfOffsetBytes := off\<rparr>) roots fs = page_of cd f ap req off"
  using assms(1) select_window_bytes [OF byte_paging_mode [OF assms(1)]]
  by (simp add: ReadFileContent_def assms(2,3) page_of_def byte_paging_def Let_def)

section \<open>Paging through UTF-8 text\<close>

lemma Valid_append: "Valid a \<Longrightarrow> Valid (a @ b) \<longleftrightarrow> Valid b"
proof -
  assume "Valid a"
  then obtain rs where rs: "a = concat rs" "\<forall>r \<in> set rs. good_rune r" using Valid_runes_good by blast
  have "\<forall>r \<in> set rs. good_rune r \<Longrightarrow> Valid (concat rs @ b) \<longleftrightarrow> Valid b"
    by (induction rs) (auto simp: Valid_good_append)
  with rs show ?thesis by simp
qed

lemma good_rune_prefix_high:
  assumes "good_rune (q @ q')" "q \<noteq> []" "q' \<noteq> []"
  shows "nl \<notin> set q" "length q \<le> 3"
proof -
  from assms(1) show "nl \<notin> set q"
  proof (cases rule: good_rune_cases)
    case (ascii c)
    with assms(2,3) show ?thesis by (cases q) auto
  next
    case (multi c cs n lo hi)
    have nl: "\<not> cont nl" "lead_of nl = Ascii" by code_simp+
    from multi(2,4) have "cont (cs ! 0)" by (rule in_range_cont)
    with multi(5) have "list_all cont cs" by (cases cs) auto
    then have "nl \<notin> set cs" using nl(1) by (auto simp: list_all_iff)
    moreover have "c \<noteq> nl" using multi(2) nl(2) by auto
    ultimately have "nl \<notin> set (q @ q')" using multi(1) by simp
    then show ?thesis by simp
  qed
  have "length (q @ q') \<le> 4" using good_rune_shape [OF assms(1)] by metis
  moreover have "0 < length q'" using assms(3) by simp
  ultimately show "length q \<le> 3" unfolding length_append by linarith
qed

text \<open>A window of valid text that starts at a character: its edges, and the characters it keeps.\<close>

lemma utf8_window:
  assumes "Valid t" "d = take k t" "d \<noteq> []" "4 \<le> length d \<or> last d = nl \<or> d = t"
  obtains e where "utf8Edges d = (0, e)" "0 < e" "e \<le> length d" "Valid (take e d)" "detectEncoding d = ''utf-8''"
    "d = t \<Longrightarrow> e = length d"
proof -
  obtain rs where rs: "t = concat rs" "\<forall>r \<in> set rs. good_rune r" using Valid_runes_good [OF assms(1)] by blast
  obtain ms q where w: "d = concat ms @ q" "\<forall>r \<in> set ms. good_rune r"
    "q = [] \<or> (\<exists>q'. q' \<noteq> [] \<and> good_rune (q @ q'))"
    using take_concat_good [OF rs(2), of k] rs(1) assms(2) by blast
  have edges: "utf8Edges d = (0, length (concat ms))"
    using utf8Edges_window [of "[]" ms q] w by simp
  have v: "Valid (concat ms)" using w(2) by (rule Valid_concat_good)
  have whole: "d = t \<Longrightarrow> q = []"
  proof (rule ccontr)
    assume "d = t" "q \<noteq> []"
    with w obtain q' where q: "q' \<noteq> []" "good_rune (q @ q')" by blast
    from assms(1) \<open>d = t\<close> w(1) have "Valid (concat ms @ q)" by simp
    then have "Valid q" by (simp add: Valid_append [OF v])
    then obtain qs where qs: "q = concat qs" "\<forall>r \<in> set qs. good_rune r" using Valid_runes_good by blast
    with \<open>q \<noteq> []\<close> obtain r qs' where "qs = r # qs'" by (cases qs) auto
    with qs have r: "good_rune r" "q = r @ concat qs'" by auto
    have "DecodeRune (q @ q') = DecodeRune r" using good_rune_DecodeRune_append [OF r(1)] r(2) by simp
    then have "length (q @ q') = length r" using r(1) q(2) by (simp add: good_rune_def rune_len_def)
    with r(2) q(1) show False by simp
  qed
  have "concat ms \<noteq> []"
  proof
    assume e: "concat ms = []"
    with w(1) assms(3) have "q \<noteq> []" by simp
    with w(3) obtain q' where "q' \<noteq> []" "good_rune (q @ q')" by blast
    from good_rune_prefix_high [OF this(2) \<open>q \<noteq> []\<close> this(1)] have "nl \<notin> set q" "length q \<le> 3" by auto
    moreover have "last q \<in> set q" using \<open>q \<noteq> []\<close> by simp
    ultimately have "last q \<noteq> nl" "\<not> 4 \<le> length q" by auto
    moreover have "d = q" using e w(1) by simp
    ultimately show False using assms(4) whole \<open>q \<noteq> []\<close> by blast
  qed
  moreover have "detectEncoding d = ''utf-8''" using edges v w(1) by (simp add: detectEncoding_def)
  ultimately show thesis using edges v w(1) whole by (intro that [of "length (concat ms)"]) auto
qed

definition text_file :: "bytes \<Rightarrow> bool" where
  "text_file f \<longleftrightarrow> (\<forall>c \<in> set f. bval c \<noteq> 0)"

lemma text_file_window: "text_file f \<Longrightarrow> \<not> looksBinary (ReadAt f n off)"
  by (auto simp: text_file_def looksBinary_def ReadAt_def list_ex_iff dest: in_set_takeD in_set_dropD)

lemma trim_edges_keep:
  assumes "w_data w = d" "windowEdges d enc False (w_more w) = (0, e)" "0 < e" "e \<le> length d"
    "windowEdges d enc True (w_more w) = (0, e)"
    "\<not> lineStartsAt f (w_offset w) \<Longrightarrow> isGBFamily enc \<Longrightarrow> gbHeadSkip f (w_offset w) d (isGB18030 enc) = 0"
  shows "trim_edges f enc w = w\<lparr>w_data := take e d\<rparr>"
  using assms by (cases "lineStartsAt f (w_offset w)"; cases "isGBFamily enc") (auto simp: trim_edges_def Let_def)

lemma utf8_name: "is_utf8_name ''utf-8''" "\<not> isGBFamily ''utf-8''"
proof -
  have "TrimSpace ''utf-8'' = ''utf-8''"
    by (rule TrimSpace_ascii_word) (simp_all add: isASCII_def bval_def is_space_def)
  then show "is_utf8_name ''utf-8''" "\<not> isGBFamily ''utf-8''"
    by (simp_all add: is_utf8_name_def EqualFold_def isGBFamily_def lower_char_def bval_def)
qed

lemma utf8_page:
  assumes "byte_paging req" "rfEncoding req = []" "4 \<le> clampMaxBytes (rfMaxBytes req)" "text_file f"
    "off < length f" "Valid (drop off f)"
  obtains r k where "page_of cd f ap req (int off) = Inr r" "0 < k" "off + k \<le> length f"
    "rrContent r = take k (drop off f)" "rrOffset r = off" "rrEnd r = off + k"
    "rrNextOffset r = (if off + k < length f then off + k else 0)" "Valid (drop (off + k) f)"
proof -
  let ?M = "clampMaxBytes (rfMaxBytes req)"
  define w where "w = readByteWindow f (length f) (int off) ?M"
  let ?d = "w_data w"
  note bw = byte_window [OF less_imp_le [OF assms(5)] w_def]
  have d: "?d = take (length ?d) (drop off f)" using bw(2) by (simp add: ReadAt_def)
  have all: "?d = drop off f" if "\<not> w_more w"
    using that bw(3) d by simp
  have ne: "?d \<noteq> []" using bw(3,4) assms(3,5) all by (cases "w_more w") auto
  obtain e where e: "utf8Edges ?d = (0, e)" "0 < e" "e \<le> length ?d" "Valid (take e ?d)"
    "detectEncoding ?d = ''utf-8''" "?d = drop off f \<Longrightarrow> e = length ?d"
    using utf8_window [OF assms(6) d ne] bw(4) assms(3) all by metis
  have edges: "windowEdges ?d ''utf-8'' h (w_more w) = (0, e)" for h
    using e all by (auto simp: windowEdges_def utf8_name)
  have trim: "trim_edges f ''utf-8'' w = w\<lparr>w_data := take e ?d\<rparr>"
    using edges e(2,3) utf8_name(2) by (intro trim_edges_keep) auto
  have content: "decodeText cd (take e ?d) ''utf-8'' [] = Inr (take e ?d)"
    using e(4) by (simp add: decodeText_def utf8_name)
  have bin: "\<not> looksBinary ?d" using text_file_window [OF assms(4)] bw(2) by metis
  let ?req = "req\<lparr>rfOffsetBytes := int off\<rparr>"
  let ?r = "bytes_result f ?req ?M ap ''utf-8'' (take e ?d) (w\<lparr>w_data := take e ?d\<rparr>)"
  have p: "page_of cd f ap req (int off) = Inr ?r"
    unfolding page_of_def Let_def w_def [symmetric]
    by (rule read_window_bytes [OF byte_paging_mode [OF assms(1)]])
      (use assms(1,2) bin e(5) trim content in \<open>auto simp: byte_paging_def\<close>)
  have te: "take e ?d = take e (drop off f)" using d e(3) by (metis min.absorb1 take_take)
  have le: "off + e \<le> length f" using d e(3) assms(5) by (metis add_le_cancel_left le_add_diff_inverse le_trans length_drop less_imp_le length_take min.cobounded2 min.cobounded1)
  have "off + e < length f \<longleftrightarrow> w_more w" 
    using bw(3) e(3,6) all le by (cases "w_more w") auto
  moreover have "Valid (drop (off + e) f)"
    using assms(6) Valid_append [OF e(4)] te by (metis add.commute append_take_drop_id drop_drop)
  ultimately show thesis
    using e(2,3) le te bw(1) by (intro that [OF p, of e]) auto
qed


section \<open>Paging by byte offset\<close>

text \<open>A client that follows \<open>next_offset\<close>, for at most \<open>n\<close> calls.\<close>

fun read_pages ::
  "nat \<Rightarrow> codec \<Rightarrow> ReadFileRequest \<Rightarrow> gostring list \<Rightarrow> filesys \<Rightarrow> int \<Rightarrow> ReadFileResult list" where
  "read_pages 0 cd req roots fs off = []"
| "read_pages (Suc n) cd req roots fs off =
     (case ReadFileContent cd (req\<lparr>rfOffsetBytes := off\<rparr>) roots fs of
        Inl e \<Rightarrow> []
      | Inr r \<Rightarrow>
          r # (if 0 < rrNextOffset r then read_pages n cd req roots fs (int (rrNextOffset r)) else []))"

lemma page_of_empty:
  assumes "byte_paging req" "decodeText cd [] (if rfEncoding req = [] then detectEncoding [] else rfEncoding req) (rfEncoding req) = Inr c"
  obtains r where "page_of cd [] ap req 0 = Inr r" "rrContent r = c" "rrOffset r = 0" "rrEnd r = 0" "rrNextOffset r = 0"
proof -
  let ?w = "readByteWindow [] 0 0 (clampMaxBytes (rfMaxBytes req))"
  have w: "w_data ?w = []" "w_offset ?w = 0" "\<not> w_more ?w"
    by (simp_all add: readByteWindow_def ReadAt_def empty_window_def Let_def)
  have trim: "trim_edges [] enc ?w = ?w" for enc
    using w by (auto simp: trim_edges_def Let_def lineStartsAt_def windowEdges_def utf8Edges_def split: prod.splits if_splits)
  have "\<not> looksBinary []" by (simp add: looksBinary_def)
  with assms have "page_of cd [] ap req 0 = Inr (bytes_result [] (req\<lparr>rfOffsetBytes := 0\<rparr>) (clampMaxBytes (rfMaxBytes req)) ap
      (if rfEncoding req = [] then detectEncoding [] else rfEncoding req) c ?w)"
    unfolding page_of_def Let_def list.size of_nat_0
    by (intro read_window_bytes [OF byte_paging_mode [OF assms(1)]]) (auto simp: byte_paging_def w trim)
  with w show thesis by (intro that) auto
qed

lemma utf8_pages:
  assumes "byte_paging req" "rfEncoding req = []" "4 \<le> clampMaxBytes (rfMaxBytes req)" "text_file f"
    "validatePath fs (rfPath req) roots = Inr ap" "Stat fs (clean_comps ap) = Inr (NFile f m)"
  shows "off < length f \<Longrightarrow> Valid (drop off f) \<Longrightarrow> length f < off + n \<Longrightarrow>
    concat (map rrContent (read_pages n cd req roots fs (int off))) = drop off f"
proof (induction n arbitrary: off)
  case (Suc n)
  obtain r k where p: "page_of cd f ap req (int off) = Inr r" "0 < k" "off + k \<le> length f"
    "rrContent r = take k (drop off f)" "rrOffset r = off" "rrEnd r = off + k"
    "rrNextOffset r = (if off + k < length f then off + k else 0)" "Valid (drop (off + k) f)"
    using utf8_page [OF assms(1-4) Suc.prems(1,2)] by metis
  have call: "ReadFileContent cd (req\<lparr>rfOffsetBytes := int off\<rparr>) roots fs = Inr r"
    using ReadFileContent_page [OF assms(1,5,6)] p(1) by simp
  have split: "take k (drop off f) @ drop (off + k) f = drop off f"
    by (metis add.commute append_take_drop_id drop_drop)
  show ?case
  proof (cases "off + k < length f")
    case True
    with Suc.IH [OF this p(8)] Suc.prems p(2) have "concat (map rrContent (read_pages n cd req roots fs (int (off + k)))) = drop (off + k) f"
      by simp
    with True p(2,4,7) call split show ?thesis by simp
  next
    case False
    with p(4,7) call split show ?thesis by simp
  qed
qed simp


section \<open>Paging through GBK and GB18030 text\<close>

text \<open>The hypothesis on the decoder: it decodes every text, character by character.\<close>

definition splits_at_chars :: "(bytes \<Rightarrow> enc_error + gostring) \<Rightarrow> bool \<Rightarrow> bool" where
  "splits_at_chars dec g \<longleftrightarrow>
     (\<forall>a b. gb_bound (a @ b) g (length a) \<longrightarrow> (\<exists>x y. dec a = Inr x \<and> dec b = Inr y \<and> dec (a @ b) = Inr (x @ y)))"

lemma gb_bound_shift:
  "gb_bound f g q \<Longrightarrow> gb_bound f g off \<Longrightarrow> off \<le> q \<Longrightarrow> off \<le> length f \<Longrightarrow> gb_bound (drop off f) g (q - off)"
proof (induction rule: gb_bound.induct)
  case start
  then show ?case by (simp add: gb_bound.start)
next
  case (step i)
  show ?case
  proof (cases "off \<le> i")
    case True
    with step have "gb_bound (drop off f) g (i - off)" by simp
    from gb_bound.step [OF this] step.hyps(2) True show ?thesis by simp
  next
    case False
    with gb_bound_next [OF step.hyps(1) step.prems(1)] step.hyps(2) have "i + gbCharLen (drop i f) g \<le> off"
      by (simp add: gb_next_def)
    with step.prems(2) have "i + gbCharLen (drop i f) g - off = 0" by simp
    then show ?thesis by (simp only: gb_bound.start)
  qed
qed

lemma gb_tail_edge:
  assumes "d = ReadAt f (length d) off" "gb_bound f g off" "4 \<le> length d"
  shows "let b = (case gbLastBoundary d g of Some p \<Rightarrow> p | None \<Rightarrow> 0); e = b + gbWholeChars (drop b d) g
    in 0 < e \<and> e \<le> length d \<and> gb_bound f g (off + e)"
proof -
  define b where "b = (case gbLastBoundary d g of Some p \<Rightarrow> p | None \<Rightarrow> 0)"
  have b: "b \<le> length d \<and> gb_bound f g (off + b)"
  proof (cases "gbLastBoundary d g")
    case (Some p)
    then show ?thesis using gbLastBoundary_bound [of f "length d" off g p] assms(1) by (simp add: b_def)
  qed (simp add: b_def assms(2))
  have rest: "drop b d = ReadAt f (length d - b) (off + b)"
    by (subst assms(1)) (simp add: ReadAt_def drop_take add.commute)
  have "gb_bound f g (off + b + 0)" using b by simp
  from gb_whole_bound [OF rest this] b assms(3) show ?thesis
    by (auto simp: Let_def gbWholeChars_def add.assoc simp flip: b_def)
qed

lemma gb_page:
  assumes "byte_paging req" "isGBFamily (rfEncoding req)" "8 \<le> clampMaxBytes (rfMaxBytes req)" "text_file f"
    "off < length f" "gb_bound f (isGB18030 (rfEncoding req)) off"
    "splits_at_chars (\<lambda>d. decodeToUTF8 cd d (rfEncoding req)) (isGB18030 (rfEncoding req))"
  obtains r k where "page_of cd f ap req (int off) = Inr r" "0 < k" "off + k \<le> length f"
    "decodeToUTF8 cd (take k (drop off f)) (rfEncoding req) = Inr (rrContent r)" "rrOffset r = off" "rrEnd r = off + k"
    "rrNextOffset r = (if off + k < length f then off + k else 0)" "gb_bound f (isGB18030 (rfEncoding req)) (off + k) \<or> off + k = length f"
proof -
  let ?M = "clampMaxBytes (rfMaxBytes req)" and ?enc = "rfEncoding req" and ?g = "isGB18030 (rfEncoding req)"
  define w where "w = readByteWindow f (length f) (int off) ?M"
  let ?d = "w_data w"
  note bw = byte_window [OF less_imp_le [OF assms(5)] w_def]
  have d: "?d = take (length ?d) (drop off f)" using bw(2) by (simp add: ReadAt_def)
  have all: "?d = drop off f" if "\<not> w_more w" using that bw(3) d by simp
  have long: "4 \<le> length ?d" if "w_more w" using that bw(4) assms(3) by auto
  define e where "e = (if w_more w then (case gbLastBoundary ?d ?g of Some p \<Rightarrow> p | None \<Rightarrow> 0) +
      gbWholeChars (drop (case gbLastBoundary ?d ?g of Some p \<Rightarrow> p | None \<Rightarrow> 0) ?d) ?g else length ?d)"
  have edges: "windowEdges ?d ?enc h (w_more w) = (0, e)" for h
    using assms(2) by (simp add: windowEdges_def e_def Let_def)
  have e: "0 < e \<and> e \<le> length ?d \<and> (w_more w \<longrightarrow> gb_bound f ?g (off + e)) \<and> (\<not> w_more w \<longrightarrow> e = length ?d)"
  proof (cases "w_more w")
    case True
    with long have "4 \<le> length ?d" by simp
    from gb_tail_edge [OF bw(2) assms(6) this, unfolded Let_def] True show ?thesis by (simp add: e_def)
  next
    case False
    with all assms(5) show ?thesis by (simp add: e_def)
  qed
  have skip: "gbHeadSkip f (w_offset w) ?d ?g = 0"
    unfolding bw(1) using assms(5,6) bw(2) long all by (intro gbHeadSkip_bound [where n = "length ?d"]) auto
  have trim: "trim_edges f ?enc w = w\<lparr>w_data := take e ?d\<rparr>"
    using edges e skip by (intro trim_edges_keep) auto
  obtain c where c: "decodeToUTF8 cd (take e ?d) ?enc = Inr c"
    using assms(7) gb_bound.start [of "take e ?d" ?g] by (metis append_Nil list.size(3) splits_at_chars_def)
  have "?enc \<noteq> []" using assms(2) by (auto simp: isGBFamily_def TrimSpace_def)
  then have content: "decodeText cd (take e ?d) ?enc ?enc = Inr c" using c by (simp add: decodeText_def)
  have bin: "\<not> looksBinary ?d" using text_file_window [OF assms(4)] bw(2) by metis
  let ?r = "bytes_result f (req\<lparr>rfOffsetBytes := int off\<rparr>) ?M ap ?enc c (w\<lparr>w_data := take e ?d\<rparr>)"
  have p: "page_of cd f ap req (int off) = Inr ?r"
    unfolding page_of_def Let_def w_def [symmetric]
    by (rule read_window_bytes [OF byte_paging_mode [OF assms(1)]])
      (use assms(1) bin trim content \<open>?enc \<noteq> []\<close> in \<open>auto simp: byte_paging_def\<close>)
  have te: "take e ?d = take e (drop off f)" using d e by (metis min.absorb1 take_take)
  have le: "off + length ?d \<le> length f" using d assms(5) by (metis add_le_cancel_left le_add_diff_inverse length_drop less_imp_le length_take min.cobounded1)
  have more: "off + e < length f \<longleftrightarrow> w_more w" using bw(3) e le by (cases "w_more w") auto
  show thesis
    by (rule that [OF p, of e]) (use e le te bw(1) c more in \<open>auto\<close>)
qed

text \<open>Following \<open>next_offset\<close> visits consecutive windows.\<close>

lemma gb_pages:
  assumes "byte_paging req" "isGBFamily (rfEncoding req)" "8 \<le> clampMaxBytes (rfMaxBytes req)" "text_file f"
    "splits_at_chars (\<lambda>d. decodeToUTF8 cd d (rfEncoding req)) (isGB18030 (rfEncoding req))"
    "validatePath fs (rfPath req) roots = Inr ap" "Stat fs (clean_comps ap) = Inr (NFile f m)"
  shows "off < length f \<Longrightarrow> gb_bound f (isGB18030 (rfEncoding req)) off \<Longrightarrow> length f < off + n \<Longrightarrow>
    decodeToUTF8 cd (drop off f) (rfEncoding req) =
      Inr (concat (map rrContent (read_pages n cd req roots fs (int off))))"
proof (induction n arbitrary: off)
  case (Suc n)
  let ?g = "isGB18030 (rfEncoding req)" and ?dec = "\<lambda>d. decodeToUTF8 cd d (rfEncoding req)"
  obtain r k where p: "page_of cd f ap req (int off) = Inr r" "0 < k" "off + k \<le> length f"
    "?dec (take k (drop off f)) = Inr (rrContent r)" "rrOffset r = off" "rrEnd r = off + k"
    "rrNextOffset r = (if off + k < length f then off + k else 0)" "gb_bound f ?g (off + k) \<or> off + k = length f"
    using gb_page [OF assms(1-4) Suc.prems(1,2) assms(5)] by metis
  have call: "ReadFileContent cd (req\<lparr>rfOffsetBytes := int off\<rparr>) roots fs = Inr r"
    using ReadFileContent_page [OF assms(1,6,7)] p(1) by simp
  have split: "take k (drop off f) @ drop (off + k) f = drop off f"
    by (metis add.commute append_take_drop_id drop_drop)
  show ?case
  proof (cases "off + k < length f")
    case True
    with p(8) have next_b: "gb_bound f ?g (off + k)" by simp
    have rest: "?dec (drop (off + k) f) = Inr (concat (map rrContent (read_pages n cd req roots fs (int (off + k)))))"
      using True next_b Suc.prems(3) p(2) by (intro Suc.IH) auto
    have "gb_bound (drop off f) ?g k"
      using gb_bound_shift [OF next_b Suc.prems(2)] Suc.prems(1) by simp
    then have "gb_bound (take k (drop off f) @ drop (off + k) f) ?g (length (take k (drop off f)))"
      using split p(3) by simp
    then obtain x y where "?dec (take k (drop off f)) = Inr x" "?dec (drop (off + k) f) = Inr y"
      "?dec (take k (drop off f) @ drop (off + k) f) = Inr (x @ y)"
      using assms(5) unfolding splits_at_chars_def by metis
    with rest p(4) split have "?dec (drop off f) =
        Inr (rrContent r @ concat (map rrContent (read_pages n cd req roots fs (int (off + k)))))"
      by simp
    with True p(2,7) call show ?thesis by simp
  next
    case False
    with p(3) have "take k (drop off f) = drop off f" by simp
    with False p(4,7) call show ?thesis by simp
  qed
qed simp

text \<open>C7: paging through a GBK or GB18030 file by \<open>next_offset\<close>, from page sizes of eight bytes on, decodes
  to exactly what decoding the whole file at once would give: although a GBK trail byte can look like
  a lead byte, the local search for a character boundary never splits, repeats or drops a character
  at a page edge.\<close>

theorem gb_paging_exact:
  assumes "byte_paging req" "isGBFamily (rfEncoding req)" "8 \<le> clampMaxBytes (rfMaxBytes req)"
    "validatePath fs (rfPath req) roots = Inr ap" "Stat fs (clean_comps ap) = Inr (NFile f m)" "text_file f"
    "splits_at_chars (\<lambda>d. decodeToUTF8 cd d (rfEncoding req)) (isGB18030 (rfEncoding req))"
  shows "decodeToUTF8 cd f (rfEncoding req) =
    Inr (concat (map rrContent (read_pages (Suc (length f)) cd req roots fs 0)))"
proof (cases "f = []")
  case True
  obtain c where c: "decodeToUTF8 cd [] (rfEncoding req) = Inr c"
    using assms(7) gb_bound.start [of "[]"] by (metis append_Nil list.size(3) splits_at_chars_def)
  have "rfEncoding req \<noteq> []" using assms(2) by (auto simp: isGBFamily_def TrimSpace_def)
  with c have "decodeText cd [] (if rfEncoding req = [] then detectEncoding [] else rfEncoding req) (rfEncoding req) = Inr c"
    by (simp add: decodeText_def)
  from page_of_empty [OF assms(1) this] obtain r where "page_of cd [] ap req 0 = Inr r" "rrContent r = c" "rrNextOffset r = 0"
    by metis
  with ReadFileContent_page [OF assms(1,4,5)] True c show ?thesis by simp
qed (use gb_pages [OF assms(1,2,3,6,7,4,5), of 0 "Suc (length f)"] in \<open>simp add: gb_bound.start\<close>)


section \<open>Picked lines of a file\<close>

lemma strictly_sorted_remdups_adj: "sorted xs \<Longrightarrow> sorted_wrt (<) (remdups_adj xs)" for xs :: "int list"
proof (induction xs rule: remdups_adj.induct)
  case (3 x y xs)
  then show ?case by (cases "x = y") (auto simp: order_less_le)
qed simp_all

text \<open>the line-picking read returns exactly the requested lines, each once and in ascending order,
  each with its own number and decoded on its own, whatever order and repetitions the request has;
  numbers past the end of the file are reported as missing, and nothing is dropped as long as the
  numbered lines fit in \<open>maxBytes\<close>.\<close>

theorem picked_lines_exact:
  assumes "rfLines req \<noteq> []" "\<forall>n \<in> set (rfLines req). 1 \<le> n" "length (rfLines req) \<le> maxPickedLines"
    "validatePath fs (rfPath req) roots = Inr ap" "Stat fs (clean_comps ap) = Inr (NFile f m)"
    "text_file f" "enc = (if rfEncoding req = [] then detectEncoding (take readerSize f) else rfEncoding req)"
    "want = remdups_adj (sort (rfLines req))"
    "texts = map (picked_text cd enc (rfEncoding req) (raw_lines f) 0) (filter (\<lambda>n. n \<le> int (length (raw_lines f))) want)"
    "length (join [nl] texts) \<le> clampMaxBytes (rfMaxBytes req)"
  shows "\<exists>r. ReadFileContent cd req roots fs = Inr r \<and> rrContent r = join [nl] texts \<and> \<not> rrTruncated r \<and>
    rrMissingLines r = filter (\<lambda>n. int (length (raw_lines f)) < n) want"
proof -
  let ?M = "clampMaxBytes (rfMaxBytes req)"
  let ?p = "\<lparr>pk_out = [], pk_start = 0, pk_offset = 0, pk_returned = 0, pk_seen = 0, pk_left = want, pk_next = None\<rparr>"
  let ?q = "picked_loop cd enc (rfEncoding req) ?M f 0 ?p"
  have set: "set want = set (rfLines req)" using assms(8) by simp
  have sorted: "sorted_wrt (<) want" unfolding assms(8) by (rule strictly_sorted_remdups_adj) simp
  have "picks cd enc (rfEncoding req) (raw_lines f) ?p = texts" by (simp add: picks_def assms(9))
  moreover from this have "pick_ok cd enc (rfEncoding req) ?M (raw_lines f) [] ?p"
    using sorted set assms(2,10) by (auto simp: pick_ok_def)
  from picked_loop_done [OF refl this, of 0] have "pick_done cd enc (rfEncoding req) (raw_lines f) [] ?p ?q" .
  ultimately have q: "pk_out ?q = join [nl] texts" "pk_next ?q = None"
    "pk_left ?q = filter (\<lambda>n. int (length (raw_lines f)) < n) want"
    by (simp_all add: pick_done_def)
  have "length want \<le> maxPickedLines" unfolding assms(8)
    using remdups_adj_length [of "sort (rfLines req)"] assms(3) by simp
  moreover have "hd want \<in> set want" "\<not> hd want < 1"
  proof -
    show "hd want \<in> set want" unfolding assms(8) using assms(1)
      by (intro hd_in_set) (metis remdups_adj_Nil_iff set_empty set_sort)
    then show "\<not> hd want < 1" using set assms(2) by auto
  qed
  moreover have "\<not> looksBinary (take readerSize f)"
    using text_file_window [OF assms(6), of readerSize 0] by (simp add: ReadAt_def)
  ultimately show ?thesis using assms(1) q
    by (simp add: ReadFileContent_def assms(4,5) readPickedLines_def Let_def assms(7,8) [symmetric] empty_result_def)
qed

section \<open>Applied\<close>

definition read_fs :: filesys where
  "read_fs = \<lparr>nodes = [([''f''], NFile [CHR ''a'', CHR 0xC3, CHR 0xA9, nl, CHR ''b''] 420)], workdir = ''/'', umask = 18\<rparr>"

definition read_request :: "gostring \<Rightarrow> int list \<Rightarrow> ReadFileRequest" where
  "read_request enc ls = \<lparr>rfPath = ''/f'', rfEncoding = enc, rfStartLine = 0, rfEndLine = 0, rfMaxBytes = 8,
     rfTailLines = 0, rfOffsetBytes = 0, rfTruncateMode = [], rfLineNumbers = False, rfLines = ls\<rparr>"

text \<open>A codec that maps every byte to itself reads any text and splits it anywhere.\<close>

definition byte_codec :: codec where
  "byte_codec = \<lparr>gbkDecode = Some, gbkEncode = Some, gb18030Decode = Some, gb18030Encode = Some\<rparr>"

lemma read_fs_file:
  "validatePath read_fs ''/f'' [] = Inr ''/f''"
  "Stat read_fs (clean_comps ''/f'') = Inr (NFile [CHR ''a'', CHR 0xC3, CHR 0xA9, nl, CHR ''b''] 420)"
  by code_simp+

lemma read_request_paging: "byte_paging (read_request enc [])"
  by (simp add: byte_paging_def read_request_def EqualFold_def lower_char_def bval_def)

lemma read_request_clamp: "clampMaxBytes (rfMaxBytes (read_request enc ls)) = 8"
  by (simp add: read_request_def clampMaxBytes_def maxReadMaxBytes_def)

lemma read_fs_text: "text_file [CHR ''a'', CHR 0xC3, CHR 0xA9, nl, CHR ''b'']"
  by (simp add: text_file_def bval_def)

definition read_bytes :: bytes where
  "read_bytes = [CHR ''a'', CHR 0xC3, CHR 0xA9, nl, CHR ''b'']"

lemma read_sel: "rfPath (read_request enc ls) = ''/f''" "rfEncoding (read_request enc ls) = enc" "rfLines (read_request enc ls) = ls"
  by (simp_all add: read_request_def)


lemma gbk_names: "isGBFamily ''gbk''" "\<not> isGB18030 ''gbk''" "ToLower (TrimSpace ''gbk'') = ''gbk''"
proof -
  have t: "TrimSpace ''gbk'' = ''gbk''"
    by (rule TrimSpace_ascii_word) (simp_all add: isASCII_def bval_def is_space_def)
  then show "isGBFamily ''gbk''" "\<not> isGB18030 ''gbk''" "ToLower (TrimSpace ''gbk'') = ''gbk''"
    by (simp_all add: isGB18030_def EqualFold_def isGBFamily_def lower_char_def bval_def)
qed

theorem gb_paging_exact_witness:
  "decodeToUTF8 byte_codec read_bytes (rfEncoding (read_request ''gbk'' [])) =
     Inr (concat (map rrContent (read_pages (Suc (length read_bytes)) byte_codec (read_request ''gbk'' []) [] read_fs 0)))"
proof (rule gb_paging_exact [OF read_request_paging])
  have "decodeToUTF8 byte_codec d ''gbk'' = Inr d" for d
    by (simp add: decodeToUTF8_def gbk_names(3) byte_codec_def transform_result_def Let_def)
  then show "splits_at_chars (\<lambda>d. decodeToUTF8 byte_codec d (rfEncoding (read_request ''gbk'' [])))
      (isGB18030 (rfEncoding (read_request ''gbk'' [])))"
    by (simp add: splits_at_chars_def read_sel)
  show "Stat read_fs (clean_comps ''/f'') = Inr (NFile read_bytes 420)" "text_file read_bytes"
    using read_fs_file(2) read_fs_text by (simp_all only: read_bytes_def)
qed (simp_all add: read_sel read_request_clamp read_fs_file(1) gbk_names(1))

theorem picked_lines_exact_witness:
  "\<exists>r. ReadFileContent byte_codec (read_request [] [7, 2, 2]) [] read_fs = Inr r \<and>
     rrMissingLines r = [7] \<and> rrContent r = writeNumbered 2 ''b''"
proof -
  let ?req = "read_request [] [7, 2, 2]"
  let ?enc = "if rfEncoding ?req = [] then detectEncoding (take readerSize read_bytes) else rfEncoding ?req"
  have ls: "raw_lines read_bytes = [[CHR ''a'', CHR 0xC3, CHR 0xA9, nl], ''b'']" by code_simp
  have picked: "picked_text byte_codec enc [] (raw_lines read_bytes) 0 2 = writeNumbered 2 ''b''" for enc
    by (simp add: picked_text_def ls chop_line_def searchLineBuf_def TrimSuffix_single decodeLine_def isASCII_def bval_def)
  have want: "remdups_adj (sort (rfLines ?req)) = [2, 7]" by (simp add: read_sel)
  have texts: "map (picked_text byte_codec ?enc (rfEncoding ?req) (raw_lines read_bytes) 0)
      (filter (\<lambda>n. n \<le> int (length (raw_lines read_bytes))) [2, 7]) = [writeNumbered 2 ''b'']"
    unfolding read_sel(2) by (simp add: picked [unfolded ls] ls)
  have "\<exists>r. ReadFileContent byte_codec ?req [] read_fs = Inr r \<and> rrContent r = join [nl] [writeNumbered 2 ''b''] \<and>
      \<not> rrTruncated r \<and> rrMissingLines r = filter (\<lambda>n. int (length (raw_lines read_bytes)) < n) [2, 7]"
  proof (rule picked_lines_exact [OF _ _ _ _ _ _ refl want [symmetric] texts [symmetric]])
    show "Stat read_fs (clean_comps ''/f'') = Inr (NFile read_bytes 420)" "text_file read_bytes"
      using read_fs_file(2) read_fs_text by (simp_all only: read_bytes_def)
    have "length (writeNumbered 2 ''b'') = 8" by code_simp
    then show "length (join [nl] [writeNumbered 2 ''b'']) \<le> clampMaxBytes (rfMaxBytes ?req)"
      unfolding read_request_clamp by simp
  qed (simp_all add: read_sel read_fs_file(1) maxPickedLines_def)
  then show ?thesis by (auto simp: ls)
qed

end
