(* ===== verification/Patterns.thy ===== *)
theory Patterns
  imports Go_Prelude
begin

text \<open>
  What the search and log tools share about patterns (\<open>searchops.go\<close>, lines 36 to 56).  The \<open>regexp\<close>
  package is a parameter: compiling a pattern gives nothing, or the function that finds the first match
  in a text.
\<close>

type_synonym regexp = "gostring \<Rightarrow> (nat \<times> nat) option"
type_synonym compile = "gostring \<Rightarrow> regexp option"

definition MatchString :: "regexp \<Rightarrow> gostring \<Rightarrow> bool" where
  "MatchString re s \<longleftrightarrow> re s \<noteq> None"

definition isHiddenName :: "gostring \<Rightarrow> bool" where
  "isHiddenName name \<longleftrightarrow> HasPrefix name ''.''"

text \<open>The expression \<open>gnuAlternation\<close>, as the automaton it stands for: an odd run of backslashes before
  a bar or a parenthesis; \<open>n\<close> counts the backslashes just read.\<close>

fun gnu_scan :: "nat \<Rightarrow> gostring \<Rightarrow> bool" where
  "gnu_scan n [] = False"
| "gnu_scan n (c # cs) =
     (if c = CHR 0x5C then gnu_scan (Suc n) cs
      else (odd n \<and> c \<in> {CHR ''|'', CHR ''('', CHR '')''}) \<or> gnu_scan 0 cs)"

definition gnuAlternation :: "gostring \<Rightarrow> bool" where
  "gnuAlternation pat = gnu_scan 0 pat"

text \<open>Whether a pattern without a match gets the hint about GNU-style alternation.\<close>

definition patternHint :: "gostring \<Rightarrow> bool" where
  "patternHint pat = gnuAlternation pat"

end
