(* ===== verification/Tail_Log.thy ===== *)
theory Tail_Log
  imports Read_File Patterns
begin

text \<open>
  \<open>remote_tail_log\<close> (\<open>taillog.go\<close>): the end of a log, what was appended after a byte or line cursor, and
  the last lines matching a pattern, with an optional wait for new content.  Each read sees one state
  of the file system; the follow loop is given the states it polls.
\<close>

section \<open>Definitions\<close>

definition defaultTailLines :: int where [go_defs]: "defaultTailLines = 100"
definition maxTailLines :: int where [go_defs]: "maxTailLines = 10000"
definition defaultTailMaxBytes :: nat where [go_defs]: "defaultTailMaxBytes = 65536"
definition maxFollowSeconds :: int where [go_defs]: "maxFollowSeconds = 300"
definition maxTailScanBytes :: nat where [go_defs]: "maxTailScanBytes = 67108864"

record TailLogRequest =
  tqPath :: gostring
  tqLines :: int
  tqFilterRegex :: gostring
  tqSinceLine :: int
  tqSinceOffset :: int
  tqFollowSeconds :: int
  tqEncoding :: gostring
  tqMaxBytes :: int

datatype tail_hint =
    TailNoHint
  | BytesNotShown nat nat
  | LinesNotShown int int
  | ScanLimit nat
  | MatchesCapped nat nat

datatype tail_cursor = CursorTail | CursorOffset | CursorLine

record TailLogResult =
  trPath :: gostring
  trEncoding :: gostring
  trStartLine :: int
  trEndLine :: int
  trTotalLines :: nat
  trStartOffset :: nat
  trEndOffset :: nat
  trSize :: nat
  trTruncated :: bool
  trFiltered :: bool
  trFollowed :: bool
  trTimedOut :: bool
  trRotated :: bool
  trIsBinary :: bool
  trHint :: tail_hint
  trPatternHint :: bool
  trContent :: gostring
  trCursor :: tail_cursor

definition empty_tail :: "gostring \<Rightarrow> nat \<Rightarrow> TailLogResult" where
  "empty_tail p sz = \<lparr>trPath = p, trEncoding = [], trStartLine = 0, trEndLine = 0, trTotalLines = 0,
     trStartOffset = 0, trEndOffset = 0, trSize = sz, trTruncated = False, trFiltered = False,
     trFollowed = False, trTimedOut = False, trRotated = False, trIsBinary = False, trHint = TailNoHint,
     trPatternHint = False, trContent = [], trCursor = CursorTail\<rparr>"

definition splitLinesRaw :: "bytes \<Rightarrow> gostring list" where
  "splitLinesRaw data =
     (let s = TrimSuffix data [nl] in
      if s = [] then [] else map (\<lambda>l. TrimSuffix l [cr]) (split_on nl s))"

subsection \<open>Lines after a line cursor\<close>

record collector =
  co_lines :: "gostring list"
  co_total :: nat
  co_bytes :: nat
  co_trunc :: bool

definition flushLine :: "int \<Rightarrow> int \<Rightarrow> nat \<Rightarrow> gostring \<Rightarrow> collector \<Rightarrow> collector" where
  "flushLine cursor maxLines maxBytes line c =
     (let c = c\<lparr>co_total := Suc (co_total c)\<rparr> in
      if int (co_total c) \<le> cursor then c
      else if maxLines \<le> int (length (co_lines c)) \<or> maxBytes < co_bytes c + length line
      then c\<lparr>co_trunc := True\<rparr>
      else c\<lparr>co_lines := co_lines c @ [line], co_bytes := co_bytes c + length line\<rparr>)"

text \<open>The complete lines of the buffer; stopped as soon as a line does not fit.\<close>

function drain_lines :: "int \<Rightarrow> int \<Rightarrow> nat \<Rightarrow> bytes \<Rightarrow> collector \<Rightarrow> bytes \<times> collector" where
  "drain_lines cursor maxLines maxBytes buf c =
     (case IndexByte buf nl of
        None \<Rightarrow> (buf, c)
      | Some i \<Rightarrow>
          (let c' = flushLine cursor maxLines maxBytes (TrimSuffix (take i buf) [cr]) c;
               buf' = drop (Suc i) buf
           in if co_trunc c' then (buf', c') else drain_lines cursor maxLines maxBytes buf' c'))"
  by pat_completeness auto
termination
  by (relation "measure (\<lambda>(cursor, m, b, buf, c). length buf)") (auto dest: IndexByte_Some)

declare drain_lines.simps [simp del]

text \<open>\<open>pending\<close> is never set in the source, so a last line without a newline stays in the buffer and is
  dropped.\<close>

function collect_loop :: "int \<Rightarrow> int \<Rightarrow> nat \<Rightarrow> bytes \<Rightarrow> bytes \<Rightarrow> collector \<Rightarrow> collector" where
  "collect_loop cursor maxLines maxBytes rest buf c =
     (if rest = [] then c
      else
        (let rest' = drop readerSize rest;
             (buf', c') = drain_lines cursor maxLines maxBytes (buf @ take readerSize rest) c
         in if co_trunc c'
            then c'\<lparr>co_total := co_total c' + (countNewlines buf' + countNewlines rest')\<rparr>
            else collect_loop cursor maxLines maxBytes rest' buf' c'))"
  by pat_completeness auto
termination
  by (relation "measure (\<lambda>(cursor, m, b, rest, buf, c). length rest)") (auto simp: readerSize_def)

declare collect_loop.simps [simp del]

definition collectLinesAfter :: "bytes \<Rightarrow> int \<Rightarrow> int \<Rightarrow> nat \<Rightarrow> gostring list \<times> nat \<times> bool" where
  "collectLinesAfter f cursor maxLines maxBytes =
     (let c = collect_loop cursor maxLines maxBytes f []
                \<lparr>co_lines = [], co_total = 0, co_bytes = 0, co_trunc = False\<rparr>
      in (co_lines c, co_total c, co_trunc c))"

subsection \<open>The content of a result\<close>

definition finish_lines :: "regexp option \<Rightarrow> gostring list \<Rightarrow> TailLogResult \<Rightarrow> TailLogResult" where
  "finish_lines filt ls res =
     (case filt of
        None \<Rightarrow> res\<lparr>trContent := join [nl] ls\<rparr>
      | Some re \<Rightarrow> res\<lparr>trFiltered := True, trContent := join [nl] (filter (MatchString re) ls)\<rparr>)"

definition finishTail ::
  "codec \<Rightarrow> TailLogResult \<Rightarrow> bytes \<Rightarrow> gostring list \<Rightarrow> gostring \<Rightarrow> regexp option \<Rightarrow> TailLogResult" where
  "finishTail cd res raw preSplit encoding filt =
     (if preSplit \<noteq> [] then
        (let joined = join [nl] preSplit;
             enc = (if encoding = [] then detectEncoding joined else encoding);
             ls = (case decodeText cd joined enc encoding of Inr s \<Rightarrow> splitLinesRaw s | Inl _ \<Rightarrow> preSplit)
         in finish_lines filt ls (res\<lparr>trEncoding := enc\<rparr>))
      else if looksBinary raw then
        res\<lparr>trIsBinary := True, trContent := binary_notice, trEncoding := ''utf-8''\<rparr>
      else
        (let enc = (if encoding = [] then detectEncoding raw else encoding) in
         case decodeText cd raw enc encoding of
           Inl _ \<Rightarrow> res\<lparr>trContent := [], trEncoding := enc\<rparr>
         | Inr s \<Rightarrow> finish_lines filt (splitLinesRaw s) (res\<lparr>trEncoding := enc\<rparr>)))"

subsection \<open>The last matching lines\<close>

record match_scan =
  ms_buf :: bytes
  ms_matches :: "gostring list"
  ms_collected :: nat
  ms_start :: nat
  ms_trunc :: bool
  ms_hint :: tail_hint

definition log_line :: "codec \<Rightarrow> gostring \<Rightarrow> gostring \<Rightarrow> bytes \<Rightarrow> gostring" where
  "log_line cd enc forced l = decodeLine cd (TrimRight l [cr, nl]) enc forced"

definition cut_after :: "nat option \<Rightarrow> nat" where
  "cut_after i = (case i of None \<Rightarrow> 0 | Some j \<Rightarrow> Suc j)"

lemma cut_shorter: "nl \<in> set (butlast b) \<Longrightarrow> cut_after (LastIndexByte (butlast b) nl) < length b"
  by (auto simp: cut_after_def dest: LastIndexByte_Some split: option.split)

function match_lines ::
  "(bytes \<Rightarrow> gostring) \<Rightarrow> regexp \<Rightarrow> nat \<Rightarrow> nat \<Rightarrow> nat \<Rightarrow> match_scan \<Rightarrow> match_scan" where
  "match_lines dec re n maxBytes pos s =
     (if n \<le> length (ms_matches s) then s
      else
        (let lastnl = LastIndexByte (butlast (ms_buf s)) nl; at = cut_after lastnl in
         if lastnl = None \<and> 0 < pos then s
         else
           (let line = dec (drop at (ms_buf s));
                s = s\<lparr>ms_buf := take at (ms_buf s)\<rparr>;
                over = (maxBytes < ms_collected s + length line);
                s' = (if \<not> MatchString re line then s
                      else if over then
                        s\<lparr>ms_trunc := True, ms_hint := MatchesCapped maxBytes (length (ms_matches s))\<rparr>
                      else s\<lparr>ms_matches := ms_matches s @ [line],
                             ms_collected := ms_collected s + length line + 1, ms_start := pos + at\<rparr>)
            in if MatchString re line \<and> over \<or> lastnl = None then s'
               else match_lines dec re n maxBytes pos s')))"
  by pat_completeness auto
termination
  by (relation "measure (\<lambda>(dec, re, n, m, pos, s). length (ms_buf s))")
    (auto simp: Let_def cut_shorter)

declare match_lines.simps [simp del]

definition match_block :: "nat \<Rightarrow> nat \<Rightarrow> nat \<Rightarrow> nat" where
  "match_block pos scanned have_len =
     min (min (max tailBlockSize have_len) pos) (maxTailScanBytes - scanned)"

lemma match_block_pos: "0 < pos \<Longrightarrow> scanned < maxTailScanBytes \<Longrightarrow> 0 < match_block pos scanned n"
  by (simp add: match_block_def tailBlockSize_def)

lemma match_block_le: "match_block pos scanned n \<le> pos" "match_block pos scanned n \<le> maxTailScanBytes - scanned"
  by (simp_all add: match_block_def)

function match_blocks ::
  "(bytes \<Rightarrow> gostring) \<Rightarrow> regexp \<Rightarrow> nat \<Rightarrow> nat \<Rightarrow> bytes \<Rightarrow> nat \<Rightarrow> match_scan \<Rightarrow> match_scan" where
  "match_blocks dec re n maxBytes f pos s =
     (if 0 < pos \<and> length (ms_matches s) < n \<and> \<not> ms_trunc s then
        (let scanned = length f - pos in
         if maxTailScanBytes \<le> scanned then s\<lparr>ms_trunc := True, ms_hint := ScanLimit n\<rparr>
         else
           (let block = match_block pos scanned (length (ms_buf s));
                pos' = pos - block
            in match_blocks dec re n maxBytes f pos'
                 (match_lines dec re n maxBytes pos' (s\<lparr>ms_buf := ReadAt f block pos' @ ms_buf s\<rparr>))))
      else s)"
  by pat_completeness auto
termination
  by (relation "measure (\<lambda>(dec, re, n, m, f, pos, s). pos)") (auto simp: match_block_pos not_le intro: diff_less)

declare match_blocks.simps [simp del]

text \<open>The encoding is detected on the last block, before the first line is decoded.\<close>

definition tailMatches ::
  "codec \<Rightarrow> bytes \<Rightarrow> TailLogResult \<Rightarrow> nat \<Rightarrow> nat \<Rightarrow> regexp \<Rightarrow> gostring \<Rightarrow> TailLogResult" where
  "tailMatches cd f res n maxBytes re forced =
     (let sz = length f;
          res = res\<lparr>trFiltered := True, trStartOffset := sz, trEndOffset := sz\<rparr>;
          block = match_block sz 0 0; chunk = ReadAt f block (sz - block)
      in if looksBinary chunk then
           res\<lparr>trIsBinary := True, trEncoding := ''utf-8'', trContent := binary_notice\<rparr>
         else
           (let enc = (if forced = [] then (if sz = 0 then [] else detectEncoding chunk) else forced);
                s = match_blocks (log_line cd enc forced) re n maxBytes f sz
                      \<lparr>ms_buf = [], ms_matches = [], ms_collected = 0, ms_start = sz, ms_trunc = False,
                       ms_hint = TailNoHint\<rparr>
            in res\<lparr>trTruncated := ms_trunc s, trHint := ms_hint s, trStartOffset := ms_start s,
                   trEncoding := (if enc \<noteq> [] then enc else ''utf-8''),
                   trContent := join [nl] (rev (ms_matches s))\<rparr>))"


subsection \<open>One read pass\<close>

text \<open>The bytes after the offset cursor, at most \<open>maxBytes\<close>; a capped read ends on a line boundary in its
  second half, and never inside a character.\<close>

definition since_window :: "bytes \<Rightarrow> nat \<Rightarrow> nat \<Rightarrow> gostring \<Rightarrow> bytes" where
  "since_window f offset maxBytes encoding =
     (let toRead = length f - offset; raw = ReadAt f (min toRead maxBytes) offset in
      if maxBytes < toRead then
        (let raw = (case LastIndexByte raw nl of
                      Some i \<Rightarrow> if length raw div 2 \<le> i then take (Suc i) raw else raw
                    | None \<Rightarrow> raw);
             enc = (if encoding = [] then detectEncoding raw else encoding);
             e = snd (windowEdges raw enc False True)
         in if 0 < e then take e raw else raw)
      else raw)"

definition tail_since_offset ::
  "codec \<Rightarrow> bytes \<Rightarrow> gostring \<Rightarrow> TailLogRequest \<Rightarrow> nat \<Rightarrow> regexp option \<Rightarrow> TailLogResult \<times> bool" where
  "tail_since_offset cd f ap req maxBytes filt =
     (let sz = length f; since = nat (tqSinceOffset req);
          rotated = (sz < since);
          offset = (if rotated then 0 else min since sz);
          raw = since_window f offset maxBytes (tqEncoding req);
          capped = (maxBytes < sz - offset);
          res = (empty_tail ap sz)\<lparr>trCursor := CursorOffset, trRotated := rotated, trTruncated := capped,
                  trHint := (if capped then BytesNotShown (sz - offset - length raw) (offset + length raw)
                             else TailNoHint),
                  trStartOffset := offset, trEndOffset := offset + length raw\<rparr>
      in (finishTail cd res raw [] (tqEncoding req) filt, raw \<noteq> [] \<or> rotated))"

definition tail_since_line ::
  "codec \<Rightarrow> bytes \<Rightarrow> gostring \<Rightarrow> TailLogRequest \<Rightarrow> nat \<Rightarrow> regexp option \<Rightarrow> TailLogResult \<times> bool" where
  "tail_since_line cd f ap req maxBytes filt =
     (case collectLinesAfter f (tqSinceLine req) maxTailLines maxBytes of
        (collected, tot, truncated) \<Rightarrow>
          (let since = tqSinceLine req;
               fin = (if truncated then since + int (length collected) else int tot);
               res = (empty_tail ap (length f))\<lparr>trCursor := CursorLine, trTotalLines := tot, trEndLine := fin,
                       trTruncated := truncated, trStartLine := (if collected \<noteq> [] then since + 1 else 0),
                       trHint := (if truncated then LinesNotShown (int tot - fin) fin else TailNoHint)\<rparr>
           in (finishTail cd res [] collected (tqEncoding req) filt, since < int tot)))"

definition tailReadOnce ::
  "codec \<Rightarrow> bytes \<Rightarrow> gostring \<Rightarrow> TailLogRequest \<Rightarrow> nat \<Rightarrow> nat \<Rightarrow> regexp option \<Rightarrow> TailLogResult \<times> bool" where
  "tailReadOnce cd f ap req ls maxBytes filt =
     (if 0 < tqSinceOffset req then tail_since_offset cd f ap req maxBytes filt
      else if 0 < tqSinceLine req then tail_since_line cd f ap req maxBytes filt
      else
        (case filt of
           Some re \<Rightarrow> (tailMatches cd f (empty_tail ap (length f)) ls maxBytes re (tqEncoding req), True)
         | None \<Rightarrow>
             (case readTailBytes f (length f) ls maxBytes of
                (raw, off, truncated) \<Rightarrow>
                  (finishTail cd ((empty_tail ap (length f))\<lparr>trStartOffset := off, trEndOffset := length f,
                     trTruncated := truncated\<rparr>) raw [] (tqEncoding req) None, True))))"

subsection \<open>The whole operation\<close>

datatype tail_error = TPath path_error | TSys fs_error | TBadFilter | TIsDirectory

definition tail_read ::
  "codec \<Rightarrow> gostring \<Rightarrow> TailLogRequest \<Rightarrow> nat \<Rightarrow> nat \<Rightarrow> regexp option \<Rightarrow> filesys \<Rightarrow>
   tail_error + TailLogResult \<times> bool" where
  "tail_read cd ap req ls maxBytes filt fs =
     (case Stat fs (clean_comps ap) of
        Inl e \<Rightarrow> Inl (TSys e)
      | Inr (NFile f m) \<Rightarrow> Inr (tailReadOnce cd f ap req ls maxBytes filt)
      | Inr _ \<Rightarrow> Inl TIsDirectory)"

text \<open>One turn of the follow loop: the file system at its start, whether the deadline has passed, and the
  file system after the sleep.\<close>

record poll =
  pl_now :: filesys
  pl_expired :: bool
  pl_later :: filesys

definition stat_size :: "filesys \<Rightarrow> gostring \<Rightarrow> nat option" where
  "stat_size fs ap = (case Stat fs (clean_comps ap) of Inr (NFile f m) \<Rightarrow> Some (length f) | _ \<Rightarrow> None)"

fun follow_loop ::
  "(filesys \<Rightarrow> tail_error + TailLogResult \<times> bool) \<Rightarrow> gostring \<Rightarrow> bool \<Rightarrow> nat \<Rightarrow> TailLogResult \<Rightarrow> bool \<Rightarrow>
   poll list \<Rightarrow> (tail_error + TailLogResult) option" where
  "follow_loop rd ap cursor initialSize res hasNew [] = None"
| "follow_loop rd ap cursor initialSize res hasNew (p # ps) =
     (if cursor \<and> hasNew then Some (Inr res)
      else if \<not> cursor \<and> (case stat_size (pl_now p) ap of Some n \<Rightarrow> n \<noteq> initialSize | None \<Rightarrow> False) then
        (case rd (pl_now p) of Inl e \<Rightarrow> Some (Inl e) | Inr (res', _) \<Rightarrow> Some (Inr res'))
      else if pl_expired p then Some (Inr (res\<lparr>trTimedOut := True\<rparr>))
      else if cursor then
        (case rd (pl_later p) of
           Inl e \<Rightarrow> Some (Inl e)
         | Inr (res', hasNew') \<Rightarrow> follow_loop rd ap cursor initialSize res' hasNew' ps)
      else follow_loop rd ap cursor initialSize res hasNew ps)"

definition clampTailLines :: "int \<Rightarrow> nat" where
  "clampTailLines n = nat (min (if n \<le> 0 then defaultTailLines else n) maxTailLines)"

definition clampTailBytes :: "int \<Rightarrow> nat" where
  "clampTailBytes n = min (if n \<le> 0 then defaultTailMaxBytes else nat n) maxReadMaxBytes"

definition TailLog ::
  "codec \<Rightarrow> compile \<Rightarrow> TailLogRequest \<Rightarrow> gostring list \<Rightarrow> filesys \<Rightarrow> poll list \<Rightarrow>
   (tail_error + TailLogResult) option" where
  "TailLog cd rx req roots fs polls =
     (case validatePath fs (tqPath req) roots of
        Inl e \<Rightarrow> Some (Inl (TPath e))
      | Inr ap \<Rightarrow>
          (let ls = clampTailLines (tqLines req); maxBytes = clampTailBytes (tqMaxBytes req);
               filt = (if tqFilterRegex req = [] then None else rx (tqFilterRegex req))
           in if tqFilterRegex req \<noteq> [] \<and> filt = None then Some (Inl TBadFilter)
              else
                (let rd = tail_read cd ap req ls maxBytes filt;
                     hinted = (\<lambda>res. if filt \<noteq> None \<and> trContent res = [] \<and> \<not> trIsBinary res
                                    then res\<lparr>trPatternHint := patternHint (tqFilterRegex req)\<rparr> else res)
                 in case rd fs of
                      Inl e \<Rightarrow> Some (Inl e)
                    | Inr (res, hasNew) \<Rightarrow>
                        if min (max (tqFollowSeconds req) 0) maxFollowSeconds \<le> 0 then Some (Inr (hinted res))
                        else
                          map_option (map_sum id (\<lambda>res. hinted (res\<lparr>trFollowed := True\<rparr>)))
                            (follow_loop rd ap (0 < tqSinceLine req \<or> 0 < tqSinceOffset req) (trSize res)
                               res hasNew polls))))"


section \<open>The last matching lines, exactly\<close>

lemma single_line:
  assumes "l \<noteq> []" "nl \<notin> set (butlast l)" "rest = [] \<or> last l = nl"
  shows "raw_lines (l @ rest) = l # raw_lines rest"
proof (cases l rule: rev_cases)
  case (snoc a x)
  with assms show ?thesis by (cases "x = nl") (auto simp: raw_lines_nl raw_lines_last)
qed (use assms(1) in simp)

definition log_matches :: "(bytes \<Rightarrow> gostring) \<Rightarrow> regexp \<Rightarrow> bytes \<Rightarrow> gostring list" where
  "log_matches dec re f = filter (MatchString re) (map dec (raw_lines f))"

text \<open>The state of the backward scan: the buffer sits at \<open>pos\<close>, everything after it has been matched.\<close>

definition scan_ok :: "(bytes \<Rightarrow> gostring) \<Rightarrow> regexp \<Rightarrow> nat \<Rightarrow> bytes \<Rightarrow> nat \<Rightarrow> match_scan \<Rightarrow> bool" where
  "scan_ok dec re n f pos s \<longleftrightarrow>
     (\<exists>rest. drop pos f = ms_buf s @ rest \<and> (rest = [] \<or> pos + length (ms_buf s) = 0 \<or> last (take pos f @ ms_buf s) = nl) \<and>
             rev (ms_matches s) = log_matches dec re rest) \<and> length (ms_matches s) \<le> n"

lemma scan_ok_step:
  assumes "scan_ok dec re n f pos s" "ms_buf s = b @ l" "l \<noteq> []" "nl \<notin> set (butlast l)"
    "b = [] \<and> pos = 0 \<or> b \<noteq> [] \<and> last b = nl"
    "ms_matches s' = (if MatchString re (dec l) then ms_matches s @ [dec l] else ms_matches s)" "ms_buf s' = b"
    "length (ms_matches s') \<le> n"
  shows "scan_ok dec re n f pos s'"
proof -
  obtain rest where r: "drop pos f = ms_buf s @ rest" "rest = [] \<or> pos + length (ms_buf s) = 0 \<or> last (take pos f @ ms_buf s) = nl"
    "rev (ms_matches s) = log_matches dec re rest"
    using assms(1) by (auto simp: scan_ok_def)
  have "rest = [] \<or> last l = nl" using r(2) assms(2,3) by auto
  then have "raw_lines (l @ rest) = l # raw_lines rest" using single_line assms(3,4) by blast
  then have "log_matches dec re (l @ rest) = rev (ms_matches s')" using r(3) assms(6) by (simp add: log_matches_def)
  with r(1) assms(2,5,7,8) show ?thesis by (auto simp: scan_ok_def intro!: exI [of _ "l @ rest"])
qed

lemma cut_split:
  assumes "b \<noteq> []" "at = cut_after (LastIndexByte (butlast b) nl)"
  shows "b = take at b @ drop at b" "drop at b \<noteq> []" "nl \<notin> set (butlast (drop at b))"
    "at = 0 \<or> take at b \<noteq> [] \<and> last (take at b) = nl" "LastIndexByte (butlast b) nl = None \<longleftrightarrow> at = 0"
proof -
  show "LastIndexByte (butlast b) nl = None \<longleftrightarrow> at = 0"
    using assms(2) by (cases "LastIndexByte (butlast b) nl") (auto simp: cut_after_def)
  show "drop at b \<noteq> []" "nl \<notin> set (butlast (drop at b))" "at = 0 \<or> take at b \<noteq> [] \<and> last (take at b) = nl"
  proof -
    consider "nl \<notin> set (butlast b)" "at = 0" | i where "LastIndexByte (butlast b) nl = Some i" "at = Suc i"
      using assms(2) by (cases "LastIndexByte (butlast b) nl") (auto simp: cut_after_def)
    then have "drop at b \<noteq> [] \<and> nl \<notin> set (butlast (drop at b)) \<and> (at = 0 \<or> take at b \<noteq> [] \<and> last (take at b) = nl)"
    proof cases
      case (2 i)
      from LastIndexByte_Some [OF 2(1)] have i: "Suc i < length b" "b ! i = nl" "nl \<notin> set (drop (Suc i) (butlast b))"
        by (auto simp: nth_butlast)
      then show ?thesis using 2(2) by (auto simp: butlast_drop take_Suc_nth simp flip: take_Suc_conv_app_nth)
    qed (use assms(1) in auto)
    then show "drop at b \<noteq> []" "nl \<notin> set (butlast (drop at b))" "at = 0 \<or> take at b \<noteq> [] \<and> last (take at b) = nl"
      by auto
  qed
qed simp

lemma match_lines_ok:
  assumes "scan_ok dec re n f pos s" "ms_buf s \<noteq> []" "\<not> ms_trunc s"
    "s' = match_lines dec re n maxBytes pos s" "\<not> ms_trunc s'"
  shows "scan_ok dec re n f pos s' \<and> (n \<le> length (ms_matches s') \<or> 0 < pos \<or> ms_buf s' = [])"
  using assms
proof (induction "length (ms_buf s)" arbitrary: s s' rule: less_induct)
  case less
  let ?cut = "LastIndexByte (butlast (ms_buf s)) nl"
  let ?at = "cut_after ?cut"
  let ?line = "dec (drop ?at (ms_buf s))"
  note cut = cut_split [OF less.prems(2) refl]
  let ?t = "s\<lparr>ms_buf := take ?at (ms_buf s)\<rparr>"
  let ?over = "maxBytes < ms_collected s + length ?line"
  let ?u = "if \<not> MatchString re ?line then ?t
      else if ?over then ?t\<lparr>ms_trunc := True, ms_hint := MatchesCapped maxBytes (length (ms_matches s))\<rparr>
      else ?t\<lparr>ms_matches := ms_matches s @ [?line], ms_collected := ms_collected s + length ?line + 1, ms_start := pos + ?at\<rparr>"
  note step = match_lines.simps [of dec re n maxBytes pos s]
  consider (full) "n \<le> length (ms_matches s)" | (stop) "length (ms_matches s) < n" "?cut = None" "0 < pos"
    | (go) "length (ms_matches s) < n" "?cut \<noteq> None \<or> pos = 0" by force
  then show ?case
  proof cases
    case full
    then have "s' = s" using less.prems(4) by (subst (asm) step) simp
    with full less.prems(1) show ?thesis by simp
  next
    case stop
    then have "s' = s" using less.prems(4) by (subst (asm) step) (simp add: Let_def)
    with stop less.prems(1) show ?thesis by simp
  next
    case go
    then have s': "s' = (if MatchString re ?line \<and> ?over \<or> ?cut = None then ?u else match_lines dec re n maxBytes pos ?u)"
      using less.prems(4) by (subst (asm) step) (auto simp: Let_def)
    have over: "\<not> (MatchString re ?line \<and> ?over)"
      using less.prems(5) s' by auto
    then have u: "ms_matches ?u = (if MatchString re ?line then ms_matches s @ [?line] else ms_matches s)"
      "ms_buf ?u = take ?at (ms_buf s)" "\<not> ms_trunc ?u"
      using less.prems(3) by auto
    have ok: "scan_ok dec re n f pos ?u"
      by (rule scan_ok_step [OF less.prems(1) cut(1,2,3)])
        (use cut(4,5) go u(1,2) in auto)
    show ?thesis
    proof (cases "?cut = None")
      case True
      with s' u(2) ok cut(5) go show ?thesis by simp
    next
      case False
      have "s' = match_lines dec re n maxBytes pos ?u" using s' over False by simp
      moreover have "ms_buf ?u \<noteq> []" using u(2) cut(4,5) False by simp
      moreover have "length (ms_buf ?u) < length (ms_buf s)"
        using u(2) cut(1,2) by (metis length_append length_greater_0_conv less_add_same_cancel1)
      ultimately show ?thesis using less.hyps [of ?u s'] ok u(3) less.prems(5) by blast
    qed
  qed
qed


lemma scan_ok_block:
  assumes "scan_ok dec re n f pos s" "block \<le> pos" "pos \<le> length f" "0 < block"
  shows "scan_ok dec re n f (pos - block) (s\<lparr>ms_buf := ReadAt f block (pos - block) @ ms_buf s\<rparr>)"
    "ReadAt f block (pos - block) \<noteq> []"
proof -
  have d: "drop (pos - block) f = ReadAt f block (pos - block) @ drop pos f"
    using assms(2) by (simp add: ReadAt_def) (metis append_take_drop_id drop_drop le_add_diff_inverse)
  have t: "take pos f = take (pos - block) f @ ReadAt f block (pos - block)"
    using assms(2) by (simp add: ReadAt_def) (metis le_add_diff_inverse2 take_add)
  have len: "length (ReadAt f block (pos - block)) = block" using assms(2,3) by (simp add: ReadAt_def)
  then show "ReadAt f block (pos - block) \<noteq> []" using assms(4) by auto
  show "scan_ok dec re n f (pos - block) (s\<lparr>ms_buf := ReadAt f block (pos - block) @ ms_buf s\<rparr>)"
    using assms(1) d t len assms(2) by (auto simp: scan_ok_def)
qed

lemma match_blocks_ok:
  assumes "scan_ok dec re n f pos s" "pos \<le> length f" "\<not> ms_trunc s" "pos = 0 \<Longrightarrow> length (ms_matches s) < n \<Longrightarrow> ms_buf s = []"
    "s' = match_blocks dec re n maxBytes f pos s" "\<not> ms_trunc s'"
  shows "\<exists>a. log_matches dec re f = a @ rev (ms_matches s') \<and> length (ms_matches s') \<le> n \<and>
    (length (ms_matches s') < n \<longrightarrow> a = [])"
  using assms
proof (induction pos arbitrary: s s' rule: less_induct)
  case (less pos)
  note step = match_blocks.simps [of dec re n maxBytes f pos s]
  obtain rest where rest: "drop pos f = ms_buf s @ rest" "rest = [] \<or> pos + length (ms_buf s) = 0 \<or> last (take pos f @ ms_buf s) = nl"
    "rev (ms_matches s) = log_matches dec re rest" "length (ms_matches s) \<le> n"
    using less.prems(1) by (auto simp: scan_ok_def)
  show ?case
  proof (cases "0 < pos \<and> length (ms_matches s) < n")
    case True
    define block where "block = match_block pos (length f - pos) (length (ms_buf s))"
    define u where "u = match_lines dec re n maxBytes (pos - block) (s\<lparr>ms_buf := ReadAt f block (pos - block) @ ms_buf s\<rparr>)"
    have far: "\<not> maxTailScanBytes \<le> length f - pos"
      using True less.prems(3,5,6) step by auto
    then have block: "0 < block" "block \<le> pos"
      using True by (simp_all add: block_def match_block_pos match_block_le)
    have s': "s' = match_blocks dec re n maxBytes f (pos - block) u"
      using True far less.prems(3,5) unfolding step by (simp add: Let_def block_def u_def)
    note blk = scan_ok_block [OF less.prems(1) block(2) less.prems(2) block(1)]
    have "\<not> ms_trunc u"
    proof
      assume "ms_trunc u"
      then have "s' = u" using s' by (subst (asm) match_blocks.simps) simp
      with \<open>ms_trunc u\<close> less.prems(6) show False by simp
    qed
    then have u: "scan_ok dec re n f (pos - block) u" "n \<le> length (ms_matches u) \<or> 0 < pos - block \<or> ms_buf u = []"
      using match_lines_ok [OF blk(1) _ _ u_def] blk(2) less.prems(3) by auto
    show ?thesis
      by (rule less.IH [OF _ u(1) _ \<open>\<not> ms_trunc u\<close> _ s' less.prems(6)]) (use block u(2) less.prems(2) in auto)
  next
    case False
    then have s': "s' = s" using less.prems(5) unfolding step by auto
    have f: "f = (take pos f @ ms_buf s) @ rest" using rest(1) by (metis append.assoc append_take_drop_id)
    have "raw_lines f = raw_lines (take pos f @ ms_buf s) @ raw_lines rest"
    proof (cases "rest = [] \<or> take pos f @ ms_buf s = []")
      case True
      then show ?thesis by (subst f) auto
    next
      case False
      then have "last (take pos f @ ms_buf s) = nl" using rest(2) by auto
      with raw_lines_append [of "take pos f @ ms_buf s" rest] f show ?thesis by simp
    qed
    then have "log_matches dec re f = log_matches dec re (take pos f @ ms_buf s) @ rev (ms_matches s)"
      using rest(3) by (simp add: log_matches_def)
    moreover have "log_matches dec re (take pos f @ ms_buf s) = []" if "length (ms_matches s) < n"
      using that False less.prems(4) by (simp add: log_matches_def)
    ultimately show ?thesis using s' rest(4) by blast
  qed
qed

text \<open>C13: with a filter, the tail of a log is exactly the last \<open>n\<close> matching lines of the whole file, in file
  order, each decoded on its own (all of them when there are fewer), although the file is read
  backwards block by block and a block edge falls inside lines and characters; unless the result says
  that it was truncated.\<close>

theorem filtered_tail_exact:
  assumes "0 < n" "r = tailMatches cd f res n maxBytes re forced" "\<not> trIsBinary r" "\<not> trTruncated r"
    "enc = (if forced = [] then (if f = [] then [] else detectEncoding (ReadAt f (match_block (length f) 0 0)
              (length f - match_block (length f) 0 0))) else forced)"
  shows "trContent r = join [nl] (let ls = log_matches (log_line cd enc forced) re f in drop (length ls - n) ls)"
proof -
  let ?dec = "log_line cd enc forced"
  let ?s = "\<lparr>ms_buf = [], ms_matches = [], ms_collected = 0, ms_start = length f, ms_trunc = False, ms_hint = TailNoHint\<rparr>"
  define s' where "s' = match_blocks ?dec re n maxBytes f (length f) ?s"
  have r: "trContent r = join [nl] (rev (ms_matches s'))" "\<not> ms_trunc s'"
    using assms(2-5) by (auto simp: tailMatches_def Let_def s'_def split: if_splits)
  have "scan_ok ?dec re n f (length f) ?s" by (simp add: scan_ok_def log_matches_def)
  from match_blocks_ok [OF this _ _ _ s'_def r(2)] obtain a where
    "log_matches ?dec re f = a @ rev (ms_matches s')" "length (ms_matches s') \<le> n"
    "length (ms_matches s') < n \<longrightarrow> a = []" by auto
  then have "drop (length (log_matches ?dec re f) - n) (log_matches ?dec re f) = rev (ms_matches s')"
    by (cases "length (ms_matches s') = n") auto
  with r(1) show ?thesis by (simp add: Let_def)
qed


section \<open>Following a byte cursor\<close>

lemma finishTail_sel [simp]:
  "trStartOffset (finishTail cd res raw pre enc filt) = trStartOffset res"
  "trEndOffset (finishTail cd res raw pre enc filt) = trEndOffset res"
  "trEndLine (finishTail cd res raw pre enc filt) = trEndLine res"
  "trTruncated (finishTail cd res raw pre enc filt) = trTruncated res"
  "trRotated (finishTail cd res raw pre enc filt) = trRotated res"
  by (auto simp: finishTail_def finish_lines_def Let_def split: sum.splits option.splits)

lemma finishTail_content:
  "trContent (finishTail cd res raw pre enc filt) = trContent (finishTail cd res' raw pre enc filt)"
  by (simp add: finishTail_def finish_lines_def Let_def split: sum.splits option.splits)

text \<open>The window after a cursor is the byte window of the file reads with its tail edge trimmed.\<close>

lemma since_window_read:
  assumes "off \<le> length f" "w = readByteWindow f (length f) (int off) maxBytes"
  shows "since_window f off maxBytes enc =
    (if w_more w then
       (let e = snd (windowEdges (w_data w) (if enc = [] then detectEncoding (w_data w) else enc) False True)
        in if 0 < e then take e (w_data w) else w_data w)
     else w_data w)"
proof -
  have off: "nat (min (max (int off) 0) (int (length f))) = off" using assms(1) by simp
  have more: "off + length (ReadAt f (min maxBytes (length f - off)) off) < length f \<longleftrightarrow> maxBytes < length f - off"
    using assms(1) by (auto simp: ReadAt_def)
  define b where "b = ReadAt f (min maxBytes (length f - off)) off"
  define d where "d = (case LastIndexByte b nl of Some i \<Rightarrow> if length b div 2 \<le> i then take (Suc i) b else b | None \<Rightarrow> b)"
  have mc: "min (length f - off) maxBytes = min maxBytes (length f - off)" by (rule min.commute)
  have w: "w = (if maxBytes < length f - off then
      empty_window\<lparr>w_data := d, w_offset := off, w_more := True, w_capped := True\<rparr>
    else empty_window\<lparr>w_data := b, w_offset := off\<rparr>)"
    using more unfolding assms(2) readByteWindow_def Let_def off b_def [symmetric] d_def by simp
  have s: "since_window f off maxBytes enc = (if maxBytes < length f - off then
      (let e = snd (windowEdges d (if enc = [] then detectEncoding d else enc) False True) in if 0 < e then take e d else d)
    else b)"
    unfolding since_window_def Let_def mc b_def [symmetric] d_def by simp
  show ?thesis unfolding s w by (simp add: empty_window_def Let_def)
qed

lemma since_window_take:
  assumes "off \<le> length f" "0 < maxBytes"
  shows "\<exists>k. since_window f off maxBytes enc = ReadAt f k off \<and> k = length (since_window f off maxBytes enc) \<and>
    off + k \<le> length f \<and> (off < length f \<longrightarrow> 0 < k) \<and> (length f - off \<le> maxBytes \<longrightarrow> off + k = length f)"
proof -
  define w where "w = readByteWindow f (length f) (int off) maxBytes"
  note bw = byte_window [OF assms(1) w_def]
  note read = since_window_read [OF assms(1) w_def]
  have le: "off + length (w_data w) \<le> length f" using bw(2) assms(1)
    by (metis (no_types) ReadAt_def add_le_cancel_left le_add_diff_inverse length_drop length_take min.cobounded1)
  have pos: "off < length f \<Longrightarrow> 0 < length (w_data w)" using bw(3,4) assms(2) by (cases "w_more w") auto
  have all: "length f - off \<le> maxBytes \<Longrightarrow> \<not> w_more w"
    using assms(1,2) unfolding w_def readByteWindow_def Let_def
    by (auto simp: ReadAt_def empty_window_def)
  let ?e = "snd (windowEdges (w_data w) (if enc = [] then detectEncoding (w_data w) else enc) False True)"
  define e where "e = (if w_more w \<and> 0 < ?e then ?e else length (w_data w))"
  have e: "since_window f off maxBytes enc = take e (w_data w)" "\<not> w_more w \<Longrightarrow> e = length (w_data w)" "e = length (w_data w) \<or> 0 < e"
    using read by (simp_all add: e_def Let_def)
  let ?k = "min e (length (w_data w))"
  have "since_window f off maxBytes enc = ReadAt f ?k off"
    unfolding e(1) by (subst bw(2)) (simp add: ReadAt_def)
  moreover have "?k = length (since_window f off maxBytes enc)" by (simp add: e(1) min.commute)
  moreover have "off < length f \<longrightarrow> 0 < ?k" using pos e(3) by auto
  moreover have "length f - off \<le> maxBytes \<longrightarrow> off + ?k = length f" using all e(2) bw(3) le by auto
  moreover have "off + ?k \<le> length f" using le by linarith
  ultimately show ?thesis by blast
qed

text \<open>A client that polls with \<open>since_offset = end_offset\<close>, once in each state of the log.\<close>

fun offset_polls ::
  "codec \<Rightarrow> gostring \<Rightarrow> TailLogRequest \<Rightarrow> nat \<Rightarrow> nat \<Rightarrow> regexp option \<Rightarrow> nat \<Rightarrow> bytes list \<Rightarrow> TailLogResult list" where
  "offset_polls cd ap req ls maxBytes filt c [] = []"
| "offset_polls cd ap req ls maxBytes filt c (f # fs) =
     (let r = fst (tailReadOnce cd f ap (req\<lparr>tqSinceOffset := int c\<rparr>) ls maxBytes filt)
      in r # offset_polls cd ap req ls maxBytes filt (trEndOffset r) fs)"

definition delivered :: "TailLogResult \<Rightarrow> bytes \<Rightarrow> bytes" where
  "delivered r f = ReadAt f (trEndOffset r - trStartOffset r) (trStartOffset r)"

text \<open>What one such poll promises: the content is that of the bytes between its two offsets, and bytes
  after the cursor are never reported as nothing new.\<close>

definition poll_ok :: "codec \<Rightarrow> gostring \<Rightarrow> TailLogRequest \<Rightarrow> regexp option \<Rightarrow> TailLogResult \<Rightarrow> bytes \<Rightarrow> bool" where
  "poll_ok cd ap req filt r f \<longleftrightarrow>
     \<not> trRotated r \<and> trStartOffset r \<le> trEndOffset r \<and> trEndOffset r \<le> length f \<and>
     (trStartOffset r < length f \<longrightarrow> trStartOffset r < trEndOffset r) \<and>
     (\<not> trTruncated r \<longrightarrow> trEndOffset r = length f) \<and>
     trContent r = trContent (finishTail cd (empty_tail ap (length f)) (delivered r f) [] (tqEncoding req) filt)"

lemma offset_poll:
  assumes "0 < c" "c \<le> length f" "0 < maxBytes"
    "r = fst (tailReadOnce cd f ap (req\<lparr>tqSinceOffset := int c\<rparr>) ls maxBytes filt)"
  shows "trStartOffset r = c \<and> poll_ok cd ap req filt r f"
proof -
  let ?raw = "since_window f c maxBytes (tqEncoding req)"
  obtain k where k: "?raw = ReadAt f k c" "k = length ?raw" "c + k \<le> length f" "c < length f \<longrightarrow> 0 < k"
    "length f - c \<le> maxBytes \<longrightarrow> c + k = length f"
    using since_window_take [OF assms(2,3)] by metis
  define res where "res = (empty_tail ap (length f))\<lparr>trCursor := CursorOffset, trRotated := False,
      trTruncated := maxBytes < length f - c,
      trHint := (if maxBytes < length f - c then BytesNotShown (length f - c - length ?raw) (c + length ?raw)
                 else TailNoHint), trStartOffset := c, trEndOffset := c + length ?raw\<rparr>"
  have c: "\<not> length f < c" "min c (length f) = c" "nat (int c) = c" "0 < int c" using assms(1,2) by simp_all
  have r: "r = finishTail cd res ?raw [] (tqEncoding req) filt"
    using assms(1) unfolding assms(4) res_def tailReadOnce_def tail_since_offset_def Let_def by (simp add: c)
  have sel: "trStartOffset r = c" "trEndOffset r = c + length ?raw" "\<not> trRotated r"
    "trTruncated r \<longleftrightarrow> maxBytes < length f - c"
    unfolding r finishTail_sel res_def by simp_all
  have "delivered r f = ?raw" unfolding delivered_def sel(1,2) using k(1,2) by simp
  then have "trContent r = trContent (finishTail cd (empty_tail ap (length f)) (delivered r f) [] (tqEncoding req) filt)"
    unfolding r by (simp add: finishTail_content)
  then show ?thesis using sel k unfolding poll_ok_def by (metis le_add1 less_add_same_cancel1 linorder_not_less)
qed

lemma successively_prefix_last:
  "successively prefix (f # fs) \<Longrightarrow> prefix f (last (f # fs))"
  by (induction fs arbitrary: f) (auto intro: prefix_order.trans)

lemma offset_polls_end:
  assumes "0 < c" "c \<le> length (hd fs)" "0 < maxBytes" "fs \<noteq> []" "successively prefix fs"
  shows "c \<le> trEndOffset (last (offset_polls cd ap req ls maxBytes filt c fs))"
  using assms
proof (induction fs arbitrary: c)
  case (Cons f fs)
  define r where "r = fst (tailReadOnce cd f ap (req\<lparr>tqSinceOffset := int c\<rparr>) ls maxBytes filt)"
  have p: "c \<le> trEndOffset r" "trEndOffset r \<le> length f"
    using offset_poll [OF Cons.prems(1) _ Cons.prems(3) r_def] Cons.prems(2) by (auto simp: poll_ok_def)
  show ?case
  proof (cases fs)
    case Nil
    with p show ?thesis by (simp add: r_def Let_def)
  next
    case (Cons g gs)
    with Cons.prems(5) have "prefix f g" "successively prefix fs" by auto
    with p have "trEndOffset r \<le> trEndOffset (last (offset_polls cd ap req ls maxBytes filt (trEndOffset r) fs))"
      using Cons Cons.prems(1,3) prefix_length_le [of f g] by (intro Cons.IH) auto
    with p(1) show ?thesis using Cons by (simp add: r_def Let_def)
  qed
qed simp

text \<open>C12: a client that follows a growing log by its byte cursor receives every byte written after the
  first cursor exactly once, in order, whatever was written between two polls: the delivered windows,
  put together, are the log from the first cursor to the last one; every poll that finds new bytes
  delivers some of them, and the log is never mistaken for a rotated one.\<close>

theorem offset_polls_complete:
  assumes "0 < c" "c \<le> length (hd fs)" "0 < maxBytes" "fs \<noteq> []" "successively prefix fs"
    "rs = offset_polls cd ap req ls maxBytes filt c fs"
  shows "concat (map2 delivered rs fs) = ReadAt (last fs) (trEndOffset (last rs) - c) c \<and>
    list_all2 (poll_ok cd ap req filt) rs fs"
  using assms
proof (induction fs arbitrary: c rs)
  case (Cons f fs)
  define r where "r = fst (tailReadOnce cd f ap (req\<lparr>tqSinceOffset := int c\<rparr>) ls maxBytes filt)"
  have p: "trStartOffset r = c" "poll_ok cd ap req filt r f" "c \<le> trEndOffset r" "trEndOffset r \<le> length f"
    using offset_poll [OF Cons.prems(1) _ Cons.prems(3) r_def] Cons.prems(2) by (auto simp: poll_ok_def)
  have rs: "rs = r # offset_polls cd ap req ls maxBytes filt (trEndOffset r) fs"
    using Cons.prems(6) by (simp add: r_def Let_def)
  show ?case
  proof (cases fs)
    case Nil
    with rs p show ?thesis by (simp add: delivered_def)
  next
    case (Cons g gs)
    define rs' where "rs' = offset_polls cd ap req ls maxBytes filt (trEndOffset r) fs"
    have grow: "prefix f g" "successively prefix fs" using Cons.prems(5) Cons by auto
    then have "trEndOffset r \<le> length (hd fs)" using p(4) Cons prefix_length_le by fastforce
    then have IH: "concat (map2 delivered rs' fs) = ReadAt (last fs) (trEndOffset (last rs') - trEndOffset r) (trEndOffset r)"
      "list_all2 (poll_ok cd ap req filt) rs' fs"
      using Cons.IH [OF _ _ Cons.prems(3) _ grow(2) rs'_def] p(3) Cons.prems(1) Cons by auto
    have ends: "trEndOffset r \<le> trEndOffset (last rs')"
      unfolding rs'_def using Cons grow(2) p(3) Cons.prems(1,3) \<open>trEndOffset r \<le> length (hd fs)\<close>
      by (intro offset_polls_end) auto
    have last_prefix: "prefix f (last fs)"
      using successively_prefix_last [OF Cons.prems(5)] Cons by simp
    have "ReadAt (last fs) (trEndOffset (last rs') - c) c =
        ReadAt (last fs) (trEndOffset r - c) c @ ReadAt (last fs) (trEndOffset (last rs') - trEndOffset r) (trEndOffset r)"
      using ReadAt_split [of "trEndOffset r - c" "trEndOffset (last rs') - c" "last fs" c] p(3) ends by simp
    moreover have "ReadAt (last fs) (trEndOffset r - c) c = delivered r f"
      using p(1,4) last_prefix by (auto simp: delivered_def ReadAt_def prefix_def)
    moreover have "rs' \<noteq> []" "fs \<noteq> []" using Cons by (simp_all add: rs'_def Let_def)
    ultimately show ?thesis using IH p(2) unfolding rs [folded rs'_def] by simp
  qed
qed simp


section \<open>Following a line cursor\<close>

text \<open>The lines a line cursor counts: those that end in a newline.\<close>

function complete_lines :: "bytes \<Rightarrow> gostring list" where
  "complete_lines b =
     (case IndexByte b nl of
        None \<Rightarrow> []
      | Some i \<Rightarrow> TrimSuffix (take i b) [cr] # complete_lines (drop (Suc i) b))"
  by pat_completeness auto
termination by (relation "measure length") (auto dest: IndexByte_Some)

declare complete_lines.simps [simp del]

lemma complete_lines_none [simp]: "nl \<notin> set b \<Longrightarrow> complete_lines b = []"
  by (subst complete_lines.simps) simp

lemma complete_lines_cons [simp]:
  "nl \<notin> set a \<Longrightarrow> complete_lines (a @ nl # b) = TrimSuffix a [cr] # complete_lines b"
  by (subst complete_lines.simps) (simp add: IndexByte_append)

lemma length_complete_lines: "length (complete_lines b) = countNewlines b"
proof (induction "length b" arbitrary: b rule: less_induct)
  case less
  show ?case
  proof (cases "nl \<in> set b")
    case True
    then obtain x y where "b = x @ nl # y" "nl \<notin> set x" by (meson split_list_first)
    with less [of y] show ?thesis by (simp add: countNewlines_def)
  qed (simp add: countNewlines_def)
qed

fun flush_all :: "int \<Rightarrow> int \<Rightarrow> nat \<Rightarrow> gostring list \<Rightarrow> collector \<Rightarrow> collector" where
  "flush_all cursor m b [] c = c"
| "flush_all cursor m b (l # ls) c =
     (let c' = flushLine cursor m b l c
      in if co_trunc c' then c'\<lparr>co_total := co_total c' + length ls\<rparr> else flush_all cursor m b ls c')"

lemma drain_lines_all:
  assumes "drain_lines cursor m b buf c = (buf', c')" "\<not> co_trunc c"
  shows "flush_all cursor m b (complete_lines (buf @ rest)) c =
    (if co_trunc c' then c'\<lparr>co_total := co_total c' + (countNewlines buf' + countNewlines rest)\<rparr>
     else flush_all cursor m b (complete_lines (buf' @ rest)) c') \<and> (\<not> co_trunc c' \<longrightarrow> nl \<notin> set buf')"
  using assms
proof (induction "length buf" arbitrary: buf c rule: less_induct)
  case less
  show ?case
  proof (cases "nl \<in> set buf")
    case True
    then obtain x y where xy: "buf = x @ nl # y" "nl \<notin> set x" by (meson split_list_first)
    let ?c = "flushLine cursor m b (TrimSuffix x [cr]) c"
    have d: "drain_lines cursor m b buf c = (if co_trunc ?c then (y, ?c) else drain_lines cursor m b y ?c)"
      by (subst drain_lines.simps) (simp add: xy IndexByte_append)
    show ?thesis
    proof (cases "co_trunc ?c")
      case True
      with d less.prems(1) show ?thesis
        by (auto simp: xy length_complete_lines countNewlines_def Let_def)
    next
      case False
      with d less.prems(1) less.hyps [of y ?c] show ?thesis by (simp add: xy Let_def)
    qed
  next
    case False
    with less.prems show ?thesis by (subst (asm) drain_lines.simps) simp
  qed
qed

lemma collect_loop_all:
  assumes "nl \<notin> set buf" "\<not> co_trunc c"
  shows "collect_loop cursor m b rest buf c = flush_all cursor m b (complete_lines (buf @ rest)) c"
  using assms
proof (induction "length rest" arbitrary: rest buf c rule: less_induct)
  case less
  show ?case
  proof (cases "rest = []")
    case True
    with less.prems(1) show ?thesis by (subst collect_loop.simps) simp
  next
    case False
    obtain buf' c' where d: "drain_lines cursor m b (buf @ take readerSize rest) c = (buf', c')" by fastforce
    note all = drain_lines_all [OF d less.prems(2), of "drop readerSize rest"]
    have "length (drop readerSize rest) < length rest" using False by (simp add: readerSize_def)
    then have "collect_loop cursor m b (drop readerSize rest) buf' c' =
        flush_all cursor m b (complete_lines (buf' @ drop readerSize rest)) c'" if "\<not> co_trunc c'"
      using less.hyps [of "drop readerSize rest" buf' c'] all that by blast
    with False d all show ?thesis by (subst collect_loop.simps) simp
  qed
qed

lemma flush_all_past:
  assumes "\<not> co_trunc c" "0 \<le> cursor"
  shows "flush_all cursor m b ls c =
    (if length ls \<le> nat cursor - co_total c then c\<lparr>co_total := co_total c + length ls\<rparr>
     else flush_all cursor m b (drop (nat cursor - co_total c) ls) (c\<lparr>co_total := max (co_total c) (nat cursor)\<rparr>))"
  using assms
proof (induction ls arbitrary: c)
  case (Cons l ls)
  show ?case
  proof (cases "co_total c < nat cursor")
    case True
    then have "flushLine cursor m b l c = c\<lparr>co_total := Suc (co_total c)\<rparr>"
      using Cons.prems by (simp add: flushLine_def Let_def)
    moreover have "nat cursor - co_total c = Suc (nat cursor - Suc (co_total c))" using True by simp
    ultimately show ?thesis using Cons True by (simp add: max_def Let_def)
  next
    case False
    then have "nat cursor - co_total c = 0" "max (co_total c) (nat cursor) = co_total c" by auto
    then show ?thesis by simp
  qed
qed simp

text \<open>What fits into the result: at most \<open>m\<close> lines and \<open>b\<close> bytes of them.\<close>

definition fits :: "int \<Rightarrow> nat \<Rightarrow> gostring list \<Rightarrow> bool" where
  "fits m b ls \<longleftrightarrow> int (length ls) \<le> m \<and> sum_list (map length ls) \<le> b"

lemma flush_all_taken:
  assumes "\<not> co_trunc c" "cursor \<le> int (co_total c)" "co_bytes c = sum_list (map length (co_lines c))"
    "fits m b (co_lines c)" "c' = flush_all cursor m b ls c"
  shows "\<exists>k. co_lines c' = co_lines c @ take k ls \<and> co_total c' = co_total c + length ls \<and> k \<le> length ls \<and>
    fits m b (co_lines c') \<and> (co_trunc c' \<longleftrightarrow> k < length ls) \<and>
    (k < length ls \<longrightarrow> \<not> fits m b (co_lines c @ take (Suc k) ls))"
  using assms
proof (induction ls arbitrary: c)
  case (Cons l ls)
  show ?case
  proof (cases "m \<le> int (length (co_lines c)) \<or> b < co_bytes c + length l")
    case True
    then have "c' = c\<lparr>co_trunc := True, co_total := Suc (co_total c + length ls)\<rparr>"
      using Cons.prems by (simp add: flushLine_def Let_def)
    with True Cons.prems(1,3,4) show ?thesis by (intro exI [of _ 0]) (auto simp: fits_def)
  next
    case False
    let ?c = "c\<lparr>co_total := Suc (co_total c), co_lines := co_lines c @ [l], co_bytes := co_bytes c + length l\<rparr>"
    have "flushLine cursor m b l c = ?c" using False Cons.prems(2) by (simp add: flushLine_def Let_def)
    with Cons.prems have c': "c' = flush_all cursor m b ls ?c" by (simp add: Let_def)
    have "\<exists>k. co_lines c' = co_lines ?c @ take k ls \<and> co_total c' = co_total ?c + length ls \<and> k \<le> length ls \<and>
      fits m b (co_lines c') \<and> (co_trunc c' \<longleftrightarrow> k < length ls) \<and>
      (k < length ls \<longrightarrow> \<not> fits m b (co_lines ?c @ take (Suc k) ls))"
      by (rule Cons.IH [OF _ _ _ _ c']) (use Cons.prems False in \<open>auto simp: fits_def\<close>)
    then obtain k where "co_lines c' = co_lines ?c @ take k ls \<and> co_total c' = co_total ?c + length ls \<and> k \<le> length ls \<and>
      fits m b (co_lines c') \<and> (co_trunc c' \<longleftrightarrow> k < length ls) \<and>
      (k < length ls \<longrightarrow> \<not> fits m b (co_lines ?c @ take (Suc k) ls))" by blast
    then show ?thesis by (intro exI [of _ "Suc k"]) auto
  qed
qed simp

lemma collectLinesAfter_taken:
  assumes "collectLinesAfter f cursor m b = (ls, tot, tr)" "0 \<le> cursor" "0 \<le> m" "d = drop (nat cursor) (complete_lines f)"
  shows "\<exists>k\<le>length d. ls = take k d \<and> tot = length (complete_lines f) \<and> fits m b ls \<and> (tr \<longleftrightarrow> k < length d) \<and>
    (k < length d \<longrightarrow> \<not> fits m b (take (Suc k) d))"
proof -
  let ?c = "\<lparr>co_lines = [], co_total = 0, co_bytes = 0, co_trunc = False\<rparr>"
  define c where "c = collect_loop cursor m b f [] ?c"
  have c: "ls = co_lines c" "tot = co_total c" "tr = co_trunc c"
    using assms(1) by (auto simp: collectLinesAfter_def c_def Let_def)
  have all: "c = flush_all cursor m b (complete_lines f) ?c"
    unfolding c_def by (subst collect_loop_all) simp_all
  show ?thesis
  proof (cases "length (complete_lines f) \<le> nat cursor")
    case True
    then have "c = ?c\<lparr>co_total := length (complete_lines f)\<rparr>"
      using flush_all_past [of ?c cursor m b "complete_lines f"] assms(2) all by simp
    with True c assms(3,4) show ?thesis by (auto simp: fits_def)
  next
    case False
    then have "c = flush_all cursor m b d (?c\<lparr>co_total := nat cursor\<rparr>)"
      using flush_all_past [of ?c cursor m b "complete_lines f"] assms(2,4) all by simp
    from flush_all_taken [OF _ _ _ _ this] obtain k where
      "co_lines c = take k d" "co_total c = nat cursor + length d" "k \<le> length d" "fits m b (co_lines c)"
      "co_trunc c \<longleftrightarrow> k < length d" "k < length d \<longrightarrow> \<not> fits m b (take (Suc k) d)"
      using assms(2,3) by (auto simp: fits_def)
    with c False assms(4) show ?thesis by (intro exI [of _ k]) simp
  qed
qed

text \<open>C21: after a line cursor the tail of a log is the complete lines that follow it, in order: as many as
  fit into the line and byte limits and no fewer, decoded as one text; the result is marked truncated
  exactly when some are left, and the next cursor is the number of the last line returned.  A line
  that alone exceeds the byte limit is never passed: the next cursor is the old one again.\<close>

theorem since_line_exact:
  assumes "0 < tqSinceLine req" "(r, hasNew) = tail_since_line cd f ap req maxBytes filt"
    "d = drop (nat (tqSinceLine req)) (complete_lines f)"
  shows "(\<exists>k\<le>length d. fits maxTailLines maxBytes (take k d) \<and> (trTruncated r \<longleftrightarrow> k < length d) \<and>
       (k < length d \<longrightarrow> \<not> fits maxTailLines maxBytes (take (Suc k) d)) \<and>
       trContent r = trContent (finishTail cd (empty_tail ap (length f)) [] (take k d) (tqEncoding req) filt) \<and>
       trEndLine r = (if k < length d then tqSinceLine req + int k else int (length (complete_lines f)))) \<and>
     (hasNew \<longleftrightarrow> d \<noteq> []) \<and>
     (d \<noteq> [] \<and> maxBytes < length (hd d) \<longrightarrow> trEndLine r = tqSinceLine req)"
proof -
  obtain ls tot tr where cl: "collectLinesAfter f (tqSinceLine req) maxTailLines maxBytes = (ls, tot, tr)"
    by (metis prod_cases3)
  obtain k where k: "k \<le> length d" "ls = take k d" "tot = length (complete_lines f)" "fits maxTailLines maxBytes ls"
    "tr \<longleftrightarrow> k < length d" "k < length d \<longrightarrow> \<not> fits maxTailLines maxBytes (take (Suc k) d)"
    using collectLinesAfter_taken [OF cl _ _ assms(3)] assms(1) by (auto simp: maxTailLines_def)
  define fin where "fin = (if tr then tqSinceLine req + int (length ls) else int tot)"
  define res where "res = (empty_tail ap (length f))\<lparr>trCursor := CursorLine, trTotalLines := tot, trEndLine := fin,
      trTruncated := tr, trStartLine := (if ls \<noteq> [] then tqSinceLine req + 1 else 0),
      trHint := (if tr then LinesNotShown (int tot - fin) fin else TailNoHint)\<rparr>"
  have once: "tail_since_line cd f ap req maxBytes filt =
      (finishTail cd res [] ls (tqEncoding req) filt, tqSinceLine req < int tot)"
    unfolding tail_since_line_def cl res_def fin_def Let_def prod.case by (rule refl)
  then have res: "r = finishTail cd res [] ls (tqEncoding req) filt" "trEndLine res = fin" "trTruncated res = tr"
    using assms(2) by (simp_all add: res_def)
  have new: "hasNew \<longleftrightarrow> d \<noteq> []" using assms once by (auto simp: k(3))
  have content: "trContent r = trContent (finishTail cd (empty_tail ap (length f)) [] ls (tqEncoding req) filt)"
    unfolding res(1) by (rule finishTail_content)
  have fin: "trEndLine r = (if k < length d then tqSinceLine req + int k else int (length (complete_lines f)))" "trTruncated r = tr"
    using k by (simp_all add: res fin_def)
  have "trEndLine r = tqSinceLine req" if "d \<noteq> []" "maxBytes < length (hd d)"
  proof -
    from that have "k = 0" using k(1,2,4) by (cases d; cases k) (auto simp: fits_def)
    with that fin show ?thesis by simp
  qed
  then show ?thesis using k content fin new by (intro conjI exI [of _ k]) simp_all
qed


section \<open>Concrete logs\<close>

definition short_log :: bytes where "short_log = ''a'' @ [nl] @ ''xb'' @ [nl] @ ''c''"
definition has_x :: regexp where "has_x s = (if CHR ''x'' \<in> set s then Some (0, 1) else None)"

lemma short_log_lines:
  "log_line byte_codec enc [] [CHR ''c''] = ''c''"
  "log_line byte_codec enc [] [CHR ''x'', CHR ''b'', nl] = ''xb''"
  "log_line byte_codec enc [] [CHR ''a'', nl] = ''a''"
  by (simp_all add: log_line_def TrimRight_def decodeLine_def isASCII_def bval_def)

lemma short_log_block:
  "match_block 6 0 0 = 6" "length short_log = 6"
  "\<not> looksBinary (ReadAt short_log 6 0)"
  by (simp_all add: match_block_def short_log_def tailBlockSize_def maxTailScanBytes_def looksBinary_def
      ReadAt_def binarySniffLen_def bval_def)

lemma short_log_scan:
  "\<not> ms_trunc (match_blocks (log_line byte_codec enc []) has_x 1 100 short_log 6
      \<lparr>ms_buf = [], ms_matches = [], ms_collected = 0, ms_start = 6, ms_trunc = False, ms_hint = TailNoHint\<rparr>)"
proof -
  have "match_blocks (log_line byte_codec enc []) has_x 1 100 short_log 0 s = s" for s
    by (simp add: match_blocks.simps)
  then show ?thesis
    using short_log_block(1)
    by (subst match_blocks.simps, simp add: maxTailScanBytes_def Let_def ReadAt_def short_log_def short_log_block(2) [unfolded short_log_def])
      (simp add: short_log_lines match_lines.simps cut_after_def has_x_def MatchString_def Let_def)
qed

theorem filtered_tail_exact_witness:
  "trContent (tailMatches byte_codec short_log (empty_tail [] 6) 1 100 has_x []) = ''xb''"
proof -
  let ?r = "tailMatches byte_codec short_log (empty_tail [] 6) 1 100 has_x []"
  have r: "\<not> trIsBinary ?r" "\<not> trTruncated ?r"
    using short_log_block(3) short_log_scan
    by (simp_all add: tailMatches_def short_log_block(1) short_log_block(2) Let_def empty_tail_def)
  have "raw_lines short_log = [[CHR ''a'', nl], [CHR ''x'', CHR ''b'', nl], [CHR ''c'']]" by code_simp
  then have "log_matches (log_line byte_codec enc []) has_x short_log = [''xb'']" for enc
    by (simp add: log_matches_def short_log_lines has_x_def MatchString_def)
  then show ?thesis
    using filtered_tail_exact [OF _ refl r refl] by (simp add: Let_def)
qed

theorem offset_polls_complete_witness:
  "\<exists>rs. concat (map2 delivered rs [''ab'', ''abcd'']) = ReadAt ''abcd'' (trEndOffset (last rs) - 1) 1 \<and> length rs = 2"
proof -
  let ?rs = "offset_polls byte_codec [] (\<lparr>tqPath = [], tqLines = 0, tqFilterRegex = [], tqSinceLine = 0, tqSinceOffset = 1,
      tqFollowSeconds = 0, tqEncoding = [], tqMaxBytes = 0\<rparr>) 1 8 None 1 [''ab'', ''abcd'']"
  have "concat (map2 delivered ?rs [''ab'', ''abcd'']) = ReadAt (last [''ab'', ''abcd'']) (trEndOffset (last ?rs) - 1) 1"
    by (rule offset_polls_complete [OF _ _ _ _ _ refl, THEN conjunct1]) simp_all
  moreover have "length ?rs = 2" by (simp add: Let_def)
  ultimately show ?thesis by (intro exI [of _ ?rs]) simp
qed

theorem since_line_exact_witness:
  "trEndLine (fst (tail_since_line byte_codec short_log [] \<lparr>tqPath = [], tqLines = 0, tqFilterRegex = [], tqSinceLine = 1,
      tqSinceOffset = 0, tqFollowSeconds = 0, tqEncoding = [], tqMaxBytes = 0\<rparr> 1 None)) = 1"
proof -
  let ?req = "\<lparr>tqPath = [], tqLines = 0, tqFilterRegex = [], tqSinceLine = 1,
      tqSinceOffset = 0, tqFollowSeconds = 0, tqEncoding = [], tqMaxBytes = 0\<rparr>"
  have "drop 1 (complete_lines short_log) = [''xb'']" by code_simp
  then show ?thesis
    using since_line_exact [of ?req _ _ byte_codec short_log "[]" 1 None, OF _ surjective_pairing [symmetric] refl] by simp
qed

end
