(* ===== verification/Capped_Output.thy ===== *)
theory Capped_Output
  imports Text_Encoding
begin

text \<open>
  Bounded capture of a command's output (\<open>output.go\<close>) and the rune-safe cut of the captured bytes
  (\<open>truncateToLimit\<close> of \<open>executor.go\<close>).  \<open>cappedBuffer\<close> is the writer the executor gives to the
  process as stdout and stderr: head mode keeps a prefix, tail mode a ring with the most recent bytes.
  The ring copy is a loop whose termination rests on the ring invariant, so \<open>Write\<close> is an option:
  \<open>None\<close> would be a call that never returns.  The byte count \<open>total\<close> (an \<open>int64\<close>) is a natural
  number.
\<close>

section \<open>Definitions\<close>

record cappedBuffer =
  cb_limit :: nat
  cb_tail :: bool
  cb_buf :: bytes
  cb_start :: nat
  cb_full :: bool
  cb_total :: nat

definition newCappedBuffer :: "int \<Rightarrow> bool \<Rightarrow> cappedBuffer" where
  "newCappedBuffer lim tl_mode =
     \<lparr>cb_limit = nat (if lim < 0 then 0 else lim), cb_tail = tl_mode, cb_buf = [], cb_start = 0, cb_full = False,
      cb_total = 0\<rparr>"

text \<open>Go's \<open>copy(dst[i:], p)\<close> on the slice as a whole: the bytes that fit replace those from \<open>i\<close>.\<close>

definition copy_at :: "bytes \<Rightarrow> nat \<Rightarrow> bytes \<Rightarrow> bytes" where
  "copy_at dst i p = take i dst @ take (length dst - i) p @ drop (i + min (length dst - i) (length p)) dst"

partial_function (option) ring_copy :: "nat \<Rightarrow> bytes \<Rightarrow> nat \<Rightarrow> bytes \<Rightarrow> (bytes \<times> nat) option" where
  "ring_copy lim ring st p =
     (if p = [] then Some (ring, st)
      else (let c = min (length ring - st) (length p)
            in ring_copy lim (copy_at ring st p) ((st + c) mod lim) (drop c p)))"

definition Write :: "cappedBuffer \<Rightarrow> bytes \<Rightarrow> (cappedBuffer \<times> nat) option" where
  "Write b0 p =
     (let n = length p;
          b = b0\<lparr>cb_total := cb_total b0 + n\<rparr> in
      if cb_limit b = 0 then Some (b, n)
      else if \<not> cb_tail b then
        (let room = cb_limit b - length (cb_buf b) in
         if 0 < room then
           Some (b\<lparr>cb_buf := cb_buf b @ (if room < length p then take room p else p)\<rparr>, n)
         else Some (b, n))
      else if cb_limit b \<le> length p then
        Some (b\<lparr>cb_buf := drop (length p - cb_limit b) p, cb_start := 0, cb_full := True\<rparr>, n)
      else if \<not> cb_full b \<and> length (cb_buf b) + length p \<le> cb_limit b then
        Some (b\<lparr>cb_buf := cb_buf b @ p\<rparr>, n)
      else
        (let fill = cb_limit b - length (cb_buf b);
             ring = (if cb_full b then cb_buf b else cb_buf b @ take fill p);
             st = (if cb_full b then cb_start b else 0);
             rest = (if cb_full b then p else drop fill p)
         in case ring_copy (cb_limit b) ring st rest of
              None \<Rightarrow> None
            | Some (ring', st') \<Rightarrow> Some (b\<lparr>cb_buf := ring', cb_start := st', cb_full := True\<rparr>, n)))"

definition Bytes :: "cappedBuffer \<Rightarrow> bytes" where
  "Bytes b =
     (if \<not> cb_tail b \<or> \<not> cb_full b \<or> cb_start b = 0 then cb_buf b
      else drop (cb_start b) (cb_buf b) @ take (cb_start b) (cb_buf b))"

definition cb_truncated :: "cappedBuffer \<Rightarrow> bool" where
  "cb_truncated b \<longleftrightarrow> length (cb_buf b) < cb_total b"

text \<open>\<open>truncateToLimit\<close>: the two loops examine at most \<open>UTFMax - 1\<close> bytes each.\<close>

fun head_cut :: "gostring \<Rightarrow> nat \<Rightarrow> nat \<Rightarrow> nat" where
  "head_cut s p 0 = p"
| "head_cut s 0 (Suc n) = 0"
| "head_cut s (Suc p) (Suc n) = (if RuneStart (s ! Suc p) then Suc p else head_cut s p n)"

fun tail_start :: "gostring \<Rightarrow> nat \<Rightarrow> nat \<Rightarrow> nat" where
  "tail_start s p 0 = p"
| "tail_start s p (Suc n) =
     (if p < length s \<and> \<not> RuneStart (s ! p) then tail_start s (Suc p) n else p)"

definition truncateToLimit :: "gostring \<Rightarrow> nat \<Rightarrow> bool \<Rightarrow> gostring" where
  "truncateToLimit s mx tl_mode =
     (if length s \<le> mx then s
      else if mx = 0 then []
      else if \<not> tl_mode then take (head_cut s mx (UTFMax - 1)) s
      else drop (tail_start s (length s - mx) (UTFMax - 1)) s)"

datatype output_error = UnsupportedOutputEncoding gostring

definition normalizeOutputEncoding :: "gostring \<Rightarrow> output_error + gostring" where
  "normalizeOutputEncoding enc =
     (let e = ToLower (TrimSpace enc) in
      if e \<in> {'''', ''utf-8'', ''utf8''} then Inr []
      else if e \<in> {''gbk'', ''gb2312'', ''gb18030'', ''auto''} then Inr e
      else Inl (UnsupportedOutputEncoding enc))"

text \<open>The text, whether anything was dropped, and the encoding decoded from.  The executor calls it
  with \<open>mx \<ge> 1\<close>.\<close>

definition finishOutput ::
  "codec \<Rightarrow> cappedBuffer \<Rightarrow> nat \<Rightarrow> bool \<Rightarrow> gostring \<Rightarrow> gostring \<times> bool \<times> gostring" where
  "finishOutput cd b mx tl_mode encoding =
     (let raw = Bytes b;
          trunc = (cb_truncated b \<or> mx < length raw) in
      if encoding = [] then (truncateToLimit raw mx tl_mode, trunc, [])
      else
        (let raw' = (if mx < length raw
                     then (if tl_mode then drop (length raw - mx) raw else take mx raw) else raw) in
         if encoding = ''auto'' \<and> Valid raw' then (raw', trunc, ''utf-8'')
         else
           (let src = (if encoding = ''auto'' then ''gbk'' else encoding) in
            case decodeToUTF8 cd raw' src of
              Inl _ \<Rightarrow> (raw', trunc, [])
            | Inr out \<Rightarrow> (out, trunc, src))))"

section \<open>Writers that summarise a stream\<close>

text \<open>
  The contract a process's output writer has to satisfy: some relation \<open>holds s x\<close> between the
  writer's state and the bytes written so far is true initially, and every write returns, reports all
  bytes as written, and extends the stream.
\<close>

primrec feed :: "('s \<Rightarrow> bytes \<Rightarrow> ('s \<times> nat) option) \<Rightarrow> 's \<Rightarrow> bytes list \<Rightarrow> 's option" where
  "feed wr s [] = Some s"
| "feed wr s (p # ps) = (case wr s p of None \<Rightarrow> None | Some (s', n) \<Rightarrow> feed wr s' ps)"

locale stream_writer =
  fixes init :: "'s" and wr :: "'s \<Rightarrow> bytes \<Rightarrow> ('s \<times> nat) option" and holds :: "'s \<Rightarrow> bytes \<Rightarrow> bool"
  assumes holds_init: "holds init []"
    and holds_write: "holds s x \<Longrightarrow> \<exists>s'. wr s p = Some (s', length p) \<and> holds s' (x @ p)"
begin

lemma feed_holds: "holds s x \<Longrightarrow> \<exists>s'. feed wr s ps = Some s' \<and> holds s' (x @ concat ps)"
proof (induction ps arbitrary: s x)
  case (Cons p ps)
  obtain s' where "wr s p = Some (s', length p)" "holds s' (x @ p)"
    using holds_write [OF Cons.prems] by blast
  with Cons.IH [of s' "x @ p"] show ?case by simp
qed simp

lemma capture_holds: "\<exists>s'. feed wr init ps = Some s' \<and> holds s' (concat ps)"
  using feed_holds [OF holds_init] by simp

end

section \<open>The ring\<close>

definition ring_view :: "bytes \<Rightarrow> nat \<Rightarrow> bytes" where
  "ring_view ring st = drop st ring @ take st ring"

lemma ring_view_step:
  assumes "st < length ring" and "c = min (length ring - st) (length p)"
  shows "ring_view (copy_at ring st p) ((st + c) mod length ring) = drop c (ring_view ring st) @ take c p"
proof (cases "length p < length ring - st")
  case True
  with assms show ?thesis by (simp add: ring_view_def copy_at_def add.commute)
next
  case False
  with assms have "st + c = length ring" by simp
  with False assms show ?thesis by (simp add: ring_view_def copy_at_def)
qed

lemma length_copy_at [simp]: "i \<le> length dst \<Longrightarrow> length (copy_at dst i p) = length dst"
  by (simp add: copy_at_def)

text \<open>The wrapping copy returns, and afterwards the ring holds the most recent bytes.\<close>

lemma ring_copy_returns:
  assumes "st < length ring"
  shows "\<exists>ring' st'. ring_copy (length ring) ring st p = Some (ring', st') \<and>
    length ring' = length ring \<and> st' < length ring \<and>
    ring_view ring' st' = drop (length p) (ring_view ring st @ p)"
  using assms
proof (induction p arbitrary: ring st rule: length_induct)
  case (1 p)
  show ?case
  proof (cases "p = []")
    case True
    then show ?thesis using 1 by (simp add: ring_copy.simps)
  next
    case False
    let ?c = "min (length ring - st) (length p)"
    let ?ring = "copy_at ring st p" and ?st = "(st + ?c) mod length ring" and ?p = "drop ?c p"
    have c: "0 < ?c" using False 1 by simp
    have len: "length ?ring = length ring" using 1 by simp
    have "length ?p < length p" using c by simp
    moreover have "?st < length ?ring" using "1.prems" len by (metis gr_implies_not0 mod_less_divisor neq0_conv)
    ultimately obtain ring' st' where r: "ring_copy (length ?ring) ?ring ?st ?p = Some (ring', st')"
      "length ring' = length ?ring" "st' < length ?ring"
      "ring_view ring' st' = drop (length ?p) (ring_view ?ring ?st @ ?p)" using "1.IH" by blast
    have v: "length (ring_view ring st) = length ring" by (simp add: ring_view_def)
    have "ring_view ?ring ?st @ ?p = drop ?c (ring_view ring st @ p)"
      using ring_view_step [OF "1.prems" refl, of p] v by simp
    moreover have "length ?p + ?c = length p" by simp
    ultimately have "ring_view ring' st' = drop (length p) (ring_view ring st @ p)"
      using r(4) by (metis drop_drop)
    then show ?thesis
      using r(1-3) len False by (subst ring_copy.simps) (simp add: Let_def)
  qed
qed

section \<open>What a capture retains\<close>

text \<open>\<open>last_bytes n x\<close>: the most recent \<open>n\<close> bytes of a stream.\<close>

definition last_bytes :: "nat \<Rightarrow> bytes \<Rightarrow> bytes" where
  "last_bytes n x = drop (length x - n) x"

text \<open>The abstract specification: a capture of the stream \<open>x\<close> retains its first or last \<open>lim\<close>
  bytes and knows its length.\<close>

definition captures :: "nat \<Rightarrow> bool \<Rightarrow> cappedBuffer \<Rightarrow> bytes \<Rightarrow> bool" where
  "captures lim tl_mode b x \<longleftrightarrow>
     cb_limit b = lim \<and> cb_tail b = tl_mode \<and> cb_total b = length x \<and>
     (if \<not> tl_mode then cb_buf b = take lim x
      else if lim = 0 then cb_buf b = [] \<and> \<not> cb_full b
      else if cb_full b then
        length (cb_buf b) = lim \<and> cb_start b < lim \<and> lim \<le> length x \<and>
        ring_view (cb_buf b) (cb_start b) = last_bytes lim x
      else cb_buf b = x \<and> length x \<le> lim)"

lemma last_bytes_append:
  "lim \<le> length x \<Longrightarrow> length p \<le> lim \<Longrightarrow> drop (length p) (last_bytes lim x @ p) = last_bytes lim (x @ p)"
  by (simp add: last_bytes_def add.commute)

lemma ring_view_0 [simp]: "ring_view ring 0 = ring"
  by (simp add: ring_view_def)

lemma Write_head:
  assumes "captures lim False b x"
  shows "\<exists>b'. Write b p = Some (b', length p) \<and> captures lim False b' (x @ p)"
  using assms by (auto simp: Write_def captures_def Let_def take_append min_def)

lemma Write_ring:
  assumes c: "captures lim True b x" and l: "0 < lim" "length p < lim"
    and over: "cb_full b \<or> lim < length (cb_buf b) + length p"
  shows "\<exists>b'. Write b p = Some (b', length p) \<and> captures lim True b' (x @ p)"
proof -
  define fill where "fill = lim - length (cb_buf b)"
  define ring where "ring = (if cb_full b then cb_buf b else cb_buf b @ take fill p)"
  define st where "st = (if cb_full b then cb_start b else 0)"
  define rest where "rest = (if cb_full b then p else drop fill p)"
  have len: "length ring = lim" "st < lim" "cb_limit b = lim" "cb_tail b"
    using c l over by (auto simp: captures_def ring_def st_def fill_def)
  have view: "drop (length rest) (ring_view ring st @ rest) = last_bytes lim (x @ p)"
    using c l over last_bytes_append [of lim x p]
    by (auto simp: captures_def ring_def st_def rest_def fill_def last_bytes_def add.commute)
  obtain ring' st' where r: "ring_copy lim ring st rest = Some (ring', st')" "length ring' = lim"
    "st' < lim" "ring_view ring' st' = last_bytes lim (x @ p)"
    using ring_copy_returns [of st ring rest] len view by auto
  have "Write b p = Some (b\<lparr>cb_total := cb_total b + length p, cb_buf := ring', cb_start := st',
      cb_full := True\<rparr>, length p)"
  proof (cases "cb_full b")
    case True
    with len l r(1) show ?thesis by (simp add: Write_def Let_def ring_def st_def rest_def)
  next
    case False
    with len l over r(1) show ?thesis by (simp add: Write_def Let_def ring_def st_def rest_def fill_def)
  qed
  moreover have "lim \<le> length (x @ p)" using c l over by (auto simp: captures_def split: if_splits)
  ultimately show ?thesis using r(2-) l c by (auto simp: captures_def)
qed

lemma Write_captures:
  assumes "captures lim tl_mode b x"
  shows "\<exists>b'. Write b p = Some (b', length p) \<and> captures lim tl_mode b' (x @ p)"
proof (cases "\<not> tl_mode")
  case True
  with Write_head assms show ?thesis by simp
next
  case False
  then have c: "captures lim True b x" using assms by simp
  consider "lim = 0" | "0 < lim" "lim \<le> length p"
    | "0 < lim" "length p < lim" "cb_full b \<or> lim < length (cb_buf b) + length p"
    | "0 < lim" "length p < lim" "\<not> cb_full b" "length (cb_buf b) + length p \<le> lim" by linarith
  then show ?thesis
  proof cases
    case 3
    with Write_ring [OF c] False show ?thesis by simp
  qed (use c False in \<open>auto simp: Write_def captures_def Let_def last_bytes_def\<close>)
qed

text \<open>\<open>cappedBuffer\<close> is a stream writer.\<close>

interpretation cb: stream_writer "newCappedBuffer lim tl_mode" Write "captures (nat lim) tl_mode"
  for lim tl_mode
proof
  show "captures (nat lim) tl_mode (newCappedBuffer lim tl_mode) []"
    by (simp add: captures_def newCappedBuffer_def)
qed (rule Write_captures)

lemma captures_Bytes:
  "captures lim tl_mode b x \<Longrightarrow> Bytes b = (if tl_mode then last_bytes lim x else take lim x)"
  by (auto simp: captures_def Bytes_def ring_view_def last_bytes_def split: if_splits)

lemma captures_truncated: "captures lim tl_mode b x \<Longrightarrow> cb_truncated b \<longleftrightarrow> lim < length x"
  by (auto simp: captures_def cb_truncated_def split: if_splits)

text \<open>C1: whatever chunks a process writes its output in, every write returns and accepts all its
  bytes, and afterwards the buffer retains exactly the first (head mode) or the most recent (tail
  mode) \<open>lim\<close> bytes of the whole stream, in order, uses at most \<open>lim\<close> bytes of memory, counts every
  byte, and reports truncation exactly when something was dropped.\<close>

theorem cappedBuffer_capture:
  "\<exists>b. feed Write (newCappedBuffer lim tl_mode) chunks = Some b \<and>
     Bytes b = (if tl_mode then last_bytes (nat lim) (concat chunks) else take (nat lim) (concat chunks)) \<and>
     length (cb_buf b) \<le> nat lim \<and> cb_total b = length (concat chunks) \<and>
     (cb_truncated b \<longleftrightarrow> nat lim < length (concat chunks))"
proof -
  obtain b where b: "feed Write (newCappedBuffer lim tl_mode) chunks = Some b"
    "captures (nat lim) tl_mode b (concat chunks)"
    using cb.capture_holds by blast
  moreover have "length (cb_buf b) \<le> nat lim" "cb_total b = length (concat chunks)"
    using b(2) by (auto simp: captures_def split: if_splits)
  ultimately show ?thesis
    by (simp add: captures_Bytes captures_truncated)
qed

section \<open>The rune-safe cut\<close>

lemma head_cut_walk:
  "RuneStart c \<Longrightarrow> list_all cont cs \<Longrightarrow> k \<le> length cs \<Longrightarrow> k \<le> n \<Longrightarrow>
   head_cut (pre @ c # cs @ post) (length pre + k) n = length pre"
proof (induction k arbitrary: n)
  case 0
  then show ?case by (cases n; cases "length pre") (auto simp: nth_append)
next
  case (Suc k)
  then obtain m where m: "n = Suc m" by (cases n) auto
  have "(pre @ c # cs @ post) ! Suc (length pre + k) = cs ! k"
    using Suc.prems(3) by (simp add: nth_append)
  moreover have "cont (cs ! k)" using Suc.prems by (simp add: list_all_length)
  ultimately show ?case using Suc m by (simp add: RuneStart_def)
qed

lemma tail_start_edge: "p \<le> length s \<Longrightarrow> tail_start s p n = p + edge_start n (drop p s)"
proof (induction n arbitrary: p)
  case 0
  then show ?case by (cases "drop p s") auto
next
  case (Suc n)
  show ?case
  proof (cases "p < length s")
    case True
    with Suc.IH [of "Suc p"] show ?thesis
      by (simp add: Cons_nth_drop_Suc [OF True, symmetric])
  qed (use Suc.prems in simp)
qed

lemma head_cut_le: "head_cut s p n \<le> p \<and> p \<le> head_cut s p n + n"
  by (induction s p n rule: head_cut.induct) auto

lemma edge_start_le: "edge_start n s \<le> n \<and> edge_start n s \<le> length s"
  by (induction n s rule: edge_start.induct) auto

text \<open>The rune that holds byte \<open>m\<close> of valid text.\<close>

lemma rune_at:
  "\<forall>r \<in> set rs. good_rune r \<Longrightarrow> m < length (concat rs) \<Longrightarrow>
   \<exists>ms r ms'. rs = ms @ r # ms' \<and> length (concat ms) \<le> m \<and> m < length (concat ms) + length r"
proof (induction rs arbitrary: m)
  case (Cons r rs)
  show ?case
  proof (cases "m < length r")
    case True
    then show ?thesis by (intro exI [of _ "[]"] exI [of _ r] exI [of _ rs]) auto
  next
    case False
    with Cons obtain ms r' ms' where "rs = ms @ r' # ms'" "length (concat ms) \<le> m - length r"
      "m - length r < length (concat ms) + length r'"
      by (metis add_diff_inverse_nat concat.simps(2) length_append list.set_intros(2) nat_add_left_cancel_less)
    with False show ?thesis by (intro exI [of _ "r # ms"] exI [of _ r'] exI [of _ ms']) auto
  qed
qed simp

text \<open>Of valid text, both cuts keep whole runes.\<close>

lemma Valid_head_cut:
  assumes "Valid x" "m < length x" "m < k"
  shows "Valid (take (head_cut (take k x) m (UTFMax - 1)) (take k x))"
proof -
  obtain rs where rs: "x = concat rs" "\<forall>r \<in> set rs. good_rune r"
    using Valid_runes_good [OF assms(1)] by blast
  then obtain ms r ms' where r: "rs = ms @ r # ms'" "length (concat ms) \<le> m"
    "m < length (concat ms) + length r" using rune_at assms(2) by metis
  then obtain c cs where c: "r = c # cs" "RuneStart c" "list_all cont cs" "length r \<le> 4"
    using good_rune_shape rs(2) by (metis in_set_conv_decomp)
  define j where "j = m - length (concat ms)"
  have j: "m = length (concat ms) + j" "j \<le> length cs" "j \<le> UTFMax - 1"
    using r c by (auto simp: j_def UTFMax_def)
  have "take (Suc m) x = concat ms @ c # take j cs"
    using j rs(1) r(1) c(1) by simp
  then have x: "take k x = concat ms @ c # take j cs @ take (k - Suc m) (drop (Suc m) x)"
    using assms(3) by (metis Suc_leI append_Cons append_assoc le_add_diff_inverse take_add)
  have "head_cut (take k x) m (UTFMax - 1) = length (concat ms)"
    unfolding x j(1) using c j by (intro head_cut_walk) (auto simp: list_all_take)
  then have "take (head_cut (take k x) m (UTFMax - 1)) (take k x) = concat ms"
    using x by simp
  then show ?thesis using rs(2) r(1) Valid_concat_good by simp
qed

lemma Valid_edge_start:
  assumes "Valid x" shows "Valid (drop (edge_start (UTFMax - 1) (drop m x)) (drop m x))"
proof -
  obtain rs where rs: "x = concat rs" "\<forall>r \<in> set rs. good_rune r"
    using Valid_runes_good [OF assms] by blast
  obtain p ms where p: "drop m x = p @ concat ms" "list_all cont p" "length p \<le> 3"
    "\<forall>r \<in> set ms. good_rune r"
    using drop_concat_good [OF rs(2), of m] rs(1) by blast
  have "concat ms = [] \<or> RuneStart (hd (concat ms))" using hd_concat_good [OF p(4)] by blast
  then have "edge_start (UTFMax - 1) (p @ concat ms) = length p"
    using p by (intro edge_start_conts) (auto simp: UTFMax_def)
  then show ?thesis using p Valid_concat_good by simp
qed

lemma truncate_head:
  assumes "m < length x" "m + 3 \<le> k" "0 < m"
  shows "\<exists>c. truncateToLimit (take k x) m False = take c x \<and> c \<le> m \<and> m \<le> c + 3 \<and>
    (Valid x \<longrightarrow> Valid (take c x))"
proof -
  let ?c = "head_cut (take k x) m (UTFMax - 1)"
  have c: "?c \<le> m" "m \<le> ?c + 3" using head_cut_le [of "take k x" m "UTFMax - 1"] by (auto simp: UTFMax_def)
  have t: "take ?c (take k x) = take ?c x" using c assms by (simp add: min_def)
  have "truncateToLimit (take k x) m False = take ?c x"
    using assms t by (simp add: truncateToLimit_def)
  moreover have "Valid x \<longrightarrow> Valid (take ?c x)"
    using Valid_head_cut [of x m k] assms t by auto
  ultimately show ?thesis using c by blast
qed

lemma truncate_tail:
  assumes "m < length x" "m + 3 \<le> k" "0 < m"
  shows "\<exists>c. truncateToLimit (last_bytes k x) m True = last_bytes c x \<and> c \<le> m \<and> m \<le> c + 3 \<and>
    (Valid x \<longrightarrow> Valid (last_bytes c x))"
proof -
  let ?l = "last_bytes k x" and ?t = "drop (length x - m) x"
  let ?e = "edge_start (UTFMax - 1) ?t"
  have e: "?e \<le> 3" "?e \<le> m" using edge_start_le [of "UTFMax - 1" ?t] assms by (auto simp: UTFMax_def)
  have l: "m < length ?l" using assms by (simp add: last_bytes_def)
  have t: "drop (length ?l - m) ?l = ?t" using assms by (auto simp: last_bytes_def)
  have "drop (tail_start ?l (length ?l - m) (UTFMax - 1)) ?l = drop ?e (drop (length ?l - m) ?l)"
    using tail_start_edge [of "length ?l - m" ?l "UTFMax - 1"] t
    by (metis add.commute diff_le_self drop_drop)
  then have "truncateToLimit ?l m True = drop ?e ?t"
    using l assms t by (simp add: truncateToLimit_def)
  also have "drop ?e ?t = last_bytes (m - ?e) x"
    using e assms by (simp add: last_bytes_def add.commute)
  finally have "truncateToLimit ?l m True = last_bytes (m - ?e) x" .
  moreover have "Valid x \<longrightarrow> Valid (last_bytes (m - ?e) x)"
    using Valid_edge_start [of x "length x - m"] \<open>drop ?e ?t = last_bytes (m - ?e) x\<close> by simp
  ultimately show ?thesis using e by (intro exI [of _ "m - ?e"]) auto
qed

definition kept_part :: "bool \<Rightarrow> nat \<Rightarrow> bytes \<Rightarrow> bytes" where
  "kept_part tl_mode n x = (if tl_mode then last_bytes n x else take n x)"

lemma finishOutput_stream:
  assumes "0 < m"
  shows "\<exists>b c. feed Write (newCappedBuffer (int (m + UTFMax - 1)) tl_mode) chunks = Some b \<and>
    finishOutput cd b m tl_mode [] = (kept_part tl_mode c (concat chunks), m < length (concat chunks), []) \<and>
    (if length (concat chunks) \<le> m then c = length (concat chunks) else c \<le> m \<and> m \<le> c + 3) \<and>
    (Valid (concat chunks) \<longrightarrow> Valid (kept_part tl_mode c (concat chunks)))"
proof -
  let ?x = "concat chunks" and ?k = "m + UTFMax - 1"
  obtain b where b: "feed Write (newCappedBuffer (int ?k) tl_mode) chunks = Some b"
    "captures (nat (int ?k)) tl_mode b ?x" using cb.capture_holds by blast
  have cap: "captures ?k tl_mode b ?x" using b(2) by (simp only: nat_int)
  have B: "Bytes b = kept_part tl_mode ?k ?x" "cb_truncated b \<longleftrightarrow> ?k < length ?x"
    using captures_Bytes [OF cap] captures_truncated [OF cap] by (auto simp: kept_part_def)
  have k: "m + 3 \<le> ?k" by (simp add: UTFMax_def)
  have len: "length (Bytes b) = min ?k (length ?x)" by (auto simp: B kept_part_def last_bytes_def)
  have tr: "(cb_truncated b \<or> m < length (Bytes b)) = (m < length ?x)"
    using B(2) len k by auto
  then have fin: "finishOutput cd b m tl_mode [] =
      (truncateToLimit (kept_part tl_mode ?k ?x) m tl_mode, m < length ?x, [])"
    by (simp add: finishOutput_def Let_def B(1))
  show ?thesis
  proof (cases "length ?x \<le> m")
    case True
    with fin b(1) show ?thesis
      by (intro exI [of _ b] exI [of _ "length ?x"])
        (auto simp: truncateToLimit_def kept_part_def last_bytes_def UTFMax_def)
  next
    case False
    then obtain c where "truncateToLimit (kept_part tl_mode ?k ?x) m tl_mode = kept_part tl_mode c ?x"
      "c \<le> m" "m \<le> c + 3" "Valid ?x \<longrightarrow> Valid (kept_part tl_mode c ?x)"
      using truncate_head [of m ?x ?k] truncate_tail [of m ?x ?k] k assms
      by (cases tl_mode) (auto simp: kept_part_def)
    with False fin b(1) show ?thesis by (intro exI [of _ b] exI [of _ c]) auto
  qed
qed

text \<open>the text returned for a stream \<open>x\<close> captured with the executor's buffer size.  A stream of at
  most \<open>m\<close> bytes is returned whole.  A longer one is flagged as truncated and the result is a prefix
  (head mode) or suffix (tail mode) of the stream that is at most \<open>m\<close> and at least \<open>m - 3\<close> bytes
  long; when the stream is valid UTF-8, so is the result (no rune is cut in half).\<close>

theorem finishOutput_cut:
  assumes "0 < m"
  shows "\<exists>b c. feed Write (newCappedBuffer (int (m + UTFMax - 1)) tl_mode) chunks = Some b \<and>
    finishOutput cd b m tl_mode [] = (kept_part tl_mode c (concat chunks), m < length (concat chunks), []) \<and>
    (if length (concat chunks) \<le> m then c = length (concat chunks) else c \<le> m \<and> m \<le> c + 3) \<and>
    (Valid (concat chunks) \<longrightarrow> Valid (kept_part tl_mode c (concat chunks)))"
  using assms by (rule finishOutput_stream)

theorem finishOutput_cut_witness:
  "\<exists>cd b c. feed Write (newCappedBuffer (int (4 + UTFMax - 1)) True) [''1234'', ''567''] = Some b \<and>
    finishOutput cd b 4 True [] = (kept_part True c ''1234567'', True, []) \<and> c \<le> 4 \<and> 4 \<le> c + 3"
  using finishOutput_cut [of 4 True "[''1234'', ''567'']" undefined] by fastforce

end
