(* ===== verification/Client_Ip.thy ===== *)
theory Client_Ip
  imports Utf8
begin

text \<open>
  Which client a request is attributed to (\<open>clientip.go\<close>, \<open>remoteHost\<close> of \<open>logging.go\<close>): the key of the
  rate limiter and of the audit log.  \<open>net/netip\<close> and \<open>net.SplitHostPort\<close> of the standard library are
  modelled first: an address is an IPv4 value or an IPv6 value with a zone, parsing and printing are
  as the library does them.
\<close>

section \<open>Addresses (net/netip)\<close>

datatype addr = IPv4 nat | IPv6 nat gostring

record prefix =
  prefixAddr :: addr
  prefixBits :: nat

definition ipv4_octet :: "gostring \<Rightarrow> nat option" where
  "ipv4_octet s =
     (if s = [] \<or> \<not> list_all is_digit s \<or> (1 < length s \<and> hd s = CHR ''0'') \<or> 255 < digits_val s
      then None else Some (digits_val s))"

definition parseIPv4 :: "gostring \<Rightarrow> nat option" where
  "parseIPv4 s =
     (case map ipv4_octet (split_on (CHR ''.'') s) of
        [Some a, Some b, Some c, Some d] \<Rightarrow> Some (((a * 256 + b) * 256 + c) * 256 + d)
      | _ \<Rightarrow> None)"

text \<open>The main loop of \<open>parseIPv6\<close>: the 16-bit groups read so far, the position of the ellipsis among
  them, the rest of the text.  An embedded IPv4 address counts as two groups.\<close>

fun hex_run :: "gostring \<Rightarrow> nat \<times> nat" where
  "hex_run [] = (0, 0)"
| "hex_run (c # cs) =
     (case hex_val c of
        None \<Rightarrow> (0, 0)
      | Some v \<Rightarrow> (let (n, acc) = hex_run cs in (Suc n, v * 16 ^ n + acc)))"

function ipv6_groups ::
  "gostring \<Rightarrow> nat list \<Rightarrow> nat option \<Rightarrow> (nat list \<times> nat option \<times> gostring) option" where
  "ipv6_groups s gs ell =
     (if 8 \<le> length gs then Some (gs, ell, s)
      else
        (let (off, acc) = hex_run s; r = drop off s in
         if off = 0 \<or> 4 < off then None
         else if r \<noteq> [] \<and> hd r = CHR ''.'' then
           (if ell = None \<and> length gs \<noteq> 6 \<or> 8 < length gs + 2 then None
            else (case parseIPv4 s of
                    None \<Rightarrow> None
                  | Some v \<Rightarrow> Some (gs @ [v div 65536, v mod 65536], ell, [])))
         else
           (let gs' = gs @ [acc] in
            case r of
              [] \<Rightarrow> Some (gs', ell, [])
            | c # t \<Rightarrow>
                if c \<noteq> CHR '':'' \<or> t = [] then None
                else if hd t = CHR '':'' then
                  (if ell \<noteq> None then None
                   else if tl t = [] then Some (gs', Some (length gs'), [])
                   else ipv6_groups (tl t) gs' (Some (length gs')))
                else ipv6_groups t gs' ell)))"
  by pat_completeness auto
termination
  by (relation "measure (\<lambda>(s, gs, ell). 8 - length gs)") auto

declare ipv6_groups.simps [simp del]

definition groups_val :: "nat list \<Rightarrow> nat" where
  "groups_val gs = foldl (\<lambda>v g. v * 65536 + g) 0 gs"

definition parseIPv6 :: "gostring \<Rightarrow> addr option" where
  "parseIPv6 inp =
     (let (s, zone, bad) =
            (case IndexByte inp (CHR ''%'') of
               None \<Rightarrow> (inp, [], False)
             | Some i \<Rightarrow> (take i inp, drop (Suc i) inp, drop (Suc i) inp = []));
          lead = HasPrefix s ''::'';
          s' = (if lead then drop 2 s else s) in
      if bad then None
      else if lead \<and> s' = [] then Some (IPv6 0 zone)
      else
        (case ipv6_groups s' [] (if lead then Some 0 else None) of
           None \<Rightarrow> None
         | Some (gs, ell, rest) \<Rightarrow>
             if rest \<noteq> [] then None
             else if length gs < 8 then
               (case ell of
                  None \<Rightarrow> None
                | Some e \<Rightarrow>
                    Some (IPv6 (groups_val (take e gs @ replicate (8 - length gs) 0 @ drop e gs)) zone))
             else if ell \<noteq> None then None
             else Some (IPv6 (groups_val gs) zone)))"

text \<open>\<open>ParseAddr\<close> decides by the first dot, colon or percent sign.\<close>

definition ParseAddr :: "gostring \<Rightarrow> addr option" where
  "ParseAddr s =
     (case dropWhile (\<lambda>c. c \<notin> {CHR ''.'', CHR '':'', CHR ''%''}) s of
        [] \<Rightarrow> None
      | c # _ \<Rightarrow> if c = CHR ''.'' then map_option IPv4 (parseIPv4 s)
                 else if c = CHR '':'' then parseIPv6 s
                 else None)"

fun Zone :: "addr \<Rightarrow> gostring" where
  "Zone (IPv4 v) = []"
| "Zone (IPv6 v z) = z"

fun withoutZone :: "addr \<Rightarrow> addr" where
  "withoutZone (IPv4 v) = IPv4 v"
| "withoutZone (IPv6 v z) = IPv6 v []"

fun Is4In6 :: "addr \<Rightarrow> bool" where
  "Is4In6 (IPv4 v) = False"
| "Is4In6 (IPv6 v z) = (v div 2 ^ 32 = 0xFFFF)"

fun Unmap :: "addr \<Rightarrow> addr" where
  "Unmap (IPv4 v) = IPv4 v"
| "Unmap (IPv6 v z) = (if v div 2 ^ 32 = 0xFFFF then IPv4 (v mod 2 ^ 32) else IPv6 v z)"

fun BitLen :: "addr \<Rightarrow> nat" where
  "BitLen (IPv4 v) = 32"
| "BitLen (IPv6 v z) = 128"

definition ParsePrefix :: "gostring \<Rightarrow> prefix option" where
  "ParsePrefix s =
     (case LastIndexByte s (CHR ''/'') of
        None \<Rightarrow> None
      | Some i \<Rightarrow>
          (let bitsStr = drop (Suc i) s in
           case ParseAddr (take i s) of
             None \<Rightarrow> None
           | Some ip \<Rightarrow>
               if Zone ip \<noteq> [] then None
               else if 1 < length bitsStr \<and> (bval (hd bitsStr) < 49 \<or> 57 < bval (hd bitsStr)) then None
               else (case Atoi bitsStr of
                       None \<Rightarrow> None
                     | Some bits \<Rightarrow>
                         if bits < 0 \<or> int (BitLen ip) < bits then None
                         else Some \<lparr>prefixAddr = ip, prefixBits = nat bits\<rparr>)))"

definition mask_low :: "nat \<Rightarrow> nat \<Rightarrow> nat" where
  "mask_low n v = v div 2 ^ n * 2 ^ n"

definition Masked :: "prefix \<Rightarrow> prefix" where
  "Masked p =
     (case prefixAddr p of
        IPv4 v \<Rightarrow> p\<lparr>prefixAddr := IPv4 (mask_low (32 - prefixBits p) v)\<rparr>
      | IPv6 v z \<Rightarrow> p\<lparr>prefixAddr := IPv6 (mask_low (128 - prefixBits p) v) []\<rparr>)"

text \<open>An address with a zone, or of the other family, is in no prefix.\<close>

definition prefixContains :: "prefix \<Rightarrow> addr \<Rightarrow> bool" where
  "prefixContains p ip =
     (case (prefixAddr p, ip) of
        (IPv4 v, IPv4 w) \<Rightarrow> v div 2 ^ (32 - prefixBits p) = w div 2 ^ (32 - prefixBits p)
      | (IPv6 v _, IPv6 w z) \<Rightarrow> z = [] \<and> v div 2 ^ (128 - prefixBits p) = w div 2 ^ (128 - prefixBits p)
      | _ \<Rightarrow> False)"

definition ipv4_text :: "nat \<Rightarrow> gostring" where
  "ipv4_text v =
     join ''.'' (map nat_digits [v div 2 ^ 24 mod 256, v div 2 ^ 16 mod 256, v div 2 ^ 8 mod 256, v mod 256])"

text \<open>Printing an IPv6 address: the first longest run of at least two zero groups becomes \<open>::\<close>.\<close>

fun zero_run :: "nat list \<Rightarrow> nat" where
  "zero_run [] = 0"
| "zero_run (g # gs) = (if g = 0 then Suc (zero_run gs) else 0)"

fun best_run :: "nat \<Rightarrow> nat list \<Rightarrow> nat \<times> nat \<Rightarrow> nat \<times> nat" where
  "best_run i [] best = best"
| "best_run i (g # gs) (at, l) =
     (let r = zero_run (g # gs) in best_run (Suc i) gs (if 2 \<le> r \<and> l < r then (i, r) else (at, l)))"

definition ipv6_text :: "nat \<Rightarrow> gostring" where
  "ipv6_text v =
     (let gs = map (\<lambda>k. v div 2 ^ (16 * (7 - k)) mod 65536) [0..<8];
          (at, l) = best_run 0 gs (0, 0);
          txt = (\<lambda>hs. join '':'' (map hex_text hs))
      in if l = 0 then txt gs else txt (take at gs) @ ''::'' @ txt (drop (at + l) gs))"

fun addrString :: "addr \<Rightarrow> gostring" where
  "addrString (IPv4 v) = ipv4_text v"
| "addrString (IPv6 v z) =
     (if v div 2 ^ 32 = 0xFFFF then ''::ffff:'' @ ipv4_text (v mod 2 ^ 32) else ipv6_text v)
       @ (if z = [] then [] else ''%'' @ z)"

section \<open>clientip.go\<close>

text \<open>\<open>net.SplitHostPort\<close>, the host part; \<open>None\<close> is any of its errors.\<close>

definition splitHost :: "gostring \<Rightarrow> gostring option" where
  "splitHost hostport =
     (case LastIndexByte hostport (CHR '':'') of
        None \<Rightarrow> None
      | Some i \<Rightarrow>
          if hd hostport = CHR ''['' then
            (case IndexByte hostport (CHR '']'') of
               None \<Rightarrow> None
             | Some e \<Rightarrow>
                 if e + 1 \<noteq> i then None
                 else if CHR ''['' \<in> set (drop 1 hostport) \<or> CHR '']'' \<in> set (drop (e + 1) hostport) then None
                 else Some (drop 1 (take e hostport)))
          else if CHR '':'' \<in> set (take i hostport) then None
          else if CHR ''['' \<in> set hostport \<or> CHR '']'' \<in> set hostport then None
          else Some (take i hostport))"

definition remoteHost :: "gostring \<Rightarrow> gostring" where
  "remoteHost remoteAddr = (case splitHost remoteAddr of None \<Rightarrow> remoteAddr | Some h \<Rightarrow> h)"

datatype proxy_error = InvalidProxy gostring | MappedPrefixTooShort gostring

text \<open>One entry of the list; \<open>Inr None\<close> for an empty one.\<close>

definition parseTrustedProxy :: "gostring \<Rightarrow> proxy_error + prefix option" where
  "parseTrustedProxy raw =
     (let entry = TrimSpace raw in
      if entry = [] then Inr None
      else
        (let plain_addr = (case ParseAddr entry of Some a \<Rightarrow> if Zone a = [] then Some a else None | None \<Rightarrow> None) in
         case plain_addr of
           Some a \<Rightarrow> (let u = Unmap a in Inr (Some \<lparr>prefixAddr = u, prefixBits = BitLen u\<rparr>))
         | None \<Rightarrow>
             (case ParsePrefix entry of
                None \<Rightarrow> Inl (InvalidProxy entry)
              | Some p \<Rightarrow>
                  if Is4In6 (prefixAddr p) then
                    (if prefixBits p < 96 then Inl (MappedPrefixTooShort entry)
                     else Inr (Some (Masked \<lparr>prefixAddr = Unmap (prefixAddr p),
                                             prefixBits = prefixBits p - 96\<rparr>)))
                  else Inr (Some (Masked p)))))"

fun parse_proxies :: "gostring list \<Rightarrow> proxy_error + prefix list" where
  "parse_proxies [] = Inr []"
| "parse_proxies (e # es) =
     (case parseTrustedProxy e of
        Inl err \<Rightarrow> Inl err
      | Inr r \<Rightarrow>
          (case parse_proxies es of
             Inl err \<Rightarrow> Inl err
           | Inr ps \<Rightarrow> Inr (case r of None \<Rightarrow> ps | Some p \<Rightarrow> p # ps)))"

definition parseTrustedProxies :: "gostring \<Rightarrow> proxy_error + prefix list" where
  "parseTrustedProxies value = parse_proxies (split_on (CHR '','') value)"

definition isTrustedProxy :: "addr \<Rightarrow> prefix list \<Rightarrow> bool" where
  "isTrustedProxy a prefixes = list_ex (\<lambda>p. prefixContains p a) prefixes"

definition peerClientIP :: "gostring \<Rightarrow> addr option \<times> gostring" where
  "peerClientIP remoteAddr =
     (let host = remoteHost remoteAddr in
      case ParseAddr host of
        None \<Rightarrow> (None, host)
      | Some a \<Rightarrow> (let a' = Unmap (withoutZone a) in (Some a', addrString a')))"

definition forwardedIP :: "gostring \<Rightarrow> addr option" where
  "forwardedIP value =
     (case ParseAddr (TrimSpace value) of
        None \<Rightarrow> None
      | Some a \<Rightarrow> if Zone a \<noteq> [] then None else Some (Unmap a))"

text \<open>The parts of an \<open>http.Request\<close> that matter: the TCP peer and the values of the two headers.\<close>

record request =
  RemoteAddr :: gostring
  XForwardedFor :: "gostring list"
  XRealIP :: "gostring list"

fun forwarded_chain :: "gostring list \<Rightarrow> addr list option" where
  "forwarded_chain [] = Some []"
| "forwarded_chain (hop # hops) =
     (case forwardedIP hop of
        None \<Rightarrow> None
      | Some a \<Rightarrow> map_option (\<lambda>as. a # as) (forwarded_chain hops))"

text \<open>The loop from the hop nearest the server; \<open>chain_walk\<close> takes the chain nearest first.\<close>

fun chain_walk :: "prefix list \<Rightarrow> addr list \<Rightarrow> addr option" where
  "chain_walk trusted [] = None"
| "chain_walk trusted (a # as) =
     (if \<not> isTrustedProxy a trusted \<or> as = [] then Some a else chain_walk trusted as)"

definition xff_hops :: "request \<Rightarrow> gostring list" where
  "xff_hops r = concat (map (split_on (CHR '','')) (XForwardedFor r))"

definition resolveClientIP :: "request \<Rightarrow> prefix list \<Rightarrow> gostring" where
  "resolveClientIP r trusted =
     (let (peerAddr, peer) = peerClientIP (RemoteAddr r) in
      case peerAddr of
        None \<Rightarrow> peer
      | Some pa \<Rightarrow>
          if \<not> isTrustedProxy pa trusted then peer
          else if XForwardedFor r \<noteq> [] then
            (case forwarded_chain (xff_hops r) of
               None \<Rightarrow> peer
             | Some chain \<Rightarrow>
                 (case chain_walk trusted (rev chain) of Some a \<Rightarrow> addrString a | None \<Rightarrow> peer))
          else
            (case XRealIP r of
               [v] \<Rightarrow> (case forwardedIP v of Some a \<Rightarrow> addrString a | None \<Rightarrow> peer)
             | _ \<Rightarrow> peer))"

section \<open>Properties\<close>

lemma forwarded_chain_append:
  "forwarded_chain xs = Some as \<Longrightarrow> forwarded_chain ys = Some bs \<Longrightarrow>
   forwarded_chain (xs @ ys) = Some (as @ bs)"
  by (induction xs arbitrary: as) (auto split: option.splits)

lemma chain_walk_untrusted:
  "\<forall>b \<in> set bs. isTrustedProxy b trusted \<Longrightarrow> \<not> isTrustedProxy a trusted \<Longrightarrow>
   chain_walk trusted (bs @ a # as) = Some a"
  by (induction bs) auto

lemma forwarded_chain_Some:
  "forwarded_chain hops = Some as \<longleftrightarrow> map forwardedIP hops = map Some as"
  by (induction hops arbitrary: as) (auto split: option.splits)

text \<open>forwarding headers from a peer that is not a trusted proxy are ignored: the request is
  attributed to the TCP peer whatever headers it carries.\<close>

theorem resolveClientIP_untrusted_peer:
  assumes "peerClientIP (RemoteAddr r) = (pa, peer)"
    and "\<And>a. pa = Some a \<Longrightarrow> \<not> isTrustedProxy a trusted"
  shows "resolveClientIP r trusted = peer"
  using assms by (cases pa) (auto simp: resolveClientIP_def)

text \<open>C38: behind trusted proxies, the request is attributed to the forwarded hop nearest to the server
  that is not itself a trusted proxy; everything to its left, which that hop can write freely
  (including further header lines), has no influence as long as it parses.\<close>

theorem resolveClientIP_nearest_untrusted:
  assumes peer: "peerClientIP (RemoteAddr r) = (Some pa, peer)" "isTrustedProxy pa trusted"
    and hops: "xff_hops r = spoofed @ hop # proxies"
    and parse: "forwarded_chain spoofed = Some as" "forwardedIP hop = Some a"
      "forwarded_chain proxies = Some bs"
    and trust: "\<not> isTrustedProxy a trusted" "\<forall>b \<in> set bs. isTrustedProxy b trusted"
  shows "resolveClientIP r trusted = addrString a"
proof -
  have "forwarded_chain (xff_hops r) = Some (as @ a # bs)"
    using hops parse by (intro forwarded_chain_append [of spoofed as "hop # proxies", folded hops]) auto
  moreover have "XForwardedFor r \<noteq> []" using hops by (auto simp: xff_hops_def)
  moreover have "chain_walk trusted (rev (as @ a # bs)) = Some a"
    using chain_walk_untrusted [of "rev bs" trusted a "rev as"] trust by simp
  ultimately show ?thesis using peer by (simp add: resolveClientIP_def)
qed

lemma prefixContains_full:
  "Zone u = [] \<Longrightarrow> prefixContains \<lparr>prefixAddr = u, prefixBits = BitLen u\<rparr> a \<longleftrightarrow> a = u"
  by (cases u; cases a) (auto simp: prefixContains_def)

text \<open>every prefix accepted as a trusted proxy matches the address forms that peers are
  normalised to: an entry that is an address trusts exactly that address, and an IPv4-mapped IPv6
  address is trusted exactly when its IPv4 form is.\<close>

theorem parseTrustedProxy_address:
  assumes "ParseAddr (TrimSpace e) = Some a" "Zone a = []"
  shows "\<exists>p. parseTrustedProxy e = Inr (Some p) \<and> (\<forall>b. prefixContains p (Unmap b) \<longleftrightarrow> Unmap b = Unmap a)"
proof -
  have "TrimSpace e \<noteq> []" using assms(1) by (auto simp: ParseAddr_def)
  then have "parseTrustedProxy e = Inr (Some \<lparr>prefixAddr = Unmap a, prefixBits = BitLen (Unmap a)\<rparr>)"
    using assms by (simp add: parseTrustedProxy_def Let_def)
  moreover have "Zone (Unmap a) = []" using assms(2) by (cases a) auto
  ultimately show ?thesis by (simp add: prefixContains_full)
qed

section \<open>Examples\<close>

lemmas ip_eval = ParseAddr_def parseIPv4_def ipv4_octet_def is_digit_def digits_val_def bval_def
  peerClientIP_def remoteHost_def splitHost_def HasPrefix_def ipv4_text_def nat_digits.simps
  char_of_def Let_def

lemma peer_example: "peerClientIP ''10.0.0.1:5'' = (Some (IPv4 167772161), ''10.0.0.1'')"
  by (simp add: ip_eval bit_0)

lemma TrimSpace_examples:
  "TrimSpace ''8.8.8.8'' = ''8.8.8.8''" "TrimSpace ''1.2.3.4'' = ''1.2.3.4''" "TrimSpace ''10.0.0.2'' = ''10.0.0.2''"
  by (rule TrimSpace_ascii_word; simp add: isASCII_def bval_def is_space_def)+

lemma forwarded_examples:
  "forwardedIP ''8.8.8.8'' = Some (IPv4 134744072)" "forwardedIP ''1.2.3.4'' = Some (IPv4 16909060)"
  "forwardedIP ''10.0.0.2'' = Some (IPv4 167772162)"
  by (simp_all add: forwardedIP_def TrimSpace_examples ip_eval)

theorem resolveClientIP_untrusted_peer_witness:
  "resolveClientIP \<lparr>RemoteAddr = ''10.0.0.1:5'', XForwardedFor = [''8.8.8.8''], XRealIP = []\<rparr> [] = ''10.0.0.1''"
  by (rule resolveClientIP_untrusted_peer) (simp_all add: peer_example isTrustedProxy_def)

theorem resolveClientIP_nearest_untrusted_witness:
  "resolveClientIP \<lparr>RemoteAddr = ''10.0.0.1:5'', XForwardedFor = [''8.8.8.8,1.2.3.4,10.0.0.2''], XRealIP = []\<rparr>
     [\<lparr>prefixAddr = IPv4 167772160, prefixBits = 8\<rparr>] = addrString (IPv4 16909060)"
  by (rule resolveClientIP_nearest_untrusted
      [where spoofed = "[''8.8.8.8'']" and hop = "''1.2.3.4''" and proxies = "[''10.0.0.2'']" and pa = "IPv4 167772161" and peer = "''10.0.0.1''"
        and as = "[IPv4 134744072]" and bs = "[IPv4 167772162]"])
    (simp_all add: peer_example forwarded_examples isTrustedProxy_def prefixContains_def xff_hops_def)

theorem parseTrustedProxy_address_witness:
  "\<exists>p. parseTrustedProxy ''1.2.3.4'' = Inr (Some p) \<and>
       (\<forall>b. prefixContains p (Unmap b) \<longleftrightarrow> Unmap b = Unmap (IPv4 16909060))"
  by (rule parseTrustedProxy_address) (simp_all add: TrimSpace_examples ip_eval)

end
