(* ===== verification/Server_Config.thy ===== *)
theory Server_Config
  imports Client_Ip Paths "HOL-Library.List_Lexorder"
begin

text \<open>
  Configuration and read-only mode (\<open>config.go\<close>, \<open>readonly.go\<close>).  The environment is a function from
  variable names to values (empty when unset), the process-wide read-only latch is a boolean that
  \<open>applyReadOnly\<close> threads through, and \<open>log.Fatalf\<close> is an error result.  A compiled regular
  expression is its pattern; the \<open>regexp\<close> package is the record \<open>regexps\<close>, a parameter.
\<close>

section \<open>Read-only mode (readonly.go)\<close>

definition readOnlyTools :: "gostring list" where
  "readOnlyTools =
     [''remote_read_file'', ''remote_read_files'', ''remote_list_dir'', ''remote_stat'',
      ''remote_search_content'', ''remote_find_files'', ''remote_tail_log'', ''remote_diff'',
      ''remote_download_base64'', ''remote_list_processes'', ''remote_check_port'',
      ''remote_get_env_info'', ''remote_status'']"

definition allToolNames :: "gostring list" where
  "allToolNames =
     [''remote_execute'', ''remote_session_execute'', ''remote_cancel'', ''remote_status'',
      ''remote_session_create'', ''remote_session_list'', ''remote_session_close'',
      ''remote_list_processes'', ''remote_check_port'', ''remote_get_env_info'', ''remote_read_file'',
      ''remote_read_files'', ''remote_write_file'', ''remote_edit_file'', ''remote_list_dir'',
      ''remote_stat'', ''remote_upload_base64'', ''remote_download_base64'', ''remote_search_content'',
      ''remote_find_files'', ''remote_tail_log'', ''remote_diff'', ''remote_move_file'',
      ''remote_copy_file'', ''remote_delete_file'', ''remote_make_dir'', ''remote_spawn'',
      ''remote_job_status'', ''remote_job_list'', ''remote_job_logs'', ''remote_job_kill'',
      ''remote_wait_for'', ''remote_execution_result'']"

text \<open>The error of a refused operation names it.\<close>

datatype read_only_error = ErrReadOnly gostring

definition guardReadOnly :: "bool \<Rightarrow> gostring \<Rightarrow> read_only_error option" where
  "guardReadOnly latch op = (if latch then Some (ErrReadOnly op) else None)"

definition readOnlyDisabledTools :: "gostring list" where
  "readOnlyDisabledTools = sort (filter (\<lambda>n. n \<notin> set readOnlyTools) allToolNames)"

definition parseReadOnly :: "gostring \<Rightarrow> bool" where
  "parseReadOnly v \<longleftrightarrow> ToLower (TrimSpace v) \<in> {''1'', ''true'', ''yes'', ''on'', ''enabled''}"

definition sortedReadOnlyToolNames :: "gostring list" where
  "sortedReadOnlyToolNames = sort readOnlyTools"

section \<open>Configuration (config.go)\<close>

record Config =
  Port :: gostring
  Token :: gostring
  TokenHash :: gostring
  TLSCert :: gostring
  TLSKey :: gostring
  MaxTimeout :: int
  MaxOutput :: int
  RateLimit :: int
  RateBurst :: int
  DefaultShell :: gostring
  TrustedProxies :: "prefix list"
  LogLevel :: gostring
  MCPHeartbeat :: nanos
  ShutdownGrace :: nanos
  CallBudget :: nanos
  JobDir :: gostring
  DenyCommand :: "gostring option"
  FSRoots :: "gostring list"
  DisabledTools :: "gostring list"
  ReadOnly :: bool

record regexps =
  reCompiles :: "gostring \<Rightarrow> bool"
  reFindIndex :: "gostring \<Rightarrow> gostring \<Rightarrow> (nat \<times> nat) option"

type_synonym environ = "gostring \<Rightarrow> gostring"

datatype fatal = FatalTrustedProxies proxy_error | FatalDenyCommands gostring

definition defaultCallBudgetSec :: int where [go_defs]: "defaultCallBudgetSec = 50"

definition callBudget :: "Config option \<Rightarrow> nanos" where
  "callBudget c =
     (case c of
        None \<Rightarrow> defaultCallBudgetSec * Second
      | Some cfg \<Rightarrow> if CallBudget cfg \<le> 0 then defaultCallBudgetSec * Second else CallBudget cfg)"

definition callBudgetSec :: "Config option \<Rightarrow> int" where
  "callBudgetSec c = quo (callBudget c) Second"

definition getEnv :: "environ \<Rightarrow> gostring \<Rightarrow> gostring \<Rightarrow> gostring" where
  "getEnv env key fallback = (if env key \<noteq> [] then env key else fallback)"

definition getEnvInt :: "environ \<Rightarrow> gostring \<Rightarrow> int \<Rightarrow> int" where
  "getEnvInt env key fallback =
     (if env key \<noteq> [] then (case Atoi (env key) of Some i \<Rightarrow> i | None \<Rightarrow> fallback) else fallback)"

definition jumpHostPattern :: gostring where
  "jumpHostPattern =
     ''(?:^|[;&|()'' @ [CHR 0x60] @ [CHR 0x5C] @ ''n]|'' @ [CHR 0x5C] @ ''$'' @ [CHR 0x5C] @ ''()'' @ [CHR 0x5C]
       @ ''s*(?:sudo'' @ [CHR 0x5C] @ ''s+)?(?:gssh|ssh|scp|sftp|sshpass)(?:'' @ [CHR 0x5C] @ ''s|$)''"

definition buildDenyPattern :: "regexps \<Rightarrow> gostring \<Rightarrow> bool \<Rightarrow> fatal + gostring option" where
  "buildDenyPattern re custom blockJump =
     (let c = TrimSpace custom;
          jump = (if blockJump then [jumpHostPattern] else []) in
      if c \<noteq> [] \<and> \<not> reCompiles re c then Inl (FatalDenyCommands c)
      else
        (let parts = jump @ (if c \<noteq> [] then [''(?:'' @ c @ '')''] else [])
         in Inr (if parts = [] then None else Some (join ''|'' parts))))"

definition applyReadOnly :: "bool \<Rightarrow> Config \<Rightarrow> bool \<Rightarrow> Config \<times> bool" where
  "applyReadOnly enabled c latch =
     (if \<not> enabled then (c, latch)
      else (c\<lparr>ReadOnly := True, DisabledTools := DisabledTools c @ readOnlyDisabledTools\<rparr>, True))"

definition toolEnabled :: "Config \<Rightarrow> gostring \<Rightarrow> bool" where
  "toolEnabled c name =
     (if ReadOnly c \<and> name \<notin> set readOnlyTools then False else name \<notin> set (DisabledTools c))"

text \<open>A comma-separated list: trimmed entries, empty ones dropped.\<close>

definition csv :: "gostring \<Rightarrow> gostring list" where
  "csv v = filter (\<lambda>p. p \<noteq> []) (map TrimSpace (split_on (CHR '','') v))"

text \<open>Milliseconds and seconds from the environment become durations by a 64-bit product.\<close>

definition seconds :: "int \<Rightarrow> nanos" where
  "seconds n = i64 (n * Second)"

definition LoadConfig ::
  "regexps \<Rightarrow> gostring \<Rightarrow> environ \<Rightarrow> bool \<Rightarrow> fatal + (Config \<times> bool)" where
  "LoadConfig re tempDir env latch =
     (case parseTrustedProxies (getEnv env ''SHELL_API_TRUSTED_PROXIES'' []) of
        Inl e \<Rightarrow> Inl (FatalTrustedProxies e)
      | Inr trusted \<Rightarrow>
          (let b = getEnvInt env ''SHELL_API_CALL_BUDGET'' defaultCallBudgetSec;
               budget = (if 0 < b then seconds b else defaultCallBudgetSec * Second) in
           case buildDenyPattern re (getEnv env ''SHELL_API_DENY_COMMANDS'' [])
                  (parseReadOnly (getEnv env ''SHELL_API_BLOCK_JUMP_HOST'' [])) of
             Inl e \<Rightarrow> Inl e
           | Inr deny \<Rightarrow>
               (let cfg =
                  \<lparr>Port = getEnv env ''SHELL_API_PORT'' ''8080'',
                   Token = getEnv env ''SHELL_API_TOKEN'' [],
                   TokenHash = getEnv env ''SHELL_API_TOKEN_HASH'' [],
                   TLSCert = getEnv env ''SHELL_API_TLS_CERT'' [],
                   TLSKey = getEnv env ''SHELL_API_TLS_KEY'' [],
                   MaxTimeout = getEnvInt env ''SHELL_API_MAX_TIMEOUT'' 300,
                   MaxOutput = getEnvInt env ''SHELL_API_MAX_OUTPUT'' 1048576,
                   RateLimit = getEnvInt env ''SHELL_API_RATE_LIMIT'' 120,
                   RateBurst = getEnvInt env ''SHELL_API_RATE_BURST'' 60,
                   DefaultShell = getEnv env ''SHELL_API_DEFAULT_SHELL'' ''bash'',
                   TrustedProxies = trusted,
                   LogLevel = getEnv env ''SHELL_API_LOG_LEVEL'' ''info'',
                   MCPHeartbeat = seconds (getEnvInt env ''SHELL_API_MCP_HEARTBEAT'' 30),
                   ShutdownGrace = seconds (getEnvInt env ''SHELL_API_SHUTDOWN_GRACE'' 30),
                   CallBudget = budget,
                   JobDir = getEnv env ''SHELL_API_JOB_DIR'' (Join [tempDir, ''remote-agent-proxy-jobs'']),
                   DenyCommand = deny,
                   FSRoots = map Clean (csv (getEnv env ''SHELL_API_FS_ROOT'' [])),
                   DisabledTools = csv (getEnv env ''SHELL_API_DISABLED_TOOLS'' []),
                   ReadOnly = False\<rparr>
                in Inr (applyReadOnly (parseReadOnly (env ''SHELL_API_READONLY'')) cfg latch))))"

section \<open>The deny policy (executor.go)\<close>

datatype deny_error = CommandDenied gostring bool

text \<open>The error names the trimmed match; the flag says whether the jump-host explanation is added.\<close>

definition checkCommand :: "regexps \<Rightarrow> Config option \<Rightarrow> gostring \<Rightarrow> deny_error option" where
  "checkCommand re c command =
     (case c of
        None \<Rightarrow> None
      | Some cfg \<Rightarrow>
          (case DenyCommand cfg of
             None \<Rightarrow> None
           | Some pat \<Rightarrow>
               (case reFindIndex re pat command of
                  None \<Rightarrow> None
                | Some (i, j) \<Rightarrow>
                    (let m = TrimSpace (TrimLeft (drop i (take j command))
                               ('';&|()'' @ [CHR 0x60] @ ''$'' @ [nl] @ '' ''))
                     in Some (CommandDenied m (Contains m ''ssh'' \<or> Contains m ''scp'' \<or> Contains m ''sftp''))))))"

section \<open>Properties\<close>

lemma set_readOnlyDisabledTools:
  "set readOnlyDisabledTools = set allToolNames - set readOnlyTools"
  by (auto simp: readOnlyDisabledTools_def)

lemma applyReadOnly_mono:
  "ReadOnly c \<Longrightarrow> ReadOnly (fst (applyReadOnly b c latch))"
  "latch \<Longrightarrow> snd (applyReadOnly b c latch)"
  "toolEnabled (fst (applyReadOnly b c latch)) n \<Longrightarrow> toolEnabled c n"
  by (auto simp: applyReadOnly_def toolEnabled_def split: if_splits)

text \<open>A history of further configuration passes.\<close>

definition config_passes :: "bool list \<Rightarrow> Config \<times> bool \<Rightarrow> Config \<times> bool" where
  "config_passes bs cl = fold (\<lambda>b (c, l). applyReadOnly b c l) bs cl"

lemma config_passes_mono:
  "ReadOnly c \<Longrightarrow> l \<Longrightarrow> ReadOnly (fst (config_passes bs (c, l))) \<and> snd (config_passes bs (c, l))"
proof (induction bs arbitrary: c l)
  case (Cons b bs)
  obtain c' l' where a: "applyReadOnly b c l = (c', l')" by (cases "applyReadOnly b c l")
  have "ReadOnly c'" "l'" using applyReadOnly_mono(1) [OF Cons.prems(1), of b l]
      applyReadOnly_mono(2) [OF Cons.prems(2), of b c] a by auto
  with Cons.IH [of c' l'] a show ?case by (simp add: config_passes_def)
qed (simp add: config_passes_def)

lemma toolEnabled_ReadOnly: "ReadOnly c \<Longrightarrow> toolEnabled c n \<Longrightarrow> n \<in> set readOnlyTools"
  by (auto simp: toolEnabled_def split: if_splits)

lemma latched_start:
  assumes "parseReadOnly (env ''SHELL_API_READONLY'')" "LoadConfig re tempDir env latch = Inr cl"
  shows "ReadOnly (fst (config_passes bs cl))" "snd (config_passes bs cl)"
proof -
  have "ReadOnly (fst cl)" "snd cl"
    using assms by (auto simp: LoadConfig_def Let_def applyReadOnly_def split: sum.splits)
  then show "ReadOnly (fst (config_passes bs cl))" "snd (config_passes bs cl)"
    by (metis config_passes_mono prod.collapse)+
qed

text \<open>read-only mode cannot be turned off or worked around.  When the environment asks for it and
  the server starts, then after any further configuration passes the operation guard refuses every
  operation, and a tool is registered only if it is one of the audited read tools: unknown tools and
  every tool outside the allow-list are denied whatever the other settings are.\<close>

theorem read_only_latched:
  assumes "parseReadOnly (env ''SHELL_API_READONLY'')"
    and "LoadConfig re tempDir env latch = Inr cl"
  shows "\<exists>c. config_passes bs cl = (c, True) \<and>
    (\<forall>op. guardReadOnly (snd (config_passes bs cl)) op = Some (ErrReadOnly op)) \<and>
    (\<forall>n. toolEnabled c n \<longrightarrow> n \<in> set readOnlyTools)"
  using latched_start [OF assms, of bs]
  by (cases "config_passes bs cl") (auto simp: guardReadOnly_def dest: toolEnabled_ReadOnly)

text \<open>the operator's deny regex is never silently dropped: a pattern that does not compile stops the
  start, and otherwise every enabled control is an alternative of the one pattern that commands are
  checked against.\<close>

theorem deny_pattern_kept:
  assumes "LoadConfig re tempDir env latch = Inr (c, l)"
    and "TrimSpace (env ''SHELL_API_DENY_COMMANDS'') \<noteq> [] \<or> parseReadOnly (env ''SHELL_API_BLOCK_JUMP_HOST'')"
  shows "\<exists>parts. DenyCommand c = Some (join ''|'' parts) \<and>
    (TrimSpace (env ''SHELL_API_DENY_COMMANDS'') \<noteq> [] \<longrightarrow>
       reCompiles re (TrimSpace (env ''SHELL_API_DENY_COMMANDS'')) \<and>
       ''(?:'' @ TrimSpace (env ''SHELL_API_DENY_COMMANDS'') @ '')'' \<in> set parts) \<and>
    (parseReadOnly (env ''SHELL_API_BLOCK_JUMP_HOST'') \<longrightarrow> jumpHostPattern \<in> set parts)"
proof -
  have [simp]: "getEnv env k [] = env k" for k by (simp add: getEnv_def)
  obtain d where d: "buildDenyPattern re (env ''SHELL_API_DENY_COMMANDS'')
      (parseReadOnly (env ''SHELL_API_BLOCK_JUMP_HOST'')) = Inr d" "DenyCommand c = d"
    using assms(1) by (auto simp: LoadConfig_def Let_def applyReadOnly_def split: sum.splits if_splits)
  let ?c = "TrimSpace (env ''SHELL_API_DENY_COMMANDS'')"
  let ?parts = "(if parseReadOnly (env ''SHELL_API_BLOCK_JUMP_HOST'') then [jumpHostPattern] else [])
    @ (if ?c \<noteq> [] then [''(?:'' @ ?c @ '')''] else [])"
  have "?parts \<noteq> []" using assms(2) by auto
  with d have "(?c = [] \<or> reCompiles re ?c) \<and> DenyCommand c = Some (join ''|'' ?parts)"
    by (simp add: buildDenyPattern_def Let_def split: if_split_asm)
  then show ?thesis by (intro exI [of _ ?parts]) auto
qed

section \<open>Examples\<close>

definition example_env :: environ where
  "example_env k =
     (if k = ''SHELL_API_READONLY'' then ''1'' else if k = ''SHELL_API_DENY_COMMANDS'' then ''rm'' else [])"

definition example_re :: regexps where
  "example_re = \<lparr>reCompiles = (\<lambda>p. True), reFindIndex = (\<lambda>p s. None)\<rparr>"

definition example_cfg :: Config where
  "example_cfg =
     \<lparr>Port = ''8080'', Token = ''t'', TokenHash = [], TLSCert = [], TLSKey = [], MaxTimeout = 300,
      MaxOutput = 8, RateLimit = 120, RateBurst = 60, DefaultShell = ''bash'', TrustedProxies = [],
      LogLevel = ''info'', MCPHeartbeat = 30 * Second, ShutdownGrace = 30 * Second,
      CallBudget = 50 * Second, JobDir = ''/tmp/jobs'', DenyCommand = None, FSRoots = [],
      DisabledTools = [], ReadOnly = False\<rparr>"

lemma TrimSpace_Nil [simp]: "TrimSpace [] = []"
  by (simp add: TrimSpace_def)

lemma example_trim: "TrimSpace ''1'' = ''1''" "TrimSpace ''rm'' = ''rm''"
  by (rule TrimSpace_ascii_word; simp add: isASCII_def bval_def is_space_def)+

lemma example_read_only: "parseReadOnly (example_env ''SHELL_API_READONLY'')"
  by (simp add: parseReadOnly_def example_env_def example_trim lower_char_def bval_def)

lemma example_load: "\<exists>cl. LoadConfig example_re ''/tmp'' example_env False = Inr cl"
  by (simp add: LoadConfig_def Let_def getEnv_def example_env_def parseTrustedProxies_def
      parseTrustedProxy_def buildDenyPattern_def example_re_def example_trim)

theorem read_only_latched_witness:
  "\<exists>cl c. LoadConfig example_re ''/tmp'' example_env False = Inr cl \<and> config_passes [False] cl = (c, True) \<and>
    (\<forall>op. guardReadOnly (snd (config_passes [False] cl)) op = Some (ErrReadOnly op)) \<and>
    \<not> toolEnabled c ''remote_write_file''"
proof -
  obtain cl where cl: "LoadConfig example_re ''/tmp'' example_env False = Inr cl" using example_load by blast
  have "''remote_write_file'' \<notin> set readOnlyTools" by (simp add: readOnlyTools_def)
  with cl read_only_latched [OF example_read_only cl, of "[False]"] show ?thesis by auto
qed

theorem deny_pattern_kept_witness:
  "\<exists>c l parts. LoadConfig example_re ''/tmp'' example_env False = Inr (c, l) \<and>
    DenyCommand c = Some (join ''|'' parts) \<and> ''(?:rm)'' \<in> set parts"
proof -
  obtain c l where cl: "LoadConfig example_re ''/tmp'' example_env False = Inr (c, l)"
    using example_load by auto
  have "TrimSpace (example_env ''SHELL_API_DENY_COMMANDS'') = ''rm''"
    by (simp add: example_env_def example_trim)
  with cl deny_pattern_kept [OF cl] show ?thesis by auto
qed

end
