(* ===== verification/Executor.thy ===== *)
theory Executor
  imports Capped_Output Server_Config
begin

text \<open>
  Running one shell command (\<open>executor.go\<close>): the guards in their order, the resolution of shell,
  timeout and output limit, the capture of both streams, and the classification of how the command
  ended.  The operating system is a record of functions: what a directory is, and what a process does
  when it is started (its output in the chunks it wrote, how \<open>Wait\<close> returned, the state of the
  context at that time).  \<open>execute\<close> also returns the processes it started, so that "nothing ran" is a
  statement about the model.
\<close>

section \<open>Definitions\<close>

datatype dir_stat = StatMissing | StatDir | StatOther

datatype wait_error = WaitOk | WaitDelay | WaitExit int | WaitFailed

datatype ctx_error = CtxOk | DeadlineExceeded | Canceled

record process =
  pStdout :: "bytes list"
  pStderr :: "bytes list"
  pWait :: wait_error
  pState :: "int option"
  pCtx :: ctx_error
  pStart :: nanos
  pEnd :: nanos

record ExecuteRequest =
  rqCommand :: gostring
  rqWorkingDirectory :: gostring
  rqEnvironment :: "(gostring \<times> gostring) list"
  rqTimeoutMs :: int
  rqMaxOutputBytes :: int
  rqShell :: gostring
  rqTruncateMode :: gostring
  rqOutputEncoding :: gostring

record spawn =
  spShell :: gostring
  spCommand :: gostring
  spDir :: gostring
  spEnv :: "(gostring \<times> gostring) list"
  spTimeout :: nanos

record host =
  dirStat :: "gostring \<Rightarrow> dir_stat"
  startCmd :: "spawn \<Rightarrow> gostring + process"
  clock :: nanos

datatype exec_error =
    XReadOnly read_only_error
  | XDenied deny_error
  | XDirMissing gostring
  | XNotDirectory gostring
  | XEncoding output_error
  | XStartFailed gostring
  | XKilledTimeout int int
  | XCancelled

text \<open>Output text is what was captured, or, for a command that never started, the error message.\<close>

datatype exec_text = Captured gostring | Message exec_error

record ExecResult =
  xID :: gostring
  xCommand :: gostring
  xExitCode :: int
  xStdout :: exec_text
  xStderr :: exec_text
  xStartedAt :: nanos
  xCompletedAt :: nanos
  xWorkingDirectory :: gostring
  xTimedOut :: bool
  xStdoutTruncated :: bool
  xStderrTruncated :: bool
  xStdoutTotalBytes :: nat
  xStderrTotalBytes :: nat
  xOutputEncoding :: gostring
  xError :: "exec_error option"
  xNotStarted :: bool
  xCancelled :: bool

definition checkWorkingDir :: "host \<Rightarrow> gostring \<Rightarrow> exec_error option" where
  "checkWorkingDir h dir =
     (if dir = [] then None
      else (case dirStat h dir of
              StatMissing \<Rightarrow> Some (XDirMissing dir)
            | StatOther \<Rightarrow> Some (XNotDirectory dir)
            | StatDir \<Rightarrow> None))"

definition resolveShell :: "Config \<Rightarrow> gostring \<Rightarrow> gostring" where
  "resolveShell cfg shell = (if shell = [] then DefaultShell cfg else shell)"

definition resolveTimeout :: "Config \<Rightarrow> int \<Rightarrow> nanos" where
  "resolveTimeout cfg timeoutMs =
     (let t = (if timeoutMs \<le> 0 then 30000 else timeoutMs);
          maxMs = i64 (MaxTimeout cfg * 1000);
          t' = (if maxMs < t then maxMs else t)
      in i64 (t' * Millisecond))"

definition resolveMaxOutput :: "Config \<Rightarrow> int \<Rightarrow> int" where
  "resolveMaxOutput cfg req =
     (let m = (if req \<le> 0 \<or> (0 < MaxOutput cfg \<and> MaxOutput cfg < req) then MaxOutput cfg else req)
      in if m \<le> 0 then 1 else m)"

definition classifyWait :: "ctx_error \<Rightarrow> int option \<Rightarrow> wait_error \<Rightarrow> int \<times> bool \<times> exec_error option" where
  "classifyWait ctx state w =
     (let code = (case w of
                    WaitOk \<Rightarrow> 0
                  | WaitDelay \<Rightarrow> (case state of None \<Rightarrow> 0 | Some c \<Rightarrow> c)
                  | WaitExit c \<Rightarrow> c
                  | WaitFailed \<Rightarrow> -1)
      in if w = WaitOk \<or> w = WaitDelay then (code, False, None)
         else (case ctx of
                 DeadlineExceeded \<Rightarrow> (code, True, None)
               | Canceled \<Rightarrow> (code, False, Some XCancelled)
               | CtxOk \<Rightarrow> (code, False, None)))"

definition fail_result :: "host \<Rightarrow> gostring \<Rightarrow> ExecuteRequest \<Rightarrow> exec_error \<Rightarrow> ExecResult" where
  "fail_result h i req e =
     \<lparr>xID = i, xCommand = rqCommand req, xExitCode = -1, xStdout = Captured [], xStderr = Message e,
      xStartedAt = clock h, xCompletedAt = clock h, xWorkingDirectory = rqWorkingDirectory req,
      xTimedOut = False, xStdoutTruncated = False, xStderrTruncated = False, xStdoutTotalBytes = 0,
      xStderrTotalBytes = 0, xOutputEncoding = [], xError = Some e, xNotStarted = True,
      xCancelled = False\<rparr>"

text \<open>The guards that come before anything is started; the last one yields the output encoding.\<close>

definition exec_guards ::
  "regexps \<Rightarrow> host \<Rightarrow> Config \<Rightarrow> bool \<Rightarrow> ExecuteRequest \<Rightarrow> exec_error + gostring" where
  "exec_guards re h cfg latch req =
     (case guardReadOnly latch ''shell execution'' of
        Some e \<Rightarrow> Inl (XReadOnly e)
      | None \<Rightarrow>
          (case checkCommand re (Some cfg) (rqCommand req) of
             Some e \<Rightarrow> Inl (XDenied e)
           | None \<Rightarrow>
               (case checkWorkingDir h (rqWorkingDirectory req) of
                  Some e \<Rightarrow> Inl e
                | None \<Rightarrow>
                    (case normalizeOutputEncoding (rqOutputEncoding req) of
                       Inl e \<Rightarrow> Inl (XEncoding e)
                     | Inr enc \<Rightarrow> Inr enc))))"

text \<open>What the request resolves to and, for a process that was started, its result.  A capture that
  never returned would be \<open>None\<close>.\<close>

definition exec_spawn :: "Config \<Rightarrow> ExecuteRequest \<Rightarrow> spawn" where
  "exec_spawn cfg req =
     \<lparr>spShell = resolveShell cfg (rqShell req), spCommand = rqCommand req,
      spDir = rqWorkingDirectory req, spEnv = rqEnvironment req,
      spTimeout = resolveTimeout cfg (rqTimeoutMs req)\<rparr>"

definition finish_exec ::
  "codec \<Rightarrow> Config \<Rightarrow> gostring \<Rightarrow> ExecuteRequest \<Rightarrow> gostring \<Rightarrow> process \<Rightarrow> ExecResult option" where
  "finish_exec cd cfg i req encoding p =
     (let maxOutput = resolveMaxOutput cfg (rqMaxOutputBytes req);
          keepTail = EqualFold (rqTruncateMode req) ''tail'';
          timeout = resolveTimeout cfg (rqTimeoutMs req);
          buf0 = newCappedBuffer (maxOutput + int UTFMax - 1) keepTail;
          (code, timedOut, err) = classifyWait (pCtx p) (pState p) (pWait p);
          cancelled = (\<not> timedOut \<and> pWait p \<noteq> WaitOk \<and> pWait p \<noteq> WaitDelay \<and> pCtx p = Canceled);
          err' = (if timedOut then Some (XKilledTimeout (quo timeout Millisecond) (MaxTimeout cfg)) else err)
      in case (feed Write buf0 (pStdout p), feed Write buf0 (pStderr p)) of
           (Some out, Some er) \<Rightarrow>
             (let (outS, outT, enc) = finishOutput cd out (nat maxOutput) keepTail encoding;
                  (erS, erT, _) = finishOutput cd er (nat maxOutput) keepTail encoding
              in Some \<lparr>xID = i, xCommand = rqCommand req, xExitCode = code, xStdout = Captured outS,
                       xStderr = Captured erS, xStartedAt = pStart p, xCompletedAt = pEnd p,
                       xWorkingDirectory = rqWorkingDirectory req, xTimedOut = timedOut,
                       xStdoutTruncated = outT, xStderrTruncated = erT,
                       xStdoutTotalBytes = cb_total out, xStderrTotalBytes = cb_total er,
                       xOutputEncoding = enc, xError = err', xNotStarted = False,
                       xCancelled = cancelled\<rparr>)
         | _ \<Rightarrow> None)"

definition execute ::
  "regexps \<Rightarrow> codec \<Rightarrow> host \<Rightarrow> Config \<Rightarrow> bool \<Rightarrow> gostring \<Rightarrow> ExecuteRequest \<Rightarrow> (ExecResult \<times> spawn list) option" where
  "execute re cd h cfg latch i req =
     (case exec_guards re h cfg latch req of
        Inl e \<Rightarrow> Some (fail_result h i req e, [])
      | Inr encoding \<Rightarrow>
          (let sp = exec_spawn cfg req in
           case startCmd h sp of
             Inl msg \<Rightarrow> Some (fail_result h i req (XStartFailed msg), [])
           | Inr p \<Rightarrow> map_option (\<lambda>r. (r, [sp])) (finish_exec cd cfg i req encoding p)))"

text \<open>\<open>ExecuteInDir\<close> builds its request from \<open>KEY=VALUE\<close> strings; entries without \<open>=\<close> are
  dropped and a later entry overrides an earlier one with the same key.\<close>

definition split_env :: "gostring \<Rightarrow> (gostring \<times> gostring) option" where
  "split_env e =
     (case IndexByte e (CHR ''='') of None \<Rightarrow> None | Some i \<Rightarrow> Some (take i e, drop (Suc i) e))"

definition env_put :: "gostring \<times> gostring \<Rightarrow> (gostring \<times> gostring) list \<Rightarrow> (gostring \<times> gostring) list" where
  "env_put kv m = filter (\<lambda>(k, v). k \<noteq> fst kv) m @ [kv]"

fun env_map :: "gostring list \<Rightarrow> (gostring \<times> gostring) list \<Rightarrow> (gostring \<times> gostring) list" where
  "env_map [] m = m"
| "env_map (e # es) m = env_map es (case split_env e of None \<Rightarrow> m | Some kv \<Rightarrow> env_put kv m)"

definition execute_in_dir_request ::
  "gostring \<Rightarrow> gostring \<Rightarrow> gostring \<Rightarrow> gostring list \<Rightarrow> int \<Rightarrow> ExecuteRequest" where
  "execute_in_dir_request shell command dir env timeoutMs =
     \<lparr>rqCommand = command, rqWorkingDirectory = dir, rqEnvironment = env_map env [], rqTimeoutMs = timeoutMs,
      rqMaxOutputBytes = 0, rqShell = shell, rqTruncateMode = [], rqOutputEncoding = []\<rparr>"

section \<open>Timeouts and limits\<close>

lemma resolveTimeout_clamp:
  assumes "0 < MaxTimeout cfg" "MaxTimeout cfg \<le> 9223372036"
  shows "resolveTimeout cfg t = min (if t \<le> 0 then 30000 else t) (MaxTimeout cfg * 1000) * Millisecond"
proof -
  let ?t = "if t \<le> 0 then 30000 else t"
  have m: "i64 (MaxTimeout cfg * 1000) = MaxTimeout cfg * 1000"
    using assms by (intro i64_id) auto
  have "i64 (min ?t (MaxTimeout cfg * 1000) * Millisecond) = min ?t (MaxTimeout cfg * 1000) * Millisecond"
    using assms by (intro i64_id) (auto simp: go_defs min_def)
  then show ?thesis by (auto simp: resolveTimeout_def m Let_def min_def)
qed

text \<open>the server's maximum is always enforced: with any sensible \<open>SHELL_API_MAX_TIMEOUT\<close> (positive,
  below 292 years) every request, whatever 64-bit \<open>timeout_ms\<close> it names, runs under a timeout that is
  positive and at most that maximum; a request within the limit gets exactly what it asked for, and one
  that names none gets 30 seconds or the maximum.\<close>

theorem resolveTimeout_bounds:
  assumes "0 < MaxTimeout cfg" "MaxTimeout cfg \<le> 9223372036"
  shows "0 < resolveTimeout cfg t \<and> resolveTimeout cfg t \<le> MaxTimeout cfg * Second \<and>
    (0 < t \<and> t \<le> MaxTimeout cfg * 1000 \<longrightarrow> resolveTimeout cfg t = t * Millisecond) \<and>
    (t \<le> 0 \<longrightarrow> resolveTimeout cfg t = min (30 * Second) (MaxTimeout cfg * Second))"
  using assms by (auto simp: resolveTimeout_clamp go_defs min_def)

lemma resolveMaxOutput_pos: "0 < resolveMaxOutput cfg n"
  by (simp add: resolveMaxOutput_def Let_def)

lemma resolveMaxOutput_le: "0 < MaxOutput cfg \<Longrightarrow> resolveMaxOutput cfg n \<le> MaxOutput cfg"
  by (simp add: resolveMaxOutput_def Let_def)

section \<open>Results\<close>

text \<open>Everything a started process yields is defined: both captures return.\<close>

lemma finish_exec_returns: "\<exists>r. finish_exec cd cfg i req encoding p = Some r"
proof -
  define buf where "buf = newCappedBuffer (resolveMaxOutput cfg (rqMaxOutputBytes req) + int UTFMax - 1)
    (EqualFold (rqTruncateMode req) ''tail'')"
  obtain out er where "feed Write buf (pStdout p) = Some out" "feed Write buf (pStderr p) = Some er"
    using cb.capture_holds unfolding buf_def by metis
  then show ?thesis
    by (simp add: finish_exec_def Let_def buf_def [symmetric] split: prod.split)
qed

lemma execute_returns: "\<exists>r sps. execute re cd h cfg latch i req = Some (r, sps)"
  using finish_exec_returns by (fastforce simp: execute_def Let_def split: sum.split)

lemma exec_guards_cases:
  assumes "exec_guards re h cfg latch req = Inr enc"
  shows "\<not> latch" "checkCommand re (Some cfg) (rqCommand req) = None"
    "checkWorkingDir h (rqWorkingDirectory req) = None" "normalizeOutputEncoding (rqOutputEncoding req) = Inr enc"
  using assms by (auto simp: exec_guards_def guardReadOnly_def split: option.splits sum.splits if_splits)

text \<open>C23: a command runs only past every guard, and at most once.  \<open>execute\<close> always returns; if it
  started a process, it started exactly the one the request resolves to, read-only mode is off, the
  command is not denied by policy, the working directory is usable and the encoding known; and the
  result says \<open>not_started\<close> exactly when nothing was started.\<close>

theorem execute_spawns:
  "\<exists>r sps. execute re cd h cfg latch i req = Some (r, sps) \<and> xID r = i \<and>
     (sps = [] \<and> xNotStarted r \<and> xError r \<noteq> None \<or>
      sps = [exec_spawn cfg req] \<and> \<not> xNotStarted r \<and> \<not> latch \<and>
      checkCommand re (Some cfg) (rqCommand req) = None \<and>
      checkWorkingDir h (rqWorkingDirectory req) = None \<and>
      (\<exists>enc. normalizeOutputEncoding (rqOutputEncoding req) = Inr enc))"
proof (cases "exec_guards re h cfg latch req")
  case (Inl e)
  then show ?thesis by (simp add: execute_def fail_result_def)
next
  case (Inr enc)
  show ?thesis
  proof (cases "startCmd h (exec_spawn cfg req)")
    case (Inl msg)
    with Inr show ?thesis by (simp add: execute_def fail_result_def)
  next
    case (Inr p)
    obtain r where r: "finish_exec cd cfg i req enc p = Some r" using finish_exec_returns by blast
    then have "\<not> xNotStarted r" "xID r = i"
      by (auto simp: finish_exec_def Let_def split: prod.splits option.splits)
    with r Inr \<open>exec_guards re h cfg latch req = Inr enc\<close> exec_guards_cases show ?thesis
      by (fastforce simp: execute_def)
  qed
qed

lemma classifyWait_cases:
  "classifyWait ctx st w = (code, timedOut, err) \<Longrightarrow>
   (timedOut \<longleftrightarrow> ctx = DeadlineExceeded \<and> w \<noteq> WaitOk \<and> w \<noteq> WaitDelay) \<and>
   (err = Some XCancelled \<longleftrightarrow> ctx = Canceled \<and> w \<noteq> WaitOk \<and> w \<noteq> WaitDelay)"
  by (auto simp: classifyWait_def Let_def split: if_splits ctx_error.splits)

text \<open>how an execution ended is classified consistently: timed out and cancelled exclude each
  other and not started; a shell that exited by itself (also one whose background children still hold
  the pipes) is neither, and carries its own exit code.\<close>

theorem finish_exec_classified:
  assumes "finish_exec cd cfg i req encoding p = Some r"
  shows "\<not> (xTimedOut r \<and> xCancelled r) \<and> \<not> xNotStarted r \<and>
    (xTimedOut r \<longleftrightarrow> pCtx p = DeadlineExceeded \<and> pWait p \<notin> {WaitOk, WaitDelay}) \<and>
    (xCancelled r \<longleftrightarrow> pCtx p = Canceled \<and> pWait p \<notin> {WaitOk, WaitDelay}) \<and>
    (pWait p = WaitOk \<longrightarrow> xExitCode r = 0) \<and>
    (pWait p = WaitDelay \<longrightarrow> xExitCode r = (case pState p of None \<Rightarrow> 0 | Some c \<Rightarrow> c)) \<and>
    (\<forall>c. pWait p = WaitExit c \<longrightarrow> xExitCode r = c)"
proof -
  obtain code timedOut err where c: "classifyWait (pCtx p) (pState p) (pWait p) = (code, timedOut, err)"
    by (cases "classifyWait (pCtx p) (pState p) (pWait p)") auto
  then have r: "xTimedOut r = timedOut" "xExitCode r = code" "\<not> xNotStarted r"
    "xCancelled r = (\<not> timedOut \<and> pWait p \<noteq> WaitOk \<and> pWait p \<noteq> WaitDelay \<and> pCtx p = Canceled)"
    using assms by (auto simp: finish_exec_def Let_def split: prod.splits option.splits)
  from c have "pWait p = WaitOk \<Longrightarrow> code = 0" "pWait p = WaitDelay \<Longrightarrow> code = (case pState p of None \<Rightarrow> 0 | Some c \<Rightarrow> c)"
    "\<And>k. pWait p = WaitExit k \<Longrightarrow> code = k"
    by (auto simp: classifyWait_def Let_def split: ctx_error.splits)
  with r classifyWait_cases [OF c] show ?thesis by auto
qed

text \<open>with no decoding requested, the captured output respects the limit in force: at most
  \<open>max_output_bytes\<close> (itself capped by \<open>SHELL_API_MAX_OUTPUT\<close>), the true number of bytes written is
  reported, and the truncation flags say exactly whether bytes are missing.\<close>

theorem finish_exec_output:
  assumes "finish_exec cd cfg i req [] p = Some r"
  shows "(\<exists>out. xStdout r = Captured out \<and> length out \<le> nat (resolveMaxOutput cfg (rqMaxOutputBytes req)) \<and>
      (xStdoutTruncated r \<longleftrightarrow> length out < length (concat (pStdout p))) \<and>
      xStdoutTotalBytes r = length (concat (pStdout p))) \<and>
    (\<exists>er. xStderr r = Captured er \<and> length er \<le> nat (resolveMaxOutput cfg (rqMaxOutputBytes req)) \<and>
      (xStderrTruncated r \<longleftrightarrow> length er < length (concat (pStderr p))) \<and>
      xStderrTotalBytes r = length (concat (pStderr p)))"
proof -
  let ?m = "nat (resolveMaxOutput cfg (rqMaxOutputBytes req))"
  let ?k = "EqualFold (rqTruncateMode req) ''tail''"
  let ?b = "newCappedBuffer (resolveMaxOutput cfg (rqMaxOutputBytes req) + int UTFMax - 1) ?k"
  have m: "0 < ?m" and b: "?b = newCappedBuffer (int (?m + UTFMax - 1)) ?k"
    using resolveMaxOutput_pos [of cfg "rqMaxOutputBytes req"] by (auto simp: UTFMax_def)
  have stream: "\<exists>b out tr. feed Write ?b cs = Some b \<and> finishOutput cd b ?m ?k [] = (out, tr, []) \<and>
      length out \<le> ?m \<and> (tr \<longleftrightarrow> length out < length (concat cs)) \<and> cb_total b = length (concat cs)" for cs
  proof -
    obtain b c where bc: "feed Write ?b cs = Some b"
      "finishOutput cd b ?m ?k [] = (kept_part ?k c (concat cs), ?m < length (concat cs), [])"
      "if length (concat cs) \<le> ?m then c = length (concat cs) else c \<le> ?m \<and> ?m \<le> c + 3"
      using finishOutput_stream [OF m, of ?k cs cd] unfolding b by blast
    moreover have "cb_total b = length (concat cs)"
      using cb.capture_holds [of _ ?k cs] bc(1) unfolding b captures_def
      by (metis option.inject)
    moreover have "length (kept_part ?k c (concat cs)) = min c (length (concat cs))"
      by (auto simp: kept_part_def last_bytes_def)
    ultimately show ?thesis by (auto split: if_splits)
  qed
  show ?thesis
    using assms stream [of "pStdout p"] stream [of "pStderr p"]
    by (auto simp: finish_exec_def Let_def split: prod.splits)
qed

section \<open>Examples\<close>

definition example_codec :: codec where
  "example_codec = \<lparr>gbkDecode = (\<lambda>b. None), gbkEncode = (\<lambda>b. None), gb18030Decode = (\<lambda>b. None),
     gb18030Encode = (\<lambda>b. None)\<rparr>"

definition example_request :: ExecuteRequest where
  "example_request = \<lparr>rqCommand = ''seq 9'', rqWorkingDirectory = [], rqEnvironment = [], rqTimeoutMs = 0,
     rqMaxOutputBytes = 4, rqShell = [], rqTruncateMode = ''tail'', rqOutputEncoding = []\<rparr>"

definition example_process :: process where
  "example_process = \<lparr>pStdout = [''1234'', ''567''], pStderr = [], pWait = WaitExit 3, pState = Some 3,
     pCtx = CtxOk, pStart = 0, pEnd = 5\<rparr>"

theorem resolveTimeout_bounds_witness:
  "0 < resolveTimeout example_cfg 999999 \<and> resolveTimeout example_cfg 999999 \<le> 300 * Second"
  using resolveTimeout_bounds [of example_cfg 999999] by (simp add: example_cfg_def)

theorem finish_exec_classified_witness:
  "\<exists>r. finish_exec example_codec example_cfg ''x'' example_request [] example_process = Some r \<and>
     \<not> xTimedOut r \<and> \<not> xCancelled r \<and> xExitCode r = 3"
proof -
  obtain r where r: "finish_exec example_codec example_cfg ''x'' example_request [] example_process = Some r"
    using finish_exec_returns by blast
  with finish_exec_classified [OF r] show ?thesis by (simp add: example_process_def)
qed

theorem finish_exec_output_witness:
  "\<exists>r out. finish_exec example_codec example_cfg ''x'' example_request [] example_process = Some r \<and>
     xStdout r = Captured out \<and> length out \<le> 4 \<and> xStdoutTruncated r \<and> xStdoutTotalBytes r = 7"
proof -
  obtain r where r: "finish_exec example_codec example_cfg ''x'' example_request [] example_process = Some r"
    using finish_exec_returns by blast
  have "resolveMaxOutput example_cfg 4 = 4" by (simp add: resolveMaxOutput_def example_cfg_def)
  with finish_exec_output [OF r] r show ?thesis
    by (auto simp: example_process_def example_request_def)
qed

end
