(* ===== verification/Registry.thy ===== *)
theory Registry
  imports Go_Prelude
begin

text \<open>
  The in-memory registries of the server: Go maps (and \<open>sync.Map\<close>s) from an identifier to a record that
  carries the same identifier.  A registry is the list of its records with distinct identifiers, in an
  arbitrary order: the theorems hold for every order, so for every iteration order a Go \<open>range\<close> may
  choose; a sort is then any sort, since the order of equal keys is that of the arbitrary list.
\<close>

section \<open>Operations\<close>

definition reg_get :: "('v \<Rightarrow> 'k) \<Rightarrow> 'v list \<Rightarrow> 'k \<Rightarrow> 'v option" where
  "reg_get idf m k = find (\<lambda>v. idf v = k) m"

definition reg_del :: "('v \<Rightarrow> 'k) \<Rightarrow> 'k \<Rightarrow> 'v list \<Rightarrow> 'v list" where
  "reg_del idf k m = filter (\<lambda>v. idf v \<noteq> k) m"

definition reg_put :: "('v \<Rightarrow> 'k) \<Rightarrow> 'v \<Rightarrow> 'v list \<Rightarrow> 'v list" where
  "reg_put idf v m = v # reg_del idf (idf v) m"

text \<open>Mutation of the record a pointer in the map refers to.\<close>

definition reg_upd :: "('v \<Rightarrow> 'k) \<Rightarrow> 'k \<Rightarrow> ('v \<Rightarrow> 'v) \<Rightarrow> 'v list \<Rightarrow> 'v list" where
  "reg_upd idf k f m = map (\<lambda>v. if idf v = k then f v else v) m"

definition newest_first :: "('v \<Rightarrow> int) \<Rightarrow> 'v list \<Rightarrow> 'v list" where
  "newest_first started vs = sort_key (\<lambda>v. - started v) vs"

abbreviation reg_ok :: "('v \<Rightarrow> 'k) \<Rightarrow> 'v list \<Rightarrow> bool" where
  "reg_ok idf m \<equiv> distinct (map idf m)"

section \<open>Lemmas\<close>

lemma reg_get_Some: "reg_get idf m k = Some v \<Longrightarrow> v \<in> set m \<and> idf v = k"
  by (auto simp: reg_get_def find_Some_iff)

lemma reg_get_None: "reg_get idf m k = None \<longleftrightarrow> k \<notin> idf ` set m"
  by (auto simp: reg_get_def find_None_iff)

lemma reg_get_iff: "reg_ok idf m \<Longrightarrow> reg_get idf m k = Some v \<longleftrightarrow> v \<in> set m \<and> idf v = k"
proof
  assume "reg_ok idf m" "v \<in> set m \<and> idf v = k"
  then show "reg_get idf m k = Some v"
    by (cases "reg_get idf m k")
      (auto simp: reg_get_None dest!: reg_get_Some intro: inj_onD [of idf "set m"] simp: distinct_map)
qed (rule reg_get_Some)

lemma set_reg_del [simp]: "set (reg_del idf k m) = {v \<in> set m. idf v \<noteq> k}"
  by (auto simp: reg_del_def)

lemma set_reg_put [simp]: "set (reg_put idf v m) = insert v {w \<in> set m. idf w \<noteq> idf v}"
  by (simp add: reg_put_def)

lemma reg_ok_filter: "reg_ok idf m \<Longrightarrow> reg_ok idf (filter P m)"
  by (rule distinct_map_filter)

lemma reg_ok_del [simp]: "reg_ok idf m \<Longrightarrow> reg_ok idf (reg_del idf k m)"
  unfolding reg_del_def by (rule reg_ok_filter)

lemma reg_ok_put [simp]: "reg_ok idf m \<Longrightarrow> reg_ok idf (reg_put idf v m)"
  by (auto simp: reg_put_def)

lemma map_id_upd: "(\<And>v. idf (f v) = idf v) \<Longrightarrow> map idf (reg_upd idf k f m) = map idf m"
  by (simp add: reg_upd_def)

lemma set_reg_upd: "set (reg_upd idf k f m) = (\<lambda>v. if idf v = k then f v else v) ` set m"
  by (simp add: reg_upd_def)

lemma reg_get_put: "reg_get idf (reg_put idf v m) k = (if k = idf v then Some v else reg_get idf m k)"
proof -
  have "find (\<lambda>w. idf w = k) (filter (\<lambda>w. idf w \<noteq> j) m) = find (\<lambda>w. idf w = k) m" if "k \<noteq> j" for j
    using that by (induction m) auto
  then show ?thesis by (auto simp: reg_get_def reg_put_def reg_del_def)
qed

lemma reg_get_del: "reg_get idf (reg_del idf j m) k = (if k = j then None else reg_get idf m k)"
  by (induction m) (auto simp: reg_get_def reg_del_def)

lemma reg_get_upd:
  "(\<And>v. idf (f v) = idf v) \<Longrightarrow>
   reg_get idf (reg_upd idf j f m) k = (if k = j then map_option f (reg_get idf m k) else reg_get idf m k)"
  by (induction m) (auto simp: reg_get_def reg_upd_def)

lemma set_newest_first [simp]: "set (newest_first started vs) = set vs"
  by (simp add: newest_first_def)

lemma length_newest_first [simp]: "length (newest_first started vs) = length vs"
  by (simp add: newest_first_def)

lemma distinct_newest_first: "distinct (map idf vs) \<Longrightarrow> distinct (map idf (newest_first started vs))"
  by (metis distinct_map distinct_sort newest_first_def set_sort)

lemma newest_first_sorted: "sorted_wrt (\<lambda>v w. started w \<le> started v) (newest_first started vs)"
proof -
  have "sorted (map (\<lambda>v. - started v) (newest_first started vs))" by (simp add: newest_first_def)
  then show ?thesis by (simp add: sorted_wrt_map)
qed

text \<open>An element beyond the first \<open>n\<close> of the sorted list is no newer than any of the first \<open>n\<close>.\<close>

lemma newest_first_beyond:
  assumes "v \<in> set (drop n (newest_first started vs))"
  shows "length (take n (newest_first started vs)) = n \<and>
    (\<forall>w \<in> set (take n (newest_first started vs)). started v \<le> started w)"
proof -
  let ?s = "newest_first started vs"
  have "sorted_wrt (\<lambda>v w. started w \<le> started v) (take n ?s @ drop n ?s)"
    using newest_first_sorted [of started vs] by simp
  then have "\<forall>w \<in> set (take n ?s). \<forall>v \<in> set (drop n ?s). started v \<le> started w"
    unfolding sorted_wrt_append by blast
  moreover have "n \<le> length ?s" using assms by (cases "n \<le> length ?s") auto
  ultimately show ?thesis using assms by simp
qed

lemma length_filter_mono:
  "(\<And>x. x \<in> set xs \<Longrightarrow> P x \<Longrightarrow> Q x) \<Longrightarrow> length (filter P xs) \<le> length (filter Q xs)"
  by (induction xs) auto

section \<open>Retention\<close>

text \<open>
  The contract of a registry's pruning: running entries stay, nothing is invented, finished entries past
  their time to live go, at most \<open>cap\<close> finished entries remain, and a finished entry that goes early
  makes room for \<open>cap\<close> finished entries started no earlier.  \<open>same v w\<close> relates an entry with what
  pruning may turn it into (an execution may lose its retained output).
\<close>

locale retention =
  fixes idf :: "'v \<Rightarrow> 'k" and finished :: "'v \<Rightarrow> bool" and ended :: "'v \<Rightarrow> int" and started :: "'v \<Rightarrow> int"
    and ttl :: int and cap :: nat and same :: "'v \<Rightarrow> 'v \<Rightarrow> bool" and prune :: "int \<Rightarrow> 'v list \<Rightarrow> 'v list"
  assumes same_trans: "same u v \<Longrightarrow> same v w \<Longrightarrow> same u w"
    and same_id: "same v w \<Longrightarrow> idf w = idf v"
    and prune_ok: "reg_ok idf m \<Longrightarrow> reg_ok idf (prune now m)"
    and prune_running: "reg_ok idf m \<Longrightarrow> v \<in> set m \<Longrightarrow> \<not> finished v \<Longrightarrow> v \<in> set (prune now m)"
    and prune_origin: "reg_ok idf m \<Longrightarrow> w \<in> set (prune now m) \<Longrightarrow>
      \<exists>v \<in> set m. same v w \<and> (finished w \<longleftrightarrow> finished v) \<and> (finished v \<longrightarrow> now - ended v \<le> ttl)"
    and prune_bounded: "reg_ok idf m \<Longrightarrow> length (filter finished (prune now m)) \<le> cap"
    and prune_room: "reg_ok idf m \<Longrightarrow> v \<in> set m \<Longrightarrow> finished v \<Longrightarrow> now - ended v \<le> ttl \<Longrightarrow>
      \<forall>w \<in> set (prune now m). \<not> same v w \<Longrightarrow>
      cap \<le> length (filter (\<lambda>w. finished w \<and> started v \<le> started w) m)"
begin

text \<open>A running entry survives any number of prunings, whatever the clock does.\<close>

lemma prunes_running:
  "reg_ok idf m \<Longrightarrow> v \<in> set m \<Longrightarrow> \<not> finished v \<Longrightarrow> v \<in> set (fold prune ts m)"
  by (induction ts arbitrary: m) (auto simp: prune_ok prune_running)

lemma prunes_ok: "reg_ok idf m \<Longrightarrow> reg_ok idf (fold prune ts m)"
  by (induction ts arbitrary: m) (auto simp: prune_ok)

text \<open>A finished entry is still there after a pruning within its time to live, unless \<open>cap\<close> finished
  entries are at least as new.\<close>

lemma prune_keeps:
  assumes "reg_ok idf m" "v \<in> set m" "finished v" "now - ended v \<le> ttl"
    and "length (filter (\<lambda>w. finished w \<and> started v \<le> started w) m) < cap"
  shows "\<exists>w \<in> set (prune now m). same v w"
  using prune_room [OF assms(1-4)] assms(5) by (meson not_le)

lemma prune_get_running:
  assumes "reg_ok idf m" "reg_get idf m k = Some v" "\<not> finished v"
  shows "reg_get idf (prune now m) k = Some v"
  using assms prune_running prune_ok by (simp add: reg_get_iff)

lemma prune_size: "reg_ok idf m \<Longrightarrow>
  length (prune now m) \<le> cap + length (filter (\<lambda>v. \<not> finished v) (prune now m))"
  using prune_bounded [of m now] sum_length_filter_compl [of finished "prune now m"] by simp

end

end
