(* ===== verification/Executions.thy ===== *)
theory Executions
  imports Executor Registry
begin

text \<open>
  Detached executions (\<open>executions.go\<close>, and the registry of running commands of \<open>executor.go\<close>).  The
  first part is the registry: launching, looking up, cancelling, and the retention policy.  The second
  part is the life of one execution as a step relation: the goroutine that runs the command, the call
  that launched it and the pruning of its output interleave freely, each critical section being one
  step.
\<close>

section \<open>Definitions\<close>

definition execRetention :: nanos where [go_defs]: "execRetention = 30 * Minute"
definition maxRetainedExecs :: nat where [go_defs]: "maxRetainedExecs = 200"
definition maxRetainedOutputs :: nat where [go_defs]: "maxRetainedOutputs = 16"

datatype exec_state = ExecRunning | ExecCompleted | ExecTimedOut | ExecCancelled | ExecNotStarted

record Execution =
  eID :: gostring
  eCommand :: gostring
  eWorkingDirectory :: gostring
  eStartedAt :: nanos
  eTimeout :: nanos
  eResult :: "ExecResult option"
  eEndedAt :: nanos
  eHandedOff :: bool
  eOutputDropped :: bool
  eOnLate :: bool

record executor =
  running :: "gostring list"
  execs :: "Execution list"

definition execState :: "ExecResult \<Rightarrow> exec_state" where
  "execState r =
     (if xNotStarted r then ExecNotStarted
      else if xTimedOut r then ExecTimedOut
      else if xCancelled r then ExecCancelled
      else ExecCompleted)"

definition claim :: "Execution \<Rightarrow> ExecResult option \<times> Execution" where
  "claim ex = (eResult ex, if eResult ex = None then ex\<lparr>eHandedOff := True\<rparr> else ex)"

definition Result :: "Execution \<Rightarrow> ExecResult option \<times> bool" where
  "Result ex = (eResult ex, eOutputDropped ex)"

definition dropOutput :: "Execution \<Rightarrow> Execution" where
  "dropOutput ex =
     (case eResult ex of
        None \<Rightarrow> ex
      | Some r \<Rightarrow>
          if eOutputDropped ex then ex
          else ex\<lparr>eResult := Some (r\<lparr>xStdout := Captured [], xStderr := Captured []\<rparr>),
                  eOutputDropped := True\<rparr>)"

definition over :: "Execution \<Rightarrow> bool" where
  "over ex \<longleftrightarrow> eResult ex \<noteq> None"

text \<open>The walk over the finished executions, newest first: the identifiers to forget and those whose
  output is dropped.\<close>

fun prune_walk :: "nat \<Rightarrow> nat \<Rightarrow> Execution list \<Rightarrow> gostring list \<times> gostring list" where
  "prune_walk i w [] = ([], [])"
| "prune_walk i w (ex # es) =
     (if maxRetainedExecs \<le> i then
        (let (del, out) = prune_walk (Suc i) w es in (eID ex # del, out))
      else if \<not> snd (Result ex) then
        (let (del, out) = prune_walk (Suc i) (Suc w) es
         in (del, if maxRetainedOutputs < Suc w then eID ex # out else out))
      else prune_walk (Suc i) w es)"

definition pruneLocked :: "nanos \<Rightarrow> Execution list \<Rightarrow> Execution list" where
  "pruneLocked now m =
     (let fresh = filter (\<lambda>ex. \<not> (over ex \<and> execRetention < now - eEndedAt ex)) m;
          (del, out) = prune_walk 0 0 (newest_first eStartedAt (filter over fresh))
      in map (\<lambda>ex. if eID ex \<in> set out then dropOutput ex else ex)
           (filter (\<lambda>ex. eID ex \<notin> set del) fresh))"

definition Launch ::
  "Config \<Rightarrow> nanos \<Rightarrow> gostring \<Rightarrow> ExecuteRequest \<Rightarrow> bool \<Rightarrow> executor \<Rightarrow> Execution \<times> executor" where
  "Launch cfg now uuid req onLate e =
     (let ex = \<lparr>eID = uuid, eCommand = rqCommand req, eWorkingDirectory = rqWorkingDirectory req,
                eStartedAt = now, eTimeout = resolveTimeout cfg (rqTimeoutMs req), eResult = None,
                eEndedAt = 0, eHandedOff = False, eOutputDropped = False, eOnLate = onLate\<rparr>
      in (ex, \<lparr>running = List.insert uuid (running e),
               execs = reg_put eID ex (pruneLocked now (execs e))\<rparr>))"

text \<open>The critical section of the goroutine when the command is over.\<close>

definition finishExecution :: "ExecResult \<Rightarrow> nanos \<Rightarrow> Execution \<Rightarrow> Execution" where
  "finishExecution r now ex = ex\<lparr>eResult := Some r, eEndedAt := now\<rparr>"

definition Lookup :: "nanos \<Rightarrow> gostring \<Rightarrow> executor \<Rightarrow> Execution option \<times> executor" where
  "Lookup now i e = (let m = pruneLocked now (execs e) in (reg_get eID m i, e\<lparr>execs := m\<rparr>))"

definition ListExecutions :: "nanos \<Rightarrow> executor \<Rightarrow> Execution list \<times> executor" where
  "ListExecutions now e =
     (let m = pruneLocked now (execs e) in (newest_first eStartedAt m, e\<lparr>execs := m\<rparr>))"

text \<open>\<open>Cancel\<close> and \<open>CancelAll\<close> report whom they reached; the cancellation itself is the process
  outcome of the model.\<close>

definition Cancel :: "gostring \<Rightarrow> executor \<Rightarrow> bool" where
  "Cancel i e \<longleftrightarrow> i \<in> set (running e)"

definition CancelAll :: "executor \<Rightarrow> nat" where
  "CancelAll e = length (running e)"

definition RunningCount :: "executor \<Rightarrow> nat" where
  "RunningCount e = length (running e)"

record ExecutionInfo =
  eiID :: gostring
  eiState :: exec_state
  eiElapsedMs :: int
  eiTimeoutMs :: int
  eiExitCode :: "int option"

definition exec_info :: "nanos \<Rightarrow> Execution \<Rightarrow> ExecutionInfo" where
  "exec_info now ex =
     \<lparr>eiID = eID ex,
      eiState = (case eResult ex of None \<Rightarrow> ExecRunning | Some r \<Rightarrow> execState r),
      eiElapsedMs = quo ((if eResult ex = None then now else eEndedAt ex) - eStartedAt ex) Millisecond,
      eiTimeoutMs = quo (eTimeout ex) Millisecond,
      eiExitCode = map_option xExitCode (eResult ex)\<rparr>"

section \<open>Retention\<close>

lemma dropOutput_id [simp]: "eID (dropOutput ex) = eID ex" "eStartedAt (dropOutput ex) = eStartedAt ex"
  "over (dropOutput ex) = over ex" "eEndedAt (dropOutput ex) = eEndedAt ex"
  by (auto simp: dropOutput_def over_def split: option.splits)

lemma dropOutput_idem [simp]: "dropOutput (dropOutput ex) = dropOutput ex"
  by (auto simp: dropOutput_def split: option.splits)

lemma dropOutput_running: "\<not> over ex \<Longrightarrow> dropOutput ex = ex"
  by (simp add: dropOutput_def over_def)

lemma dropOutput_dropped: "over ex \<Longrightarrow> eOutputDropped (dropOutput ex)"
  by (auto simp: dropOutput_def over_def)

definition same_execution :: "Execution \<Rightarrow> Execution \<Rightarrow> bool" where
  "same_execution v w \<longleftrightarrow> w = v \<or> w = dropOutput v"

text \<open>The walk in closed form: everything beyond the first \<open>maxRetainedExecs\<close> is forgotten; of those
  kept, all outputs beyond the first \<open>maxRetainedOutputs\<close> still held are dropped.\<close>

lemma prune_walk_beyond: "maxRetainedExecs \<le> i \<Longrightarrow> prune_walk i w es = (map eID es, [])"
  by (induction es arbitrary: i) auto

lemma prune_walk_closed:
  "i \<le> maxRetainedExecs \<Longrightarrow>
   prune_walk i w es =
     (map eID (drop (maxRetainedExecs - i) es),
      map eID (drop (maxRetainedOutputs - w)
        (filter (\<lambda>ex. \<not> eOutputDropped ex) (take (maxRetainedExecs - i) es))))"
proof (induction es arbitrary: i w)
  case (Cons ex es)
  show ?case
  proof (cases "i = maxRetainedExecs")
    case True
    then show ?thesis by (simp add: prune_walk_beyond)
  next
    case False
    with Cons.prems obtain n where n: "maxRetainedExecs - i = Suc n" "maxRetainedExecs - Suc i = n"
      by (metis Suc_diff_Suc le_neq_implies_less)
    have i: "\<not> maxRetainedExecs \<le> i" "Suc i \<le> maxRetainedExecs" using Cons.prems False by auto
    have w: "drop (maxRetainedOutputs - w) (ex # xs) =
        (if maxRetainedOutputs < Suc w then ex # drop (maxRetainedOutputs - Suc w) xs
         else drop (maxRetainedOutputs - Suc w) xs)" for xs
    proof (cases "maxRetainedOutputs < Suc w")
      case False
      then obtain k where "maxRetainedOutputs - w = Suc k" "maxRetainedOutputs - Suc w = k"
        by (metis Suc_diff_Suc not_less_eq not_less)
      with False show ?thesis by simp
    qed simp
    show ?thesis
      using i Cons.IH [OF i(2)] n by (simp add: Result_def w del: drop_Cons')
  qed
qed simp

lemma distinct_ids_subset:
  assumes "distinct (map eID m)" "xs \<subseteq> set m" "ex \<in> set m" "eID ex \<in> eID ` xs" shows "ex \<in> xs"
  using assms by (auto simp: distinct_map dest: inj_onD)

text \<open>The pruned registry: \<open>kept\<close> are the finished executions that stay.\<close>

definition fresh_finished :: "nanos \<Rightarrow> Execution list \<Rightarrow> Execution list" where
  "fresh_finished now m =
     newest_first eStartedAt (filter (\<lambda>ex. over ex \<and> now - eEndedAt ex \<le> execRetention) m)"

definition kept_finished :: "nanos \<Rightarrow> Execution list \<Rightarrow> Execution list" where
  "kept_finished now m = take maxRetainedExecs (fresh_finished now m)"

definition losing_output :: "nanos \<Rightarrow> Execution list \<Rightarrow> Execution list" where
  "losing_output now m = drop maxRetainedOutputs (filter (\<lambda>ex. \<not> eOutputDropped ex) (kept_finished now m))"

lemma set_fresh_finished:
  "set (fresh_finished now m) = {ex \<in> set m. over ex \<and> now - eEndedAt ex \<le> execRetention}"
  by (auto simp: fresh_finished_def)

lemma distinct_fresh: "reg_ok eID m \<Longrightarrow> distinct (map eID (fresh_finished now m))"
  unfolding fresh_finished_def by (intro distinct_newest_first reg_ok_filter)

lemma fresh_split: "set (fresh_finished now m) =
  set (kept_finished now m) \<union> set (drop maxRetainedExecs (fresh_finished now m))"
  unfolding kept_finished_def by (metis append_take_drop_id set_append)

lemma kept_disjoint:
  "reg_ok eID m \<Longrightarrow> eID ` set (kept_finished now m) \<inter> eID ` set (drop maxRetainedExecs (fresh_finished now m)) = {}"
  using distinct_fresh [of m now] unfolding kept_finished_def
  by (metis append_take_drop_id distinct_append image_set map_append)

lemma losing_subset: "set (losing_output now m) \<subseteq> set (kept_finished now m)"
  unfolding losing_output_def by (meson filter_is_subset set_drop_subset subset_trans)

lemma pruneLocked_eq:
  assumes "reg_ok eID m"
  shows "pruneLocked now m =
    map (\<lambda>ex. if ex \<in> set (losing_output now m) then dropOutput ex else ex)
      (filter (\<lambda>ex. \<not> over ex \<or> ex \<in> set (kept_finished now m)) m)"
proof -
  let ?d = "drop maxRetainedExecs (fresh_finished now m)"
  have ff: "filter over (filter (\<lambda>ex. \<not> (over ex \<and> execRetention < now - eEndedAt ex)) m) =
      filter (\<lambda>ex. over ex \<and> now - eEndedAt ex \<le> execRetention) m"
    by (auto intro: filter_cong)
  have sub: "set (fresh_finished now m) \<subseteq> set m" by (auto simp: set_fresh_finished)
  have walk: "prune_walk 0 0 (newest_first eStartedAt
      (filter over (filter (\<lambda>ex. \<not> (over ex \<and> execRetention < now - eEndedAt ex)) m))) =
      (map eID ?d, map eID (losing_output now m))"
    unfolding ff by (simp add: prune_walk_closed fresh_finished_def kept_finished_def losing_output_def)
  have "pruneLocked now m =
    map (\<lambda>ex. if eID ex \<in> eID ` set (losing_output now m) then dropOutput ex else ex)
      (filter (\<lambda>ex. eID ex \<notin> eID ` set ?d)
        (filter (\<lambda>ex. \<not> (over ex \<and> execRetention < now - eEndedAt ex)) m))"
    unfolding pruneLocked_def Let_def walk by simp
  also have "\<dots> = map (\<lambda>ex. if ex \<in> set (losing_output now m) then dropOutput ex else ex)
      (filter (\<lambda>ex. eID ex \<notin> eID ` set ?d)
        (filter (\<lambda>ex. \<not> (over ex \<and> execRetention < now - eEndedAt ex)) m))"
    using distinct_ids_subset [OF assms, of "set (losing_output now m)"] losing_subset [of now m]
      fresh_split [of now m] sub by (intro map_cong) auto
  also have "filter (\<lambda>ex. eID ex \<notin> eID ` set ?d) (filter (\<lambda>ex. \<not> (over ex \<and> execRetention < now - eEndedAt ex)) m)
      = filter (\<lambda>ex. \<not> over ex \<or> ex \<in> set (kept_finished now m)) m"
    unfolding filter_filter
  proof (rule filter_cong [OF refl])
    fix ex assume ex: "ex \<in> set m"
    have "eID ex \<in> eID ` set ?d \<longleftrightarrow> ex \<in> set ?d"
      using distinct_ids_subset [OF assms, of "set ?d" ex] ex fresh_split [of now m] sub by blast
    moreover have "ex \<in> set ?d \<Longrightarrow> over ex \<and> ex \<notin> set (kept_finished now m)"
      using kept_disjoint [OF assms, of now] fresh_split [of now m] set_fresh_finished [of now m] by blast
    moreover have "ex \<in> set (fresh_finished now m) \<longleftrightarrow> over ex \<and> now - eEndedAt ex \<le> execRetention"
      using ex by (simp add: set_fresh_finished)
    ultimately show "(\<not> (over ex \<and> execRetention < now - eEndedAt ex) \<and> eID ex \<notin> eID ` set ?d) =
        (\<not> over ex \<or> ex \<in> set (kept_finished now m))"
      using fresh_split [of now m] by (auto simp: not_less)
  qed
  finally show ?thesis .
qed

lemma pruneLocked_ids:
  "reg_ok eID m \<Longrightarrow> map eID (pruneLocked now m) = map eID (filter (\<lambda>ex. \<not> over ex \<or> ex \<in> set (kept_finished now m)) m)"
  by (simp add: pruneLocked_eq)

lemma distinct_kept: "reg_ok eID m \<Longrightarrow> distinct (kept_finished now m)"
  using distinct_fresh [of m now] unfolding kept_finished_def
  by (simp add: distinct_take distinct_map)

lemma length_filter_kept:
  assumes "reg_ok eID m"
  shows "length (filter (\<lambda>ex. ex \<in> set (kept_finished now m) \<and> P ex) m) = length (filter P (kept_finished now m))"
proof -
  have "set (kept_finished now m) \<subseteq> set m" using fresh_split [of now m] set_fresh_finished [of now m] by blast
  then have "set (filter (\<lambda>ex. ex \<in> set (kept_finished now m) \<and> P ex) m) = set (filter P (kept_finished now m))"
    by auto
  moreover have "distinct m" using assms by (simp add: distinct_map)
  ultimately show ?thesis
    using distinct_kept [OF assms, of now] by (metis distinct_card distinct_filter)
qed

lemma over_kept: "ex \<in> set (kept_finished now m) \<Longrightarrow> over ex \<and> now - eEndedAt ex \<le> execRetention"
  using fresh_split [of now m] set_fresh_finished [of now m] by blast

lemma filter_over_prune:
  assumes "reg_ok eID m"
  shows "filter over (pruneLocked now m) =
    map (\<lambda>ex. if ex \<in> set (losing_output now m) then dropOutput ex else ex)
      (filter (\<lambda>ex. ex \<in> set (kept_finished now m)) m)"
  by (simp add: pruneLocked_eq [OF assms] filter_map comp_def if_distrib cong: if_cong)
    (rule map_cong, auto intro!: filter_cong dest: over_kept)

interpretation exec_retention: retention eID over eEndedAt eStartedAt execRetention maxRetainedExecs
  same_execution pruneLocked
proof
  fix m :: "Execution list" and now v w
  assume ok: "reg_ok eID m"
  show "reg_ok eID (pruneLocked now m)" using ok by (simp add: pruneLocked_ids reg_ok_filter)
  show "v \<in> set (pruneLocked now m)" if "v \<in> set m" "\<not> over v"
    using that losing_subset [of now m] over_kept [of v now m] by (force simp: pruneLocked_eq [OF ok])
  show "\<exists>v \<in> set m. same_execution v w \<and> over w = over v \<and> (over v \<longrightarrow> now - eEndedAt v \<le> execRetention)"
    if "w \<in> set (pruneLocked now m)"
    using that by (auto simp: pruneLocked_eq [OF ok] same_execution_def dest: over_kept)
  show "length (filter over (pruneLocked now m)) \<le> maxRetainedExecs"
    using length_filter_kept [OF ok, of now "\<lambda>_. True"]
    by (simp add: filter_over_prune [OF ok] kept_finished_def)
  show "maxRetainedExecs \<le> length (filter (\<lambda>w. over w \<and> eStartedAt v \<le> eStartedAt w) m)"
    if v: "v \<in> set m" "over v" "now - eEndedAt v \<le> execRetention" "\<forall>w \<in> set (pruneLocked now m). \<not> same_execution v w"
  proof -
    have "v \<notin> set (kept_finished now m)"
      using v(1,4) by (auto simp: pruneLocked_eq [OF ok] same_execution_def)
    then have "v \<in> set (drop maxRetainedExecs (fresh_finished now m))"
      using v(1-3) fresh_split [of now m] set_fresh_finished [of now m] by blast
    then have k': "length (kept_finished now m) = maxRetainedExecs \<and>
        (\<forall>w \<in> set (kept_finished now m). eStartedAt v \<le> eStartedAt w)"
      unfolding kept_finished_def fresh_finished_def by (rule newest_first_beyond)
    note k = k' [THEN conjunct1] k' [THEN conjunct2]
    have "length (kept_finished now m) = length (filter (\<lambda>ex. ex \<in> set (kept_finished now m)) m)"
      using length_filter_kept [OF ok, of now "\<lambda>_. True"] by simp
    also have "\<dots> \<le> length (filter (\<lambda>w. over w \<and> eStartedAt v \<le> eStartedAt w) m)"
      using k(2) over_kept by (intro length_filter_mono) blast
    finally show ?thesis using k(1) by simp
  qed
qed (auto simp: same_execution_def)

lemma filter_not_dropped_suffix:
  assumes "distinct xs" shows "length (filter (\<lambda>x. P x \<and> x \<notin> set (drop n (filter P xs))) xs) \<le> n"
proof -
  let ?f = "filter P xs"
  have "filter (\<lambda>x. P x \<and> x \<notin> set (drop n ?f)) xs = filter (\<lambda>x. x \<notin> set (drop n ?f)) ?f"
    by (simp add: conj_commute)
  also have "\<dots> = filter (\<lambda>x. x \<notin> set (drop n ?f)) (take n ?f) @ filter (\<lambda>x. x \<notin> set (drop n ?f)) (drop n ?f)"
    by (metis append_take_drop_id filter_append)
  also have "length \<dots> = length (filter (\<lambda>x. x \<notin> set (drop n ?f)) (take n ?f))" by simp
  also have "\<dots> \<le> length (take n ?f)" by (rule length_filter_le)
  also have "\<dots> \<le> n" by simp
  finally show ?thesis .
qed

text \<open>C39: the registry keeps what it promises.  Whatever the registry holds and whenever it is pruned:
  a running execution is never touched; a finished one survives for its 30 minutes unless 200 finished
  executions are at least as new; at most 200 finished executions stay, and at most 16 of them hold
  their output.\<close>

theorem execution_retention:
  assumes "reg_ok eID m"
  shows "(\<forall>ex \<in> set m. \<not> over ex \<longrightarrow> ex \<in> set (pruneLocked now m)) \<and>
    (\<forall>ex \<in> set m. over ex \<and> now - eEndedAt ex \<le> execRetention \<and>
       length (filter (\<lambda>w. over w \<and> eStartedAt ex \<le> eStartedAt w) m) < maxRetainedExecs \<longrightarrow>
       (\<exists>w \<in> set (pruneLocked now m). same_execution ex w)) \<and>
    length (filter over (pruneLocked now m)) \<le> maxRetainedExecs \<and>
    length (filter (\<lambda>ex. over ex \<and> \<not> eOutputDropped ex) (pruneLocked now m)) \<le> maxRetainedOutputs"
proof -
  let ?l = "losing_output now m" and ?k = "kept_finished now m"
  let ?g = "\<lambda>ex. if ex \<in> set ?l then dropOutput ex else ex"
  have "filter (\<lambda>ex. over ex \<and> \<not> eOutputDropped ex) (pruneLocked now m) =
      filter (\<lambda>ex. \<not> eOutputDropped ex) (filter over (pruneLocked now m))"
    by (simp add: conj_commute)
  also have "length \<dots> = length (filter (\<lambda>ex. \<not> eOutputDropped (?g ex)) (filter (\<lambda>ex. ex \<in> set ?k) m))"
    by (simp add: filter_over_prune [OF assms] filter_map comp_def)
  also have "\<dots> \<le> length (filter (\<lambda>ex. ex \<in> set ?k \<and> (\<not> eOutputDropped ex \<and> ex \<notin> set ?l)) m)"
    unfolding filter_filter
    by (rule length_filter_mono) (auto simp: dropOutput_dropped dest!: over_kept split: if_splits)
  also have "\<dots> = length (filter (\<lambda>ex. \<not> eOutputDropped ex \<and> ex \<notin> set ?l) ?k)"
    by (rule length_filter_kept [OF assms])
  also have "\<dots> \<le> maxRetainedOutputs"
    unfolding losing_output_def by (rule filter_not_dropped_suffix [OF distinct_kept [OF assms]])
  finally show ?thesis
    using exec_retention.prune_running [OF assms] exec_retention.prune_keeps [OF assms]
      exec_retention.prune_bounded [OF assms] by blast
qed

section \<open>The life of one execution\<close>

text \<open>The goroutine: still executing; the result is stored and the local variable \<open>late\<close> read; the
  outcome reported where due; removed from the running set.  The launching call: still waiting;
  answered inline; returned without the result.\<close>

datatype goroutine = GExecuting | GStored bool ExecResult | GReported | GDone
datatype caller = CWaiting | CInline ExecResult | CHandedOff

record exec_run =
  obj :: Execution
  goro :: goroutine
  call :: caller
  lateReports :: "ExecResult list"
  inRunning :: bool

definition exec_init :: "Execution \<Rightarrow> exec_run" where
  "exec_init ex = \<lparr>obj = ex, goro = GExecuting, call = CWaiting, lateReports = [], inRunning = True\<rparr>"

inductive exec_step :: "exec_run \<Rightarrow> exec_run \<Rightarrow> bool" where
  store: "goro s = GExecuting \<Longrightarrow>
    exec_step s (s\<lparr>obj := finishExecution r t (obj s), goro := GStored (eHandedOff (obj s)) r\<rparr>)"
| report: "goro s = GStored late r \<Longrightarrow>
    exec_step s (s\<lparr>goro := GReported,
      lateReports := lateReports s @ (if late \<and> eOnLate (obj s) then [r] else [])\<rparr>)"
| unregister: "goro s = GReported \<Longrightarrow> exec_step s (s\<lparr>goro := GDone, inRunning := False\<rparr>)"
| claim_step: "call s = CWaiting \<Longrightarrow> claim (obj s) = (res, ex') \<Longrightarrow>
    exec_step s (s\<lparr>obj := ex', call := (case res of None \<Rightarrow> CHandedOff | Some r \<Rightarrow> CInline r)\<rparr>)"
| drop: "exec_step s (s\<lparr>obj := dropOutput (obj s)\<rparr>)"

inductive_cases exec_stepE: "exec_step s s'"

inductive exec_reach :: "Execution \<Rightarrow> exec_run \<Rightarrow> bool" for ex where
  start: "exec_reach ex (exec_init ex)"
| step: "exec_reach ex s \<Longrightarrow> exec_step s s' \<Longrightarrow> exec_reach ex s'"

definition reported_inline :: "exec_run \<Rightarrow> nat" where
  "reported_inline s = (case call s of CInline _ \<Rightarrow> 1 | _ \<Rightarrow> 0)"

definition exec_inv :: "exec_run \<Rightarrow> bool" where
  "exec_inv s \<longleftrightarrow>
     eOnLate (obj s) \<and>
     (eHandedOff (obj s) \<longleftrightarrow> call s = CHandedOff) \<and>
     (over (obj s) \<longleftrightarrow> goro s \<noteq> GExecuting) \<and>
     (inRunning s \<longleftrightarrow> goro s \<noteq> GDone) \<and>
     (case goro s of
        GExecuting \<Rightarrow> lateReports s = [] \<and> (\<forall>r. call s \<noteq> CInline r)
      | GStored late r \<Rightarrow> lateReports s = [] \<and> (late \<longleftrightarrow> call s = CHandedOff)
      | _ \<Rightarrow> length (lateReports s) = (if call s = CHandedOff then 1 else 0))"

lemma dropOutput_flags [simp]: "eOnLate (dropOutput ex) = eOnLate ex"
  "eHandedOff (dropOutput ex) = eHandedOff ex"
  by (auto simp: dropOutput_def split: option.splits)

lemma exec_inv_step: "exec_step s s' \<Longrightarrow> exec_inv s \<Longrightarrow> exec_inv s'"
proof (induction rule: exec_step.induct)
  case (store s r t)
  then show ?case by (simp add: exec_inv_def finishExecution_def over_def)
next
  case (report s late r)
  then show ?case by (simp add: exec_inv_def)
next
  case (unregister s)
  then show ?case by (simp add: exec_inv_def)
next
  case (claim_step s res ex')
  then show ?case
    by (cases "goro s") (auto simp: exec_inv_def claim_def over_def split: if_splits option.splits)
next
  case (drop s)
  then show ?case by (cases "goro s") (auto simp: exec_inv_def)
qed

lemma exec_inv_reach:
  assumes "exec_reach ex s" "eOnLate ex" "eResult ex = None" "\<not> eHandedOff ex" shows "exec_inv s"
  using assms
proof (induction rule: exec_reach.induct)
  case start
  then show ?case by (simp add: exec_inv_def exec_init_def over_def)
next
  case (step s s')
  then show ?case using exec_inv_step by blast
qed

text \<open>C4: exactly one of the launching call and the late reporter delivers the outcome of an execution.
  In every interleaving of the goroutine, the launching call and output pruning, the outcome is never
  delivered twice; once the call has returned and the goroutine has reported, it has been delivered
  exactly once (inline if and only if the call did not hand off); and the execution leaves the running
  set, which shutdown drains, only after that.\<close>

theorem outcome_delivered_once:
  assumes "exec_reach (fst (Launch cfg now uuid req True e)) s"
  shows "reported_inline s + length (lateReports s) \<le> 1 \<and>
    (call s \<noteq> CWaiting \<and> goro s \<in> {GReported, GDone} \<longrightarrow> reported_inline s + length (lateReports s) = 1) \<and>
    (\<not> inRunning s \<longrightarrow> (call s = CHandedOff \<longrightarrow> length (lateReports s) = 1))"
proof -
  have "exec_inv s" using assms by (intro exec_inv_reach) (auto simp: Launch_def Let_def)
  then show ?thesis
    by (cases "goro s"; cases "call s") (auto simp: exec_inv_def reported_inline_def)
qed

section \<open>Examples\<close>

definition example_execution :: Execution where
  "example_execution = fst (Launch example_cfg 0 ''u'' example_request True \<lparr>running = [], execs = []\<rparr>)"

lemma example_execution_fields [simp]:
  "eResult example_execution = None" "eOnLate example_execution" "\<not> over example_execution"
  by (simp_all add: example_execution_def Launch_def Let_def over_def)

theorem execution_retention_witness:
  "example_execution \<in> set (pruneLocked (Hour * 99) [example_execution]) \<and>
   length (filter over (pruneLocked (Hour * 99) [example_execution])) \<le> maxRetainedExecs"
  using execution_retention [of "[example_execution]" "Hour * 99"] by simp

text \<open>The call hands off, then the command ends: the late reporter delivers it.\<close>

theorem outcome_delivered_once_witness:
  "\<exists>s. exec_reach example_execution s \<and> call s = CHandedOff \<and> goro s = GReported \<and>
     reported_inline s + length (lateReports s) = 1"
proof -
  let ?r = "fail_result \<lparr>dirStat = (\<lambda>d. StatDir), startCmd = (\<lambda>sp. Inl []), clock = 0\<rparr> ''u'' example_request XCancelled"
  let ?s0 = "exec_init example_execution"
  let ?s1 = "?s0\<lparr>obj := (obj ?s0)\<lparr>eHandedOff := True\<rparr>, call := CHandedOff\<rparr>"
  let ?s2 = "?s1\<lparr>obj := finishExecution ?r 1 (obj ?s1), goro := GStored (eHandedOff (obj ?s1)) ?r\<rparr>"
  let ?s3 = "?s2\<lparr>goro := GReported, lateReports := lateReports ?s2 @ (if True \<and> eOnLate (obj ?s2) then [?r] else [])\<rparr>"
  have "claim (obj ?s0) = (None, (obj ?s0)\<lparr>eHandedOff := True\<rparr>)"
    by (simp add: claim_def exec_init_def)
  then have "exec_step ?s0 ?s1" using exec_step.claim_step [of ?s0] by (simp add: exec_init_def)
  moreover have "exec_step ?s1 ?s2" by (rule exec_step.store) (simp add: exec_init_def)
  moreover have "exec_step ?s2 ?s3" by (rule exec_step.report) simp
  ultimately have reach: "exec_reach example_execution ?s3"
    by (meson exec_reach.start exec_reach.step)
  moreover have "call ?s3 = CHandedOff" "goro ?s3 = GReported" by simp_all
  ultimately show ?thesis
    using outcome_delivered_once [of example_cfg 0 "''u''" example_request "\<lparr>running = [], execs = []\<rparr>" ?s3]
    by (intro exI [of _ ?s3]) (auto simp: example_execution_def [symmetric])
qed

end
