(* ===== verification/Sessions.thy ===== *)
theory Sessions
  imports Registry
begin

text \<open>
  Persistent sessions (\<open>session.go\<close>): a registry of execution contexts with an idle time to live.
  The clock, the home directory and the fresh identifier of \<open>SessionCreate\<close> are arguments; each operation is
  one critical section of the source.
\<close>

section \<open>Definitions\<close>

record Session =
  sessID :: gostring
  sessEnvironment :: "gostring list"
  sessShell :: gostring
  sessCreatedAt :: nanos
  sessTTL :: nanos
  sessCwd :: gostring
  sessExpiresAt :: nanos

record SessionCreateRequest =
  scrWorkingDirectory :: gostring
  scrEnvironment :: "(gostring \<times> gostring) list"
  scrShell :: gostring
  scrTTLSeconds :: int

type_synonym sessions = "Session list"

definition touch :: "nanos \<Rightarrow> Session \<Rightarrow> Session" where
  "touch now s = s\<lparr>sessExpiresAt := now + sessTTL s\<rparr>"

definition expired :: "nanos \<Rightarrow> Session \<Rightarrow> bool" where
  "expired now s \<longleftrightarrow> sessExpiresAt s < now"

definition setCwd :: "gostring \<Rightarrow> Session \<Rightarrow> Session" where
  "setCwd dir s = s\<lparr>sessCwd := dir\<rparr>"

definition session_ttl :: "int \<Rightarrow> nanos" where
  "session_ttl secs =
     (let t = (if secs \<le> 0 then 3600 else secs); t' = (if t > 86400 then 86400 else t)
      in i64 (t' * Second))"

definition SessionCreate :: "nanos \<Rightarrow> gostring \<Rightarrow> gostring \<Rightarrow> SessionCreateRequest \<Rightarrow> sessions \<Rightarrow> Session \<times> sessions" where
  "SessionCreate now uuid home req sm =
     (let dir = (if scrWorkingDirectory req = [] then home else scrWorkingDirectory req);
          shell = (if scrShell req = [] then ''bash'' else scrShell req);
          ttl = session_ttl (scrTTLSeconds req);
          env = map (\<lambda>(k, v). k @ ''='' @ v) (scrEnvironment req);
          s = \<lparr>sessID = ''sess-'' @ take 8 uuid, sessEnvironment = env, sessShell = shell,
               sessCreatedAt = now, sessTTL = ttl, sessCwd = dir, sessExpiresAt = now + ttl\<rparr>
      in (s, reg_put sessID s sm))"

definition SessionGet :: "nanos \<Rightarrow> gostring \<Rightarrow> sessions \<Rightarrow> Session option \<times> sessions" where
  "SessionGet now i sm =
     (case reg_get sessID sm i of
        None \<Rightarrow> (None, sm)
      | Some s \<Rightarrow> if expired now s then (None, reg_del sessID i sm) else (Some s, sm))"

text \<open>\<open>SessionTouch\<close> reads the clock twice, once in \<open>SessionGet\<close> and once for the renewal.\<close>

definition SessionTouch :: "nanos \<Rightarrow> nanos \<Rightarrow> gostring \<Rightarrow> sessions \<Rightarrow> Session option \<times> sessions" where
  "SessionTouch now now' i sm =
     (case SessionGet now i sm of
        (None, sm') \<Rightarrow> (None, sm')
      | (Some s, sm') \<Rightarrow> (Some (touch now' s), reg_upd sessID i (touch now') sm'))"

definition SessionDelete :: "gostring \<Rightarrow> sessions \<Rightarrow> bool \<times> sessions" where
  "SessionDelete i sm = (reg_get sessID sm i \<noteq> None, reg_del sessID i sm)"

definition SessionCount :: "sessions \<Rightarrow> nat" where
  "SessionCount sm = length sm"

definition SessionList :: "nanos \<Rightarrow> sessions \<Rightarrow> Session list" where
  "SessionList now sm = sort_key sessCreatedAt (filter (\<lambda>s. \<not> expired now s) sm)"

definition UpdateWorkingDirectory :: "gostring \<Rightarrow> gostring \<Rightarrow> sessions \<Rightarrow> sessions" where
  "UpdateWorkingDirectory i dir sm = reg_upd sessID i (setCwd dir) sm"

text \<open>One tick of \<open>cleanupLoop\<close>.\<close>

definition cleanup :: "nanos \<Rightarrow> sessions \<Rightarrow> sessions" where
  "cleanup now sm = filter (\<lambda>s. \<not> expired now s) sm"

section \<open>Sequences of calls\<close>

datatype session_call =
    CallCreate gostring gostring SessionCreateRequest
  | CallGet gostring
  | CallTouch gostring
  | CallDelete gostring
  | CallSetCwd gostring gostring
  | CallCleanup

fun session_step :: "nanos \<times> session_call \<Rightarrow> sessions \<Rightarrow> sessions" where
  "session_step (t, CallCreate uuid home req) sm = snd (SessionCreate t uuid home req sm)"
| "session_step (t, CallGet i) sm = snd (SessionGet t i sm)"
| "session_step (t, CallTouch i) sm = snd (SessionTouch t t i sm)"
| "session_step (t, CallDelete i) sm = snd (SessionDelete i sm)"
| "session_step (t, CallSetCwd i dir) sm = UpdateWorkingDirectory i dir sm"
| "session_step (t, CallCleanup) sm = cleanup t sm"

definition session_run :: "(nanos \<times> session_call) list \<Rightarrow> sessions \<Rightarrow> sessions" where
  "session_run calls sm = fold session_step calls sm"

section \<open>Invariant\<close>

definition session_ok :: "Session \<Rightarrow> bool" where
  "session_ok s \<longleftrightarrow> Second \<le> sessTTL s \<and> sessTTL s \<le> 24 * Hour \<and> sessShell s \<noteq> []"

definition sessions_ok :: "sessions \<Rightarrow> bool" where
  "sessions_ok sm \<longleftrightarrow> reg_ok sessID sm \<and> (\<forall>s \<in> set sm. session_ok s)"

lemma touch_id [simp]: "sessID (touch t s) = sessID s" "sessTTL (touch t s) = sessTTL s"
  "sessExpiresAt (touch t s) = t + sessTTL s" "sessCwd (touch t s) = sessCwd s"
  "sessShell (touch t s) = sessShell s"
  by (simp_all add: touch_def)

lemma setCwd_id [simp]: "sessID (setCwd d s) = sessID s" "sessTTL (setCwd d s) = sessTTL s"
  "sessExpiresAt (setCwd d s) = sessExpiresAt s" "sessCwd (setCwd d s) = d"
  "sessShell (setCwd d s) = sessShell s"
  by (simp_all add: setCwd_def)

lemma session_ttl_bounds: "Second \<le> session_ttl secs" "session_ttl secs \<le> 24 * Hour"
proof -
  define t where "t = (if secs \<le> 0 then 3600 else if 86400 < secs then 86400 else secs)"
  have "1 \<le> t" "t \<le> 86400" by (auto simp: t_def)
  moreover have "session_ttl secs = i64 (t * Second)"
    by (auto simp: session_ttl_def t_def Let_def)
  moreover have "i64 (t * Second) = t * Second"
    using calculation by (intro i64_id) (auto simp: go_defs)
  ultimately show "Second \<le> session_ttl secs" "session_ttl secs \<le> 24 * Hour"
    by (auto simp: go_defs)
qed

lemma sessions_ok_upd:
  assumes "sessions_ok sm" "\<And>s. sessID (f s) = sessID s" "\<And>s. session_ok s \<Longrightarrow> session_ok (f s)"
  shows "sessions_ok (reg_upd sessID i f sm)"
  using assms by (auto simp: sessions_ok_def map_id_upd set_reg_upd)

lemma sessions_ok_sub: "sessions_ok sm \<Longrightarrow> sessions_ok (filter P sm)"
  by (auto simp: sessions_ok_def reg_ok_filter)

lemma sessions_ok_Get: "sessions_ok sm \<Longrightarrow> sessions_ok (snd (SessionGet t i sm))"
  by (auto simp: SessionGet_def reg_del_def sessions_ok_sub split: option.splits)

lemma session_ok_same: "session_ok (touch t s) = session_ok s" "session_ok (setCwd d s) = session_ok s"
  by (simp_all add: session_ok_def)

lemma sessions_ok_step: "sessions_ok sm \<Longrightarrow> sessions_ok (session_step c sm)"
proof (induction c sm rule: session_step.induct)
  case (1 t uuid home req sm)
  then show ?case
    using session_ttl_bounds by (auto simp: SessionCreate_def Let_def sessions_ok_def session_ok_def)
next
  case (3 t i sm)
  then show ?case
    using sessions_ok_Get [of sm t i]
    by (auto simp: SessionTouch_def session_ok_same sessions_ok_upd split: prod.splits option.splits)
next
  case (4 t i sm)
  then show ?case by (simp add: SessionDelete_def reg_del_def sessions_ok_sub)
next
  case (5 t i d sm)
  then show ?case by (simp add: UpdateWorkingDirectory_def session_ok_same sessions_ok_upd)
qed (simp_all add: sessions_ok_Get cleanup_def sessions_ok_sub)

text \<open>after any sequence of calls from an empty registry, identifiers are unique and every session's
  idle time to live lies between one second and one day, whatever \<open>ttl_seconds\<close> was requested (no
  64-bit overflow), and its shell is set.\<close>

theorem session_run_ok: "sessions_ok (session_run calls [])"
proof -
  have "sessions_ok sm \<Longrightarrow> sessions_ok (fold session_step calls sm)" for sm
    by (induction calls arbitrary: sm) (auto simp: sessions_ok_step)
  moreover have "sessions_ok []" by (simp add: sessions_ok_def)
  ultimately show ?thesis by (simp add: session_run_def)
qed

section \<open>Idle expiry\<close>

text \<open>\<open>in_use i ttl base calls\<close>: every call comes within \<open>ttl\<close> of the last renewal of session \<open>i\<close>
  (the first one at \<open>base\<close>), and no call deletes or recreates it.\<close>

fun in_use :: "gostring \<Rightarrow> nanos \<Rightarrow> nanos \<Rightarrow> (nanos \<times> session_call) list \<Rightarrow> bool" where
  "in_use i ttl base [] = True"
| "in_use i ttl base ((t, c) # cs) =
     (t \<le> base + ttl \<and>
      (case c of
         CallTouch j \<Rightarrow> in_use i ttl (if j = i then t else base) cs
       | CallDelete j \<Rightarrow> j \<noteq> i \<and> in_use i ttl base cs
       | CallCreate uuid home req \<Rightarrow> ''sess-'' @ take 8 uuid \<noteq> i \<and> in_use i ttl base cs
       | _ \<Rightarrow> in_use i ttl base cs))"

fun last_cwd :: "gostring \<Rightarrow> gostring \<Rightarrow> (nanos \<times> session_call) list \<Rightarrow> gostring" where
  "last_cwd i d [] = d"
| "last_cwd i d ((t, c) # cs) =
     (case c of CallSetCwd j d' \<Rightarrow> last_cwd i (if j = i then d' else d) cs | _ \<Rightarrow> last_cwd i d cs)"

definition holds_session :: "sessions \<Rightarrow> gostring \<Rightarrow> nanos \<Rightarrow> nanos \<Rightarrow> gostring \<Rightarrow> bool" where
  "holds_session sm i ttl base dir \<longleftrightarrow>
     (\<exists>s. reg_get sessID sm i = Some s \<and> sessTTL s = ttl \<and> sessExpiresAt s = base + ttl \<and> sessCwd s = dir)"

lemma reg_get_filter:
  "reg_get sessID sm i = Some s \<Longrightarrow> P s \<Longrightarrow> reg_get sessID (filter P sm) i = Some s"
  unfolding reg_get_def by (induction sm) (auto split: if_splits)

lemma holds_Get_other: "holds_session sm i ttl base dir \<Longrightarrow> t \<le> base + ttl \<Longrightarrow>
  holds_session (snd (SessionGet t j sm)) i ttl base dir"
  by (auto simp: holds_session_def SessionGet_def expired_def reg_get_del split: option.splits)

lemma holds_Touch:
  assumes "holds_session sm i ttl base dir" "t \<le> base + ttl"
  shows "holds_session (snd (SessionTouch t t j sm)) i ttl (if j = i then t else base) dir"
proof (cases "fst (SessionGet t j sm)")
  case None
  then have "j \<noteq> i" using assms
    by (auto simp: holds_session_def SessionGet_def expired_def split: option.splits if_splits)
  with None holds_Get_other [OF assms, of j] show ?thesis
    by (auto simp: SessionTouch_def split: prod.splits option.splits)
next
  case (Some s)
  with holds_Get_other [OF assms, of j] show ?thesis
    by (auto simp: SessionTouch_def holds_session_def reg_get_upd split: prod.splits)
qed

lemma holds_session_step:
  assumes "holds_session sm i ttl base dir" "in_use i ttl base ((t, c) # cs)"
  shows "\<exists>base' dir'. holds_session (session_step (t, c) sm) i ttl base' dir' \<and> in_use i ttl base' cs \<and>
    last_cwd i dir ((t, c) # cs) = last_cwd i dir' cs"
proof (cases c)
  case (CallTouch j)
  with holds_Touch [OF assms(1), of t j] assms(2) show ?thesis by (intro exI) auto
next
  case (CallGet j)
  with holds_Get_other [OF assms(1), of t j] assms(2) show ?thesis by (intro exI) auto
next
  case (CallCreate uuid home req)
  with assms show ?thesis
    by (intro exI [of _ base] exI [of _ dir]) (auto simp: holds_session_def SessionCreate_def Let_def reg_get_put)
next
  case (CallDelete j)
  with assms show ?thesis
    by (intro exI [of _ base] exI [of _ dir]) (auto simp: holds_session_def SessionDelete_def reg_get_del)
next
  case (CallSetCwd j d)
  with assms show ?thesis
    by (intro exI [of _ base] exI [of _ "if j = i then d else dir"])
      (auto simp: holds_session_def UpdateWorkingDirectory_def reg_get_upd)
next
  case CallCleanup
  with assms show ?thesis
    by (intro exI [of _ base] exI [of _ dir])
      (auto simp: holds_session_def cleanup_def expired_def intro!: reg_get_filter)
qed

text \<open>C40: a session whose every use comes within its time to live of the previous renewal never expires
  underneath its user: it is still found after any interleaving of other calls (creations, lookups,
  clean-up ticks, other sessions), with its environment's time to live and the last working directory
  set on it.\<close>

theorem session_stays_alive:
  assumes "reg_get sessID sm i = Some s" "sessExpiresAt s = base + sessTTL s"
    and "in_use i (sessTTL s) base calls"
  shows "\<exists>s'. reg_get sessID (session_run calls sm) i = Some s' \<and> sessTTL s' = sessTTL s \<and>
    sessCwd s' = last_cwd i (sessCwd s) calls"
proof -
  have "holds_session sm i ttl base dir \<Longrightarrow> in_use i ttl base calls \<Longrightarrow>
    \<exists>base'. holds_session (fold session_step calls sm) i ttl base' (last_cwd i dir calls)" for ttl dir
  proof (induction calls arbitrary: sm base dir)
    case (Cons c cs)
    obtain t op where c: "c = (t, op)" by (cases c)
    with holds_session_step [of sm i ttl base dir t op cs] Cons show ?case by fastforce
  qed auto
  with assms show ?thesis by (fastforce simp: holds_session_def session_run_def)
qed

text \<open>an expired session is gone for every reader at once: \<open>SessionGet\<close> and \<open>SessionTouch\<close> return nothing and
  remove it, \<open>SessionList\<close> does not show it, and a clean-up tick removes exactly the expired sessions.\<close>

theorem session_expiry:
  assumes "reg_ok sessID sm" "s \<in> set sm" "expired now s"
  shows "fst (SessionGet now (sessID s) sm) = None \<and> reg_get sessID (snd (SessionGet now (sessID s) sm)) (sessID s) = None \<and>
    fst (SessionTouch now now' (sessID s) sm) = None \<and> s \<notin> set (SessionList now sm) \<and>
    set (cleanup now sm) = {v \<in> set sm. \<not> expired now v}"
proof -
  have "reg_get sessID sm (sessID s) = Some s" using assms by (simp add: reg_get_iff)
  then show ?thesis using assms
    by (auto simp: SessionGet_def SessionTouch_def SessionList_def cleanup_def reg_get_del)
qed

section \<open>Examples\<close>

definition example_session :: Session where
  "example_session = \<lparr>sessID = ''sess-1'', sessEnvironment = [], sessShell = ''bash'', sessCreatedAt = 0,
     sessTTL = 10, sessCwd = ''/a'', sessExpiresAt = 10\<rparr>"

theorem session_stays_alive_witness:
  "\<exists>s'. reg_get sessID (session_run [(8, CallTouch ''sess-1''), (9, CallSetCwd ''sess-1'' ''/b''), (18, CallCleanup)]
        [example_session]) ''sess-1'' = Some s' \<and> sessTTL s' = 10 \<and> sessCwd s' = ''/b''"
  using session_stays_alive [of "[example_session]" "''sess-1''" example_session 0
      "[(8, CallTouch ''sess-1''), (9, CallSetCwd ''sess-1'' ''/b''), (18, CallCleanup)]"]
  by (simp add: example_session_def reg_get_def)

theorem session_expiry_witness:
  "fst (SessionGet 11 ''sess-1'' [example_session]) = None \<and>
   reg_get sessID (snd (SessionGet 11 ''sess-1'' [example_session])) ''sess-1'' = None \<and>
   fst (SessionTouch 11 11 ''sess-1'' [example_session]) = None \<and>
   example_session \<notin> set (SessionList 11 [example_session]) \<and>
   set (cleanup 11 [example_session]) = {v \<in> set [example_session]. \<not> expired 11 v}"
  using session_expiry [of "[example_session]" example_session 11 11]
  by (simp add: example_session_def expired_def)

end
