(* ===== verification/Jobs.thy ===== *)
theory Jobs
  imports Executor Registry
begin

text \<open>
  Background jobs (\<open>jobs.go\<close>): spawning, the transitions of a running job (exit, timeout, kill), and the
  periodic sweep.  The state is the job registry together with the log files that exist.  The operating
  system's answers (job directory, log file, process start, signal delivery) are arguments.
\<close>

section \<open>Definitions\<close>

definition jobRetention :: nanos where [go_defs]: "jobRetention = 24 * Hour"
definition maxFinishedJobs :: nat where [go_defs]: "maxFinishedJobs = 500"

datatype JobState = JobRunning | JobExited | JobKilled | JobTimeout

record Job =
  jID :: gostring
  jCommand :: gostring
  jWorkingDirectory :: gostring
  jPID :: int
  jLogPath :: gostring
  jStartedAt :: nanos
  jState :: JobState
  jExitCode :: int
  jEndedAt :: nanos
  jKilled :: bool
  jTimedOut :: bool

record SpawnRequest =
  sqCommand :: gostring
  sqWorkingDirectory :: gostring
  sqEnvironment :: "(gostring \<times> gostring) list"
  sqShell :: gostring
  sqTimeoutSeconds :: int

record JobManager =
  jobs :: "Job list"
  logs :: "gostring list"

datatype job_error =
    JReadOnly read_only_error
  | JCommandRequired
  | JDenied deny_error
  | JBadDir exec_error
  | JDirFailed gostring
  | JLogFailed gostring
  | JStartFailed gostring
  | JNotFound gostring
  | JNotRunning gostring JobState
  | JBadSignal gostring
  | JSignalFailed gostring

text \<open>What the operating system does for one \<open>Spawn\<close>.\<close>

record spawn_host =
  shDirs :: host
  shMkdir :: "gostring \<Rightarrow> gostring option"
  shOpenLog :: "gostring \<Rightarrow> gostring option"
  shStart :: "gostring \<Rightarrow> gostring \<Rightarrow> gostring \<Rightarrow> (gostring \<times> gostring) list \<Rightarrow> gostring + int"
  shNow :: nanos

definition job_running :: "Job \<Rightarrow> bool" where
  "job_running j \<longleftrightarrow> jState j = JobRunning"

text \<open>The JSON view of a job; instants stay numbers, and the log size is what \<open>os.Stat\<close> finds.\<close>

record JobInfo =
  jiJobID :: gostring
  jiPID :: int
  jiState :: JobState
  jiCommand :: gostring
  jiWorkingDirectory :: gostring
  jiExitCode :: "int option"
  jiStartedAt :: nanos
  jiEndedAt :: "nanos option"
  jiElapsedMs :: int
  jiLogPath :: gostring
  jiLogSize :: int

definition job_info :: "(gostring \<Rightarrow> int option) \<Rightarrow> nanos \<Rightarrow> Job \<Rightarrow> JobInfo" where
  "job_info logSize now j =
     (let finished = (jState j \<noteq> JobRunning); ended = (if finished then jEndedAt j else now) in
      \<lparr>jiJobID = jID j, jiPID = jPID j, jiState = jState j, jiCommand = jCommand j,
       jiWorkingDirectory = jWorkingDirectory j,
       jiExitCode = (if finished then Some (jExitCode j) else None), jiStartedAt = jStartedAt j,
       jiEndedAt = (if finished then Some (jEndedAt j) else None),
       jiElapsedMs = quo (ended - jStartedAt j) Millisecond, jiLogPath = jLogPath j,
       jiLogSize = (case logSize (jLogPath j) of Some n \<Rightarrow> n | None \<Rightarrow> 0)\<rparr>)"

text \<open>The delay of the kill timer, if one is armed.\<close>

definition job_timer :: "SpawnRequest \<Rightarrow> nanos option" where
  "job_timer req =
     (if 0 < sqTimeoutSeconds req then Some (i64 (sqTimeoutSeconds req * Second)) else None)"

definition spawn_guards :: "regexps \<Rightarrow> spawn_host \<Rightarrow> Config \<Rightarrow> bool \<Rightarrow> SpawnRequest \<Rightarrow> job_error option" where
  "spawn_guards re h cfg latch req =
     (case guardReadOnly latch ''spawn background job'' of
        Some e \<Rightarrow> Some (JReadOnly e)
      | None \<Rightarrow>
          if TrimSpace (sqCommand req) = [] then Some JCommandRequired
          else
            (case checkCommand re (Some cfg) (sqCommand req) of
               Some e \<Rightarrow> Some (JDenied e)
             | None \<Rightarrow> map_option JBadDir (checkWorkingDir (shDirs h) (sqWorkingDirectory req))))"

definition job_id :: "gostring \<Rightarrow> gostring" where
  "job_id uuid = ''job-'' @ take 8 uuid"

definition job_log :: "Config \<Rightarrow> gostring \<Rightarrow> gostring" where
  "job_log cfg i = Join [JobDir cfg, i @ ''.log'']"

definition new_job :: "spawn_host \<Rightarrow> Config \<Rightarrow> gostring \<Rightarrow> SpawnRequest \<Rightarrow> int \<Rightarrow> Job" where
  "new_job h cfg i req pid =
     \<lparr>jID = i, jCommand = sqCommand req, jWorkingDirectory = sqWorkingDirectory req, jPID = pid,
      jLogPath = job_log cfg i, jStartedAt = shNow h, jState = JobRunning, jExitCode = 0,
      jEndedAt = 0, jKilled = False, jTimedOut = False\<rparr>"

definition Spawn ::
  "regexps \<Rightarrow> spawn_host \<Rightarrow> Config \<Rightarrow> bool \<Rightarrow> gostring \<Rightarrow> SpawnRequest \<Rightarrow> JobManager \<Rightarrow>
   (job_error + Job) \<times> JobManager" where
  "Spawn re h cfg latch uuid req jm =
     (case spawn_guards re h cfg latch req of
        Some e \<Rightarrow> (Inl e, jm)
      | None \<Rightarrow>
          (case shMkdir h (JobDir cfg) of
             Some msg \<Rightarrow> (Inl (JDirFailed msg), jm)
           | None \<Rightarrow>
               (let i = job_id uuid; logPath = job_log cfg i in
                case shOpenLog h logPath of
                  Some msg \<Rightarrow> (Inl (JLogFailed msg), jm)
                | None \<Rightarrow>
                    (let jm' = jm\<lparr>logs := List.insert logPath (logs jm)\<rparr>;
                         shell = (if sqShell req = [] then DefaultShell cfg else sqShell req) in
                     case shStart h shell (sqCommand req) (sqWorkingDirectory req) (sqEnvironment req) of
                       Inl msg \<Rightarrow> (Inl (JStartFailed msg), jm')
                     | Inr pid \<Rightarrow>
                         (let job = new_job h cfg i req pid
                          in (Inr job, jm'\<lparr>jobs := reg_put jID job (jobs jm')\<rparr>))))))"

text \<open>The goroutine that waits for the process, the timer callback, and the flag that \<open>Kill\<close> sets.\<close>

definition job_exit :: "nanos \<Rightarrow> wait_error \<Rightarrow> Job \<Rightarrow> Job" where
  "job_exit now w j =
     j\<lparr>jEndedAt := now,
       jExitCode := (case w of WaitOk \<Rightarrow> 0 | WaitExit c \<Rightarrow> c | _ \<Rightarrow> -1),
       jState := (if jTimedOut j then JobTimeout else if jKilled j then JobKilled else JobExited)\<rparr>"

definition job_timeout :: "Job \<Rightarrow> Job" where
  "job_timeout j = j\<lparr>jTimedOut := True\<rparr>"

definition JobGet :: "gostring \<Rightarrow> JobManager \<Rightarrow> Job option" where
  "JobGet i jm = reg_get jID (jobs jm) i"

definition JobList :: "JobManager \<Rightarrow> Job list" where
  "JobList jm = newest_first jStartedAt (jobs jm)"

datatype signal = SIGTERM | SIGINT | SIGKILL

definition parse_signal :: "gostring \<Rightarrow> signal option" where
  "parse_signal s =
     (let n = TrimPrefix (ToUpper (TrimSpace s)) ''SIG'' in
      if n = [] \<or> n = ''TERM'' then Some SIGTERM
      else if n = ''INT'' then Some SIGINT
      else if n = ''KILL'' then Some SIGKILL
      else None)"

definition Kill ::
  "(int \<Rightarrow> signal \<Rightarrow> gostring option) \<Rightarrow> gostring \<Rightarrow> gostring \<Rightarrow> JobManager \<Rightarrow>
   (job_error option \<times> signal option) \<times> JobManager" where
  "Kill send i sig jm =
     (case JobGet i jm of
        None \<Rightarrow> ((Some (JNotFound i), None), jm)
      | Some job \<Rightarrow>
          if \<not> job_running job then ((Some (JNotRunning i (jState job)), None), jm)
          else
            (case parse_signal sig of
               None \<Rightarrow> ((Some (JBadSignal sig), None), jm)
             | Some sg \<Rightarrow>
                 (let jm' = jm\<lparr>jobs := reg_upd jID i (\<lambda>j. j\<lparr>jKilled := True\<rparr>) (jobs jm)\<rparr>
                  in ((map_option JSignalFailed (send (jPID job) sg), Some sg), jm'))))"

definition JobsRunning :: "JobManager \<Rightarrow> nat" where
  "JobsRunning jm = length (filter job_running (JobList jm))"

text \<open>The finished jobs newest first, with their index; those to forget.\<close>

definition sweep_victims :: "nanos \<Rightarrow> Job list \<Rightarrow> Job list" where
  "sweep_victims now js =
     (let finished = newest_first jStartedAt (filter (\<lambda>j. \<not> job_running j) js)
      in map snd (filter (\<lambda>(i, j). maxFinishedJobs \<le> i \<or> jobRetention < now - jEndedAt j)
                    (List.enumerate 0 finished)))"

definition sweep_jobs :: "nanos \<Rightarrow> Job list \<Rightarrow> Job list" where
  "sweep_jobs now js = filter (\<lambda>j. jID j \<notin> jID ` set (sweep_victims now js)) js"

definition sweep :: "bool \<Rightarrow> nanos \<Rightarrow> JobManager \<Rightarrow> JobManager" where
  "sweep latch now jm =
     (case guardReadOnly latch ''prune job logs'' of
        Some e \<Rightarrow> jm
      | None \<Rightarrow>
          \<lparr>jobs = sweep_jobs now (jobs jm),
           logs = filter (\<lambda>p. p \<notin> jLogPath ` set (sweep_victims now (jobs jm))) (logs jm)\<rparr>)"

section \<open>Retention\<close>

lemma mem_sweep_victims:
  assumes "j \<in> set (sweep_victims now js)"
  shows "j \<in> set js \<and> \<not> job_running j \<and>
    (jobRetention < now - jEndedAt j \<or>
     j \<in> set (drop maxFinishedJobs (newest_first jStartedAt (filter (\<lambda>j. \<not> job_running j) js))))"
proof -
  let ?f = "newest_first jStartedAt (filter (\<lambda>j. \<not> job_running j) js)"
  obtain i where i: "i < length ?f" "?f ! i = j" "maxFinishedJobs \<le> i \<or> jobRetention < now - jEndedAt j"
    using assms by (auto simp: sweep_victims_def Let_def in_set_enumerate_eq)
  have "j \<in> set ?f" using i(1,2) by (metis nth_mem)
  then have j: "j \<in> set js \<and> \<not> job_running j" by simp
  have "?f ! i \<in> set (drop maxFinishedJobs ?f)" if "maxFinishedJobs \<le> i"
  proof -
    have "drop maxFinishedJobs ?f ! (i - maxFinishedJobs) = ?f ! i" using i(1) that by simp
    moreover have "i - maxFinishedJobs < length (drop maxFinishedJobs ?f)" using i(1) that by simp
    ultimately show ?thesis by (metis nth_mem)
  qed
  with i(2,3) have "jobRetention < now - jEndedAt j \<or> j \<in> set (drop maxFinishedJobs ?f)" by blast
  with j show ?thesis by blast
qed

lemma sweep_victimsI:
  assumes "i < length f" "f = newest_first jStartedAt (filter (\<lambda>j. \<not> job_running j) js)"
    and "maxFinishedJobs \<le> i \<or> jobRetention < now - jEndedAt (f ! i)"
  shows "f ! i \<in> set (sweep_victims now js)"
  using assms by (force simp: sweep_victims_def Let_def in_set_enumerate_eq)

lemma sweep_kept_finished:
  assumes "j \<in> set (sweep_jobs now js)" "\<not> job_running j"
  shows "now - jEndedAt j \<le> jobRetention \<and>
    j \<in> set (take maxFinishedJobs (newest_first jStartedAt (filter (\<lambda>j. \<not> job_running j) js)))"
proof -
  let ?f = "newest_first jStartedAt (filter (\<lambda>j. \<not> job_running j) js)"
  have "j \<in> set ?f" using assms by (auto simp: sweep_jobs_def)
  then obtain i where i: "i < length ?f" "?f ! i = j" by (metis in_set_conv_nth)
  have "j \<notin> set (sweep_victims now js)" using assms(1) by (auto simp: sweep_jobs_def)
  with sweep_victimsI [OF i(1) refl, of now] i(2)
  have "\<not> (maxFinishedJobs \<le> i \<or> jobRetention < now - jEndedAt j)" by metis
  then have "\<not> maxFinishedJobs \<le> i" "now - jEndedAt j \<le> jobRetention" by auto
  with i show ?thesis by (metis in_set_conv_nth length_take min_less_iff_conj not_le nth_take)
qed

interpretation job_retention: retention jID "\<lambda>j. \<not> job_running j" jEndedAt jStartedAt jobRetention
  maxFinishedJobs "(=)" sweep_jobs
proof
  fix m :: "Job list" and now v w
  assume ok: "reg_ok jID m"
  let ?fin = "\<lambda>j. \<not> job_running j"
  let ?f = "newest_first jStartedAt (filter ?fin m)"
  show "reg_ok jID (sweep_jobs now m)" unfolding sweep_jobs_def using ok by (rule reg_ok_filter)
  show "v \<in> set (sweep_jobs now m)" if "v \<in> set m" "\<not> \<not> job_running v"
  proof -
    have "jID v \<notin> jID ` set (sweep_victims now m)"
      using that ok by (auto dest!: mem_sweep_victims simp: distinct_map dest: inj_onD)
    with that show ?thesis by (simp add: sweep_jobs_def)
  qed
  show "\<exists>v \<in> set m. v = w \<and> (\<not> job_running w \<longleftrightarrow> \<not> job_running v) \<and> (\<not> job_running v \<longrightarrow> now - jEndedAt v \<le> jobRetention)"
    if "w \<in> set (sweep_jobs now m)"
    using that sweep_kept_finished [OF that] by (auto simp: sweep_jobs_def)
  have sub: "set (filter ?fin (sweep_jobs now m)) \<subseteq> set (take maxFinishedJobs ?f)"
    using sweep_kept_finished by auto
  have dist: "distinct (filter ?fin (sweep_jobs now m))" "distinct ?f"
    using ok by (auto simp: sweep_jobs_def distinct_map newest_first_def)
  show "length (filter ?fin (sweep_jobs now m)) \<le> maxFinishedJobs"
  proof -
    have "card (set (filter ?fin (sweep_jobs now m))) \<le> card (set (take maxFinishedJobs ?f))"
      using sub by (intro card_mono) auto
    also have "\<dots> \<le> maxFinishedJobs" using card_length [of "take maxFinishedJobs ?f"] by simp
    finally show ?thesis using distinct_card [OF dist(1)] by simp
  qed
  show "maxFinishedJobs \<le> length (filter (\<lambda>w. \<not> job_running w \<and> jStartedAt v \<le> jStartedAt w) m)"
    if v: "v \<in> set m" "\<not> job_running v" "now - jEndedAt v \<le> jobRetention" "\<forall>w \<in> set (sweep_jobs now m). v \<noteq> w"
  proof -
    obtain u where u: "u \<in> set (sweep_victims now m)" "jID u = jID v"
      using v(1,4) unfolding sweep_jobs_def by force
    then have "u = v" using ok v(1) mem_sweep_victims [OF u(1)] by (auto simp: distinct_map dest: inj_onD)
    with u have "v \<in> set (sweep_victims now m)" by simp
    then have "v \<in> set (drop maxFinishedJobs ?f)" using v(3) by (auto dest: mem_sweep_victims)
    from newest_first_beyond [OF this] have t: "length (take maxFinishedJobs ?f) = maxFinishedJobs"
      "\<forall>w \<in> set (take maxFinishedJobs ?f). jStartedAt v \<le> jStartedAt w" by auto
    have "set (take maxFinishedJobs ?f) \<subseteq> set (filter (\<lambda>w. \<not> job_running w \<and> jStartedAt v \<le> jStartedAt w) m)"
      using t(2) by (auto dest: in_set_takeD)
    then have "card (set (take maxFinishedJobs ?f)) \<le>
        length (filter (\<lambda>w. \<not> job_running w \<and> jStartedAt v \<le> jStartedAt w) m)"
      by (meson card_length card_mono finite_set order_trans)
    then show ?thesis using distinct_card [of "take maxFinishedJobs ?f"] dist(2) t(1) by simp
  qed
qed auto

text \<open>the sweep keeps what it promises: a running job is never forgotten, a job finished less than
  24 hours ago stays unless 500 finished jobs are at least as new, at most 500 finished jobs stay, and
  under read-only mode the sweep changes nothing (no log file is removed).\<close>

theorem job_sweep_retention:
  assumes "reg_ok jID (jobs jm)"
  shows "(\<forall>j \<in> set (jobs jm). job_running j \<longrightarrow> j \<in> set (jobs (sweep latch now jm))) \<and>
    (\<forall>j \<in> set (jobs jm). now - jEndedAt j \<le> jobRetention \<and>
       length (filter (\<lambda>w. \<not> job_running w \<and> jStartedAt j \<le> jStartedAt w) (jobs jm)) < maxFinishedJobs \<longrightarrow>
       j \<in> set (jobs (sweep latch now jm))) \<and>
    (\<not> latch \<longrightarrow> length (filter (\<lambda>j. \<not> job_running j) (jobs (sweep latch now jm))) \<le> maxFinishedJobs) \<and>
    (latch \<longrightarrow> sweep latch now jm = jm)"
proof (cases latch)
  case True
  then show ?thesis by (simp add: sweep_def guardReadOnly_def)
next
  case False
  then have j: "jobs (sweep latch now jm) = sweep_jobs now (jobs jm)"
    by (simp add: sweep_def guardReadOnly_def)
  show ?thesis
    unfolding j
    using job_retention.prune_running [OF assms] job_retention.prune_keeps [OF assms]
      job_retention.prune_bounded [OF assms] False by blast
qed

section \<open>Transitions\<close>

text \<open>Identifiers are fresh: the prefix of a random UUID does not repeat while a job or its log exists.\<close>

inductive job_step :: "JobManager \<Rightarrow> JobManager \<Rightarrow> bool" where
  spawn_step: "job_id uuid \<notin> jID ` set (jobs jm) \<Longrightarrow> job_log cfg (job_id uuid) \<notin> set (logs jm) \<Longrightarrow>
    Spawn re h cfg latch uuid req jm = (res, jm') \<Longrightarrow> job_step jm jm'"
| exit_step: "JobGet i jm = Some j \<Longrightarrow> job_running j \<Longrightarrow>
    job_step jm (jm\<lparr>jobs := reg_upd jID i (job_exit t w) (jobs jm)\<rparr>)"
| timeout_step: "job_step jm (jm\<lparr>jobs := reg_upd jID i job_timeout (jobs jm)\<rparr>)"
| kill_step: "Kill send i sig jm = (res, jm') \<Longrightarrow> job_step jm jm'"
| sweep_step: "job_step jm (sweep latch t jm)"

definition jobs_ok :: "JobManager \<Rightarrow> bool" where
  "jobs_ok jm \<longleftrightarrow> reg_ok jID (jobs jm) \<and> distinct (map jLogPath (jobs jm)) \<and>
     jLogPath ` set (jobs jm) \<subseteq> set (logs jm)"

text \<open>The ways a single job can change.\<close>

definition job_next :: "Job \<Rightarrow> Job \<Rightarrow> bool" where
  "job_next j j' \<longleftrightarrow> j' = j \<or> j' = job_timeout j \<or> j' = j\<lparr>jKilled := True\<rparr> \<or>
     (job_running j \<and> (\<exists>t w. j' = job_exit t w j))"

lemma job_fields [simp]:
  "jID (job_exit t w j) = jID j" "jLogPath (job_exit t w j) = jLogPath j"
  "jID (job_timeout j) = jID j" "jLogPath (job_timeout j) = jLogPath j"
  by (simp_all add: job_exit_def job_timeout_def)

lemma job_next_frozen:
  "job_next j j' \<Longrightarrow> \<not> job_running j \<Longrightarrow>
   jState j' = jState j \<and> jExitCode j' = jExitCode j \<and> jEndedAt j' = jEndedAt j"
  by (auto simp: job_next_def job_timeout_def)

lemma jobs_ok_upd:
  assumes "jobs_ok jm" "\<And>j. jID (f j) = jID j" "\<And>j. jLogPath (f j) = jLogPath j"
  shows "jobs_ok (jm\<lparr>jobs := reg_upd jID i f (jobs jm)\<rparr>)"
proof -
  have "map jLogPath (reg_upd jID i f (jobs jm)) = map jLogPath (jobs jm)"
    using assms(3) by (simp add: reg_upd_def)
  then have "jLogPath ` set (reg_upd jID i f (jobs jm)) = jLogPath ` set (jobs jm)"
    by (metis image_set)
  with assms show ?thesis
    using \<open>map jLogPath (reg_upd jID i f (jobs jm)) = map jLogPath (jobs jm)\<close>
    by (simp add: jobs_ok_def map_id_upd)
qed

lemma new_job_fields [simp]: "jID (new_job h cfg i req pid) = i" "jLogPath (new_job h cfg i req pid) = job_log cfg i"
  by (simp_all add: new_job_def)

lemma Spawn_cases:
  assumes "Spawn re h cfg latch uuid req jm = (res, jm')"
  shows "jm' = jm \<or> jm' = jm\<lparr>logs := List.insert (job_log cfg (job_id uuid)) (logs jm)\<rparr> \<or>
    (\<exists>pid. jm' = jm\<lparr>logs := List.insert (job_log cfg (job_id uuid)) (logs jm),
       jobs := reg_put jID (new_job h cfg (job_id uuid) req pid) (jobs jm)\<rparr>)"
  using assms by (auto simp: Spawn_def Let_def split: option.splits sum.splits)

lemma jobs_ok_step: "job_step jm jm' \<Longrightarrow> jobs_ok jm \<Longrightarrow> jobs_ok jm'"
proof (induction rule: job_step.induct)
  case (spawn_step uuid jm cfg re h latch req res jm')
  have "jobs_ok (jm\<lparr>logs := List.insert l (logs jm)\<rparr>)" for l
    using spawn_step(4) by (auto simp: jobs_ok_def)
  moreover have "jobs_ok (jm\<lparr>logs := List.insert (job_log cfg (job_id uuid)) (logs jm),
      jobs := reg_put jID (new_job h cfg (job_id uuid) req pid) (jobs jm)\<rparr>)" for pid
  proof -
    have "reg_del jID (job_id uuid) (jobs jm) = jobs jm"
      using spawn_step(1) by (force simp: reg_del_def filter_id_conv)
    moreover have "job_log cfg (job_id uuid) \<notin> jLogPath ` set (jobs jm)"
      using spawn_step(2,4) by (auto simp: jobs_ok_def)
    ultimately show ?thesis using spawn_step(1,4) by (auto simp: jobs_ok_def reg_put_def)
  qed
  ultimately show ?case using Spawn_cases [OF spawn_step(3)] spawn_step(4) by auto
next
  case (exit_step i jm j t w)
  then show ?case by (intro jobs_ok_upd) simp_all
next
  case (timeout_step jm i)
  then show ?case by (intro jobs_ok_upd) simp_all
next
  case (kill_step send i sig jm res jm')
  then show ?case
    using jobs_ok_upd [of jm "\<lambda>j. j\<lparr>jKilled := True\<rparr>" i]
    by (auto simp: Kill_def Let_def split: option.splits if_splits)
next
  case (sweep_step jm latch t)
  show ?case
  proof (cases latch)
    case False
    have inj: "inj_on jLogPath (set (jobs jm))" using sweep_step by (simp add: jobs_ok_def distinct_map)
    have vict: "set (sweep_victims t (jobs jm)) \<subseteq> set (jobs jm)" using mem_sweep_victims by blast
    have "jLogPath j \<notin> jLogPath ` set (sweep_victims t (jobs jm))"
      if "j \<in> set (sweep_jobs t (jobs jm))" for j
    proof
      assume "jLogPath j \<in> jLogPath ` set (sweep_victims t (jobs jm))"
      then obtain v where v: "v \<in> set (sweep_victims t (jobs jm))" "jLogPath j = jLogPath v" by auto
      moreover have "j \<in> set (jobs jm)" using that by (simp add: sweep_jobs_def)
      ultimately have "j = v" using inj vict by (auto dest: inj_onD)
      with that v(1) show False by (auto simp: sweep_jobs_def)
    qed
    with False sweep_step show ?thesis
      by (auto simp: jobs_ok_def sweep_def guardReadOnly_def sweep_jobs_def distinct_map_filter)
  qed (use sweep_step in \<open>simp add: sweep_def guardReadOnly_def\<close>)
qed

text \<open>The history of the job registry.\<close>

inductive job_reach :: "JobManager \<Rightarrow> JobManager \<Rightarrow> bool" for jm where
  job_refl: "job_reach jm jm"
| job_trans: "job_reach jm jm' \<Longrightarrow> job_step jm' jm'' \<Longrightarrow> job_reach jm jm''"


lemma upd_next:
  assumes "reg_ok jID m" "j \<in> set m" "j' \<in> set (reg_upd jID i f m)" "jID j' = jID j"
    "\<And>j. jID (f j) = jID j" shows "j' = (if jID j = i then f j else j)"
proof -
  obtain v where "v \<in> set m" "j' = (if jID v = i then f v else v)"
    using assms(3) by (auto simp: set_reg_upd)
  moreover have "jID v = jID j" using calculation assms(4,5) by (auto split: if_splits)
  then have "v = j" using assms(1,2) \<open>v \<in> set m\<close> by (auto simp: distinct_map dest: inj_onD)
  ultimately show ?thesis by simp
qed

lemma job_step_next:
  assumes "job_step jm jm'" "reg_ok jID (jobs jm)" "j \<in> set (jobs jm)" "j' \<in> set (jobs jm')" "jID j' = jID j"
  shows "job_next j j'"
  using assms(1)
proof (cases rule: job_step.cases)
  case (spawn_step uuid cfg re h latch req res)
  have "j' \<in> set (jobs jm) \<or> jID j' = job_id uuid"
    using Spawn_cases [OF spawn_step(3)] assms(4) by auto
  moreover have "jID j \<noteq> job_id uuid" using spawn_step(1) assms(3) by force
  ultimately show ?thesis using assms(2-5) by (auto simp: job_next_def distinct_map dest: inj_onD)
next
  case (exit_step i k t w)
  have "j' = (if jID j = i then job_exit t w j else j)"
    using upd_next [OF assms(2,3) _ assms(5), of i "job_exit t w"] assms(4) exit_step by simp
  moreover have "job_running j" if "jID j = i"
    using exit_step that assms(2,3) by (auto simp: JobGet_def reg_get_iff distinct_map dest: inj_onD)
  ultimately show ?thesis by (auto simp: job_next_def)
next
  case (timeout_step i)
  then have "j' = (if jID j = i then job_timeout j else j)"
    using upd_next [OF assms(2,3) _ assms(5), of i job_timeout] assms(4) by simp
  then show ?thesis by (auto simp: job_next_def)
next
  case (kill_step send i sig res)
  then have "jobs jm' = jobs jm \<or> jobs jm' = reg_upd jID i (\<lambda>j. j\<lparr>jKilled := True\<rparr>) (jobs jm)"
    by (auto simp: Kill_def Let_def split: option.splits if_splits)
  then show ?thesis
  proof
    assume "jobs jm' = jobs jm"
    then show ?thesis using assms(2-5) by (auto simp: job_next_def distinct_map dest: inj_onD)
  next
    assume "jobs jm' = reg_upd jID i (\<lambda>j. j\<lparr>jKilled := True\<rparr>) (jobs jm)"
    then have "j' = (if jID j = i then j\<lparr>jKilled := True\<rparr> else j)"
      using assms(4) by (intro upd_next [OF assms(2,3) _ assms(5)]) simp_all
    then show ?thesis by (auto simp: job_next_def split: if_splits)
  qed
next
  case (sweep_step latch t)
  then have "j' \<in> set (jobs jm)"
    using assms(4) by (cases latch) (auto simp: sweep_def guardReadOnly_def sweep_jobs_def)
  then show ?thesis using assms(2,3,5) by (auto simp: job_next_def distinct_map dest: inj_onD)
qed

text \<open>the outcome of a job is final: no later transition (a late timer, a kill request, another job,
  a sweep) changes the state, exit code or end time of a finished job that is still registered.\<close>

theorem job_outcome_final:
  assumes "job_step jm jm'" "reg_ok jID (jobs jm)" "j \<in> set (jobs jm)" "\<not> job_running j"
    and "j' \<in> set (jobs jm')" "jID j' = jID j"
  shows "jState j' = jState j \<and> jExitCode j' = jExitCode j \<and> jEndedAt j' = jEndedAt j"
  using job_next_frozen [OF job_step_next [OF assms(1-3,5,6)] assms(4)] .

text \<open>the kill timer of a job.  A \<open>timeout_seconds\<close> up to 9223372036 arms a timer of exactly that
  many seconds and none is armed for zero; the conversion is not guarded beyond that: one second more
  wraps around to a negative delay, so the timer fires at once.\<close>

theorem job_timer_range:
  "(sqTimeoutSeconds req \<le> 0 \<longrightarrow> job_timer req = None) \<and>
   (0 < sqTimeoutSeconds req \<and> sqTimeoutSeconds req \<le> 9223372036 \<longrightarrow>
      job_timer req = Some (sqTimeoutSeconds req * Second)) \<and>
   (sqTimeoutSeconds req = 9223372037 \<longrightarrow> (\<exists>d. job_timer req = Some d \<and> d < 0))"
proof -
  have "i64 (n * Second) = n * Second" if "0 < n" "n \<le> 9223372036" for n
    using that by (intro i64_id) (auto simp: go_defs)
  then show ?thesis by (auto simp: job_timer_def i64_def go_defs)
qed

section \<open>Examples\<close>

definition example_job :: Job where
  "example_job = \<lparr>jID = ''job-1'', jCommand = ''x'', jWorkingDirectory = [], jPID = 7, jLogPath = ''/tmp/job-1.log'',
     jStartedAt = 0, jState = JobRunning, jExitCode = 0, jEndedAt = 0, jKilled = False, jTimedOut = False\<rparr>"

theorem job_sweep_retention_witness:
  "example_job \<in> set (jobs (sweep False (Hour * 99) \<lparr>jobs = [example_job], logs = []\<rparr>))"
  using job_sweep_retention [of "\<lparr>jobs = [example_job], logs = []\<rparr>" False "Hour * 99"]
  by (simp add: example_job_def job_running_def)

definition example_spawn_host :: spawn_host where
  "example_spawn_host = \<lparr>shDirs = \<lparr>dirStat = (\<lambda>d. StatDir), startCmd = (\<lambda>sp. Inl []), clock = 0\<rparr>,
     shMkdir = (\<lambda>d. None), shOpenLog = (\<lambda>p. None), shStart = (\<lambda>s c d e. Inr 7), shNow = 0\<rparr>"

definition example_spawn :: SpawnRequest where
  "example_spawn = \<lparr>sqCommand = ''rm'', sqWorkingDirectory = [], sqEnvironment = [], sqShell = [],
     sqTimeoutSeconds = 9223372037\<rparr>"


theorem job_outcome_final_witness:
  "\<exists>jm'. job_step \<lparr>jobs = [job_exit 5 (WaitExit 3) example_job], logs = []\<rparr> jm' \<and>
    (\<exists>j' \<in> set (jobs jm'). jTimedOut j' \<and> jState j' = JobExited \<and> jExitCode j' = 3)"
proof -
  let ?j = "job_exit 5 (WaitExit 3) example_job"
  let ?jm = "\<lparr>jobs = [?j], logs = []\<rparr> :: JobManager"
  let ?jm' = "?jm\<lparr>jobs := reg_upd jID ''job-1'' job_timeout (jobs ?jm)\<rparr>"
  have s: "job_step ?jm ?jm'" by (rule job_step.timeout_step)
  have m: "job_timeout ?j \<in> set (jobs ?jm')" by (simp add: reg_upd_def job_exit_def example_job_def)
  have "jState (job_timeout ?j) = jState ?j \<and> jExitCode (job_timeout ?j) = jExitCode ?j \<and>
      jEndedAt (job_timeout ?j) = jEndedAt ?j"
    by (rule job_outcome_final [OF s _ _ _ m])
      (simp_all add: job_running_def job_exit_def example_job_def)
  then have "jTimedOut (job_timeout ?j) \<and> jState (job_timeout ?j) = JobExited \<and> jExitCode (job_timeout ?j) = 3"
    by (simp add: job_exit_def example_job_def job_timeout_def)
  with s m show ?thesis by blast
qed

theorem job_timer_range_witness: "\<exists>d. job_timer example_spawn = Some d \<and> d < 0"
  using job_timer_range [of example_spawn] by (simp add: example_spawn_def)

end
