(* ===== verification/Wait_Scan.thy ===== *)
theory Wait_Scan
  imports Text_Encoding
begin

text \<open>
  Scanning a growing file for a matching line (\<open>scanFileForMatch\<close> and the \<open>log_regex\<close> and
  \<open>file_contains\<close> probes of \<open>waitfor.go\<close>).  A file is its identity, its modification time and its
  bytes; the compiled pattern is its match predicate, a parameter.
\<close>

section \<open>Definitions\<close>

definition maxWaitScanBytes :: nat where [go_defs]: "maxWaitScanBytes = 67108864"
definition maxWaitLineBytes :: nat where [go_defs]: "maxWaitLineBytes = 1048576"

record file_state =
  fileId :: nat
  fileMtime :: nanos
  fileData :: bytes

text \<open>The text a line is matched on: its head, without the line ending, decoded where an encoding is
  given and decoding succeeds.\<close>

definition line_text :: "codec \<Rightarrow> gostring \<Rightarrow> bytes \<Rightarrow> gostring" where
  "line_text cd encoding raw =
     (let line = TrimRight (take maxWaitLineBytes raw) [cr, nl]
      in if encoding \<noteq> [] then decode_or_raw cd line encoding else line)"

definition maxWaitMatchLen :: nat where [go_defs]: "maxWaitMatchLen = 2000"

definition truncateString :: "gostring \<Rightarrow> nat \<Rightarrow> gostring" where
  "truncateString s lim = (if length s \<le> lim then s else take lim s)"

datatype scan_result =
    Found gostring nat nat
  | NoMatch nat nat

text \<open>The loop over the lines of the window: \<open>n\<close> lines and \<open>consumed\<close> bytes of complete lines so far.\<close>

function scan_loop ::
  "(gostring \<Rightarrow> bool) \<Rightarrow> codec \<Rightarrow> gostring \<Rightarrow> nat \<Rightarrow> bytes \<Rightarrow> nat \<Rightarrow> nat \<Rightarrow> scan_result" where
  "scan_loop re cd encoding tot w n consumed =
     (case IndexByte w nl of
        Some i \<Rightarrow>
          (let raw = take (Suc i) w; line = line_text cd encoding raw in
           if re line then Found (truncateString line maxWaitMatchLen) (Suc n) (consumed + Suc i)
           else scan_loop re cd encoding tot (drop (Suc i) w) (Suc n) (consumed + Suc i))
      | None \<Rightarrow>
          if w \<noteq> [] \<and> re (line_text cd encoding w)
          then Found (truncateString (line_text cd encoding w) maxWaitMatchLen) (Suc n) (consumed + length w)
          else NoMatch (if w \<noteq> [] then Suc n else n)
                 (if consumed = 0 \<and> maxWaitScanBytes \<le> tot then tot else consumed))"
  by pat_completeness auto
termination
  by (relation "measure (\<lambda>(re, cd, e, t, w, n, c). length w)") (auto dest: IndexByte_Some)

declare scan_loop.simps [simp del]

definition scanFileForMatch ::
  "(gostring \<Rightarrow> bool) \<Rightarrow> codec \<Rightarrow> gostring \<Rightarrow> bytes \<Rightarrow> nat \<Rightarrow> scan_result" where
  "scanFileForMatch re cd encoding data offset =
     (let w = take maxWaitScanBytes (drop offset data)
      in scan_loop re cd encoding (length w) w 0 0)"

text \<open>The \<open>log_regex\<close> probe: its state is the read position and the file last seen.\<close>

record log_cursor =
  lcOffset :: nat
  lcSeen :: "nat option"

definition log_start :: "file_state option \<Rightarrow> log_cursor" where
  "log_start fs =
     (case fs of
        None \<Rightarrow> \<lparr>lcOffset = 0, lcSeen = None\<rparr>
      | Some f \<Rightarrow> \<lparr>lcOffset = length (fileData f), lcSeen = Some (fileId f)\<rparr>)"

definition log_probe ::
  "(gostring \<Rightarrow> bool) \<Rightarrow> codec \<Rightarrow> gostring \<Rightarrow> file_state option \<Rightarrow> log_cursor \<Rightarrow> gostring option \<times> log_cursor" where
  "log_probe re cd encoding fs c =
     (case fs of
        None \<Rightarrow> (None, c)
      | Some f \<Rightarrow>
          (let rotated = (length (fileData f) < lcOffset c \<or> (lcSeen c \<noteq> None \<and> lcSeen c \<noteq> Some (fileId f)));
               off = (if rotated then 0 else lcOffset c)
           in case scanFileForMatch re cd encoding (fileData f) off of
                Found line n consumed \<Rightarrow> (Some line, \<lparr>lcOffset = off, lcSeen = Some (fileId f)\<rparr>)
              | NoMatch n consumed \<Rightarrow> (None, \<lparr>lcOffset = off + consumed, lcSeen = Some (fileId f)\<rparr>)))"

text \<open>The \<open>file_contains\<close> probe remembers the file it last scanned without a match, and when.\<close>

record contains_cache =
  ccId :: nat
  ccSize :: nat
  ccMtime :: nanos
  ccAt :: nanos

definition unchanged :: "file_state \<Rightarrow> contains_cache \<Rightarrow> bool" where
  "unchanged f c \<longleftrightarrow>
     fileId f = ccId c \<and> length (fileData f) = ccSize c \<and> fileMtime f = ccMtime c \<and>
     2 * Second < ccAt c - fileMtime f"

definition contains_probe ::
  "(gostring \<Rightarrow> bool) \<Rightarrow> codec \<Rightarrow> gostring \<Rightarrow> nanos \<Rightarrow> file_state option \<Rightarrow> contains_cache option
     \<Rightarrow> (nat \<times> gostring) option \<times> contains_cache option" where
  "contains_probe re cd encoding now fs cache =
     (case fs of
        None \<Rightarrow> (None, cache)
      | Some f \<Rightarrow>
          if (case cache of None \<Rightarrow> False | Some c \<Rightarrow> unchanged f c) then (None, cache)
          else
            (case scanFileForMatch re cd encoding (fileData f) 0 of
               Found line n consumed \<Rightarrow> (Some (n, line), cache)
             | NoMatch n consumed \<Rightarrow>
                 (None, Some \<lparr>ccId = fileId f, ccSize = length (fileData f), ccMtime = fileMtime f, ccAt = now\<rparr>)))"

section \<open>What a scan finds\<close>

text \<open>The complete lines of a byte string, each with its newline, and what follows the last newline.\<close>

function full_lines :: "bytes \<Rightarrow> bytes list" where
  "full_lines w =
     (case IndexByte w nl of None \<Rightarrow> [] | Some i \<Rightarrow> take (Suc i) w # full_lines (drop (Suc i) w))"
  by pat_completeness auto
termination
  by (relation "measure length") (auto dest: IndexByte_Some)

declare full_lines.simps [simp del]

definition line_bytes :: "bytes \<Rightarrow> nat" where
  "line_bytes w = length (concat (full_lines w))"

lemma full_lines_step:
  "IndexByte w nl = Some i \<Longrightarrow> full_lines w = take (Suc i) w # full_lines (drop (Suc i) w)"
  by (simp add: full_lines.simps [of w])

lemma full_lines_none: "nl \<notin> set w \<Longrightarrow> full_lines w = []"
  by (simp add: full_lines.simps [of w])

lemma full_lines_prefix: "\<exists>r. w = concat (full_lines w) @ r \<and> nl \<notin> set r"
proof (induction w rule: full_lines.induct)
  case (1 w)
  show ?case
  proof (cases "IndexByte w nl")
    case None
    then show ?thesis by (simp add: full_lines_none)
  next
    case (Some i)
    with 1 [OF Some] obtain r where r: "drop (Suc i) w = concat (full_lines (drop (Suc i) w)) @ r" "nl \<notin> set r"
      by blast
    have "w = take (Suc i) w @ drop (Suc i) w" by simp
    then have "w = take (Suc i) w @ concat (full_lines (drop (Suc i) w)) @ r" using r(1) by metis
    with r(2) show ?thesis by (intro exI [of _ r]) (simp add: full_lines_step [OF Some])
  qed
qed

lemma line_bytes_le: "line_bytes w \<le> length w"
  using full_lines_prefix [of w] unfolding line_bytes_def by (metis le_add1 length_append)

lemma full_lines_append_nl:
  "nl \<notin> set s \<Longrightarrow> full_lines (s @ nl # t) = (s @ [nl]) # full_lines t"
  using full_lines_step [of "s @ nl # t" "length s"] by (simp add: IndexByte_append)

text \<open>Lines of a string cut at the end of a line.\<close>

lemma full_lines_append:
  assumes "concat (full_lines u) = u" shows "full_lines (u @ v) = full_lines u @ full_lines v"
  using assms
proof (induction u rule: full_lines.induct)
  case (1 u)
  show ?case
  proof (cases "IndexByte u nl")
    case None
    with 1 have "u = []" by (simp add: full_lines_none)
    then show ?thesis by (simp add: full_lines_none)
  next
    case (Some i)
    have i: "i < length u" "u ! i = nl" "nl \<notin> set (take i u)" using IndexByte_Some [OF Some] by auto
    have s: "full_lines u = take (Suc i) u # full_lines (drop (Suc i) u)" by (rule full_lines_step [OF Some])
    have "take (Suc i) u @ concat (full_lines (drop (Suc i) u)) = take (Suc i) u @ drop (Suc i) u"
      using 1(2) s by simp
    then have c: "concat (full_lines (drop (Suc i) u)) = drop (Suc i) u" unfolding same_append_eq .
    have "u @ v = take i u @ nl # (drop (Suc i) u @ v)"
      using i by (metis Cons_nth_drop_Suc append.assoc append_Cons append_take_drop_id)
    then have "full_lines (u @ v) = (take i u @ [nl]) # full_lines (drop (Suc i) u @ v)"
      using full_lines_append_nl [OF i(3)] by metis
    with 1(1) [OF Some c] s i show ?thesis by (simp add: take_Suc_conv_app_nth)
  qed
qed

lemma concat_full_lines_idem: "concat (full_lines (concat (full_lines w))) = concat (full_lines w)"
proof (induction w rule: full_lines.induct)
  case (1 w)
  show ?case
  proof (cases "IndexByte w nl")
    case None
    then show ?thesis by (simp add: full_lines_none)
  next
    case (Some i)
    have i: "i < length w" "w ! i = nl" "nl \<notin> set (take i w)" using IndexByte_Some [OF Some] by auto
    have "take (Suc i) w = take i w @ [nl]" using i by (simp add: take_Suc_conv_app_nth)
    then have "full_lines (take (Suc i) w @ t) = take (Suc i) w # full_lines t" for t
      using full_lines_append_nl [OF i(3), of t] by simp
    with 1 [OF Some] show ?thesis by (simp add: full_lines_step [OF Some])
  qed
qed

lemma full_lines_take_bytes: "full_lines (take (line_bytes w) w) = full_lines w"
proof -
  obtain r where r: "w = concat (full_lines w) @ r" "nl \<notin> set r" using full_lines_prefix by blast
  have t: "take (line_bytes w) w = concat (full_lines w)"
    unfolding line_bytes_def by (metis append_eq_conv_conj r(1))
  have "full_lines (concat (full_lines w) @ r) = full_lines (concat (full_lines w)) @ full_lines r"
    by (rule full_lines_append) (rule concat_full_lines_idem)
  with r t show ?thesis by (simp add: full_lines_none)
qed

text \<open>A scan that finds nothing has looked at every complete line of its window and consumed exactly
  those, except that a window of maximal size without any newline is skipped whole.\<close>

lemma scan_loop_NoMatch:
  "scan_loop re cd encoding tot w n consumed = NoMatch n' c' \<Longrightarrow>
   (\<forall>raw \<in> set (full_lines w). \<not> re (line_text cd encoding raw)) \<and>
   c' = (if consumed + line_bytes w = 0 \<and> maxWaitScanBytes \<le> tot then tot else consumed + line_bytes w)"
proof (induction re cd encoding tot w n consumed rule: scan_loop.induct)
  case (1 re cd encoding tot w n consumed)
  show ?case
  proof (cases "IndexByte w nl")
    case None
    with 1(2) show ?thesis
      by (auto simp: scan_loop.simps [of _ _ _ _ w] full_lines_none line_bytes_def split: if_splits)
  next
    case (Some i)
    have i: "i < length w" using IndexByte_Some [OF Some] by blast
    with 1(2) Some have n: "\<not> re (line_text cd encoding (take (Suc i) w))"
      "scan_loop re cd encoding tot (drop (Suc i) w) (Suc n) (consumed + Suc i) = NoMatch n' c'"
      by (auto simp: scan_loop.simps [of _ _ _ _ w] Let_def split: if_splits)
    from 1(1) [OF Some refl refl n(1) n(2)] n(1) i show ?thesis
      by (auto simp: full_lines_step [OF Some] line_bytes_def)
  qed
qed

lemma scan_NoMatch:
  assumes "scanFileForMatch re cd encoding data off = NoMatch n c"
  defines "w \<equiv> take maxWaitScanBytes (drop off data)"
  assumes "length w = maxWaitScanBytes \<Longrightarrow> full_lines w \<noteq> []"
  shows "(\<forall>raw \<in> set (full_lines w). \<not> re (line_text cd encoding raw)) \<and> c = line_bytes w"
proof -
  have "(\<forall>raw \<in> set (full_lines w). \<not> re (line_text cd encoding raw)) \<and>
      c = (if 0 + line_bytes w = 0 \<and> maxWaitScanBytes \<le> length w then length w else 0 + line_bytes w)"
    using assms(1) unfolding scanFileForMatch_def Let_def w_def [symmetric] by (rule scan_loop_NoMatch)
  moreover have "line_bytes w \<noteq> 0" if "maxWaitScanBytes \<le> length w"
  proof -
    have "full_lines w \<noteq> []" using that assms(3) by (simp add: w_def)
    then obtain raw rs where "full_lines w = raw # rs" by (cases "full_lines w") auto
    moreover from this have "raw \<noteq> []"
      by (auto simp: full_lines.simps [of w] dest!: IndexByte_Some split: option.splits)
    ultimately show ?thesis by (simp add: line_bytes_def)
  qed
  ultimately show ?thesis by auto
qed

section \<open>A watcher on a growing log\<close>

fun log_watch ::
  "(gostring \<Rightarrow> bool) \<Rightarrow> codec \<Rightarrow> gostring \<Rightarrow> file_state list \<Rightarrow> log_cursor \<Rightarrow> gostring option \<times> log_cursor" where
  "log_watch re cd encoding [] c = (None, c)"
| "log_watch re cd encoding (f # fs) c =
     (case log_probe re cd encoding (Some f) c of
        (Some line, c') \<Rightarrow> (Some line, c')
      | (None, c') \<Rightarrow> log_watch re cd encoding fs c')"

text \<open>A log that only grows, seen at successive probes.\<close>

fun growing :: "nat \<Rightarrow> bytes \<Rightarrow> file_state list \<Rightarrow> bool" where
  "growing i d [] = True"
| "growing i d (f # fs) =
     (fileId f = i \<and> take (length d) (fileData f) = d \<and> growing i (fileData f) fs)"

definition short_lines :: "bytes \<Rightarrow> bool" where
  "short_lines x \<longleftrightarrow> (\<forall>l \<in> set (split_on nl x). length l < maxWaitScanBytes)"

lemma split_on_first: "c \<notin> set w \<Longrightarrow> \<exists>l ls. split_on c (w @ b) = (w @ l) # ls"
proof (induction w)
  case Nil
  obtain l ls where "split_on c b = l # ls" by (cases "split_on c b") auto
  then show ?case by auto
next
  case (Cons x w)
  then obtain l ls where "split_on c (w @ b) = (w @ l) # ls" by auto
  with Cons.prems show ?case by auto
qed

lemma split_on_segment: "c \<notin> set w \<Longrightarrow> \<exists>l \<in> set (split_on c (a @ w @ b)). length w \<le> length l"
proof (induction a)
  case Nil
  with split_on_first [of c w b] show ?case by force
next
  case (Cons x a)
  then obtain l where l: "l \<in> set (split_on c (a @ w @ b))" "length w \<le> length l" by blast
  obtain y ys where "split_on c (a @ w @ b) = y # ys" by (cases "split_on c (a @ w @ b)") auto
  with l show ?case by (auto intro: le_SucI)
qed

lemma short_window:
  assumes "short_lines x" "length (take maxWaitScanBytes (drop k x)) = maxWaitScanBytes"
  shows "full_lines (take maxWaitScanBytes (drop k x)) \<noteq> []"
proof -
  let ?w = "take maxWaitScanBytes (drop k x)"
  have x: "x = take k x @ ?w @ drop maxWaitScanBytes (drop k x)" by (metis append_take_drop_id)
  have "nl \<in> set ?w"
  proof (rule ccontr)
    assume "nl \<notin> set ?w"
    from split_on_segment [OF this, of "take k x" "drop maxWaitScanBytes (drop k x)"] x assms
    show False by (auto simp: short_lines_def)
  qed
  then obtain i where "IndexByte ?w nl = Some i" by (cases "IndexByte ?w nl") auto
  then show ?thesis by (simp add: full_lines.simps [of ?w])
qed

definition watched :: "(gostring \<Rightarrow> bool) \<Rightarrow> codec \<Rightarrow> gostring \<Rightarrow> nat \<Rightarrow> bytes \<Rightarrow> log_cursor \<Rightarrow> bool" where
  "watched re cd encoding base d c \<longleftrightarrow>
     base \<le> lcOffset c \<and> lcOffset c \<le> length d \<and>
     (let u = take (lcOffset c - base) (drop base d)
      in concat (full_lines u) = u \<and> (\<forall>raw \<in> set (full_lines u). \<not> re (line_text cd encoding raw)))"

lemma watched_grow:
  assumes "watched re cd encoding base d c" "take (length d) d' = d"
  shows "watched re cd encoding base d' c"
proof -
  have "length d \<le> length d'" using assms(2) by (metis length_take min.cobounded1)
  moreover have "take (lcOffset c - base) (drop base d') = take (lcOffset c - base) (drop base d)"
    if "lcOffset c \<le> length d" "base \<le> lcOffset c"
  proof -
    have "take (lcOffset c) d' = take (lcOffset c) (take (length d) d')" using that by (simp add: min_def)
    then have "take (lcOffset c) d' = take (lcOffset c) d" using assms(2) by simp
    then show ?thesis by (simp add: drop_take [symmetric])
  qed
  ultimately show ?thesis using assms(1) by (auto simp: watched_def Let_def)
qed

lemma watched_probe:
  assumes w: "watched re cd encoding base (fileData f) c" and i: "lcSeen c = None \<or> lcSeen c = Some (fileId f)"
    and s: "short_lines (drop base (fileData f))"
    and p: "log_probe re cd encoding (Some f) c = (None, c')"
  shows "watched re cd encoding base (fileData f) c' \<and> lcSeen c' = Some (fileId f) \<and>
    lcOffset c' = lcOffset c + line_bytes (take maxWaitScanBytes (drop (lcOffset c) (fileData f)))"
proof -
  let ?d = "fileData f" and ?off = "lcOffset c"
  let ?w = "take maxWaitScanBytes (drop ?off ?d)"
  let ?u = "take (?off - base) (drop base ?d)" and ?v = "take (line_bytes ?w) ?w"
  have off: "base \<le> ?off" "?off \<le> length ?d" using w by (auto simp: watched_def)
  have nrot: "\<not> (length ?d < ?off \<or> (lcSeen c \<noteq> None \<and> lcSeen c \<noteq> Some (fileId f)))"
    using off i by auto
  obtain n k where scan: "scanFileForMatch re cd encoding ?d ?off = NoMatch n k"
    and c': "c' = \<lparr>lcOffset = ?off + k, lcSeen = Some (fileId f)\<rparr>"
    using p nrot unfolding log_probe_def Let_def
    by (cases "scanFileForMatch re cd encoding ?d ?off") (auto simp del: de_Morgan_disj)
  have "full_lines ?w \<noteq> []" if "length ?w = maxWaitScanBytes"
  proof -
    have "drop (?off - base) (drop base ?d) = drop ?off ?d" using off by simp
    then show ?thesis using short_window [OF s, of "?off - base"] that by metis
  qed
  from scan_NoMatch [OF scan this] have k: "\<forall>raw \<in> set (full_lines ?w). \<not> re (line_text cd encoding raw)"
    "k = line_bytes ?w" by auto
  have v: "full_lines ?v = full_lines ?w" "concat (full_lines ?v) = ?v"
  proof -
    show f: "full_lines ?v = full_lines ?w" by (rule full_lines_take_bytes)
    show "concat (full_lines ?v) = ?v"
      unfolding f using full_lines_prefix [of ?w] by (metis append_eq_conv_conj line_bytes_def)
  qed
  have k_le: "k \<le> length ?w" unfolding k(2) by (rule line_bytes_le)
  have "?off + k - base = (?off - base) + k" using off by simp
  then have "take (?off + k - base) (drop base ?d) = ?u @ take k (drop (?off - base) (drop base ?d))"
    by (simp only: take_add)
  also have "take k (drop (?off - base) (drop base ?d)) = ?v"
  proof -
    have "k \<le> maxWaitScanBytes" using k_le by simp
    then have "take k ?w = take k (drop ?off ?d)" by (simp add: min_def)
    then show ?thesis using off k(2) by simp
  qed
  finally have u': "take (?off + k - base) (drop base ?d) = ?u @ ?v" .
  have fu: "full_lines (?u @ ?v) = full_lines ?u @ full_lines ?v"
    using w by (intro full_lines_append) (simp add: watched_def Let_def)
  show ?thesis
    using w off k_le k fu v u' c' by (auto simp: watched_def Let_def)
qed

lemma log_watch_watched:
  assumes "watched re cd encoding base d c" "lcSeen c = None \<or> lcSeen c = Some i" "growing i d fs"
    and "\<forall>f \<in> set fs. short_lines (drop base (fileData f))"
    and "log_watch re cd encoding fs c = (None, c')"
  shows "watched re cd encoding base (if fs = [] then d else fileData (last fs)) c' \<and>
    (lcSeen c' = None \<or> lcSeen c' = Some i)"
  using assms
proof (induction fs arbitrary: d c)
  case (Cons f fs)
  from Cons.prems(5) obtain c1 where c1: "log_probe re cd encoding (Some f) c = (None, c1)"
    "log_watch re cd encoding fs c1 = (None, c')" by (auto split: prod.splits option.splits)
  have w: "watched re cd encoding base (fileData f) c"
    by (rule watched_grow [OF Cons.prems(1)]) (use Cons.prems(3) in simp)
  have "lcSeen c = None \<or> lcSeen c = Some (fileId f)" "short_lines (drop base (fileData f))"
    using Cons.prems(2,3,4) by auto
  from watched_probe [OF w this c1(1)]
  have "watched re cd encoding base (fileData f) c1 \<and> lcSeen c1 = Some (fileId f)" by blast
  moreover have "growing i (fileData f) fs" "fileId f = i" "\<forall>f \<in> set fs. short_lines (drop base (fileData f))"
    using Cons.prems(3,4) by auto
  ultimately show ?case using Cons.IH [of "fileData f" c1] c1(2) by (simp split: if_splits)
qed simp

lemma growing_snoc:
  "growing i d (fs @ [f]) \<Longrightarrow> growing i d fs \<and> fileId f = i \<and>
   take (length (if fs = [] then d else fileData (last fs))) (fileData f) = (if fs = [] then d else fileData (last fs))"
proof (induction fs arbitrary: d)
  case (Cons g gs)
  then have "fileId g = i" "take (length d) (fileData g) = d" "growing i (fileData g) (gs @ [f])" by auto
  with Cons.IH [of "fileData g"] show ?case by (cases "gs = []") simp_all
qed simp

text \<open>C28: a log watcher misses nothing.  Let a log only grow while it is watched, with no single line of
  64 MB or more.  If every probe so far found nothing and the last one had at most 64 MB left to read,
  then no complete line appended since the watch started matches the pattern: each appended line was
  examined, whatever the lengths of the probes' windows and wherever writes were cut off.\<close>

theorem log_watch_complete:
  assumes start: "c0 = log_start (Some f0)"
    and grow: "growing (fileId f0) (fileData f0) (fs @ [f])"
    and short: "\<forall>g \<in> set (fs @ [f]). short_lines (drop (length (fileData f0)) (fileData g))"
    and before: "log_watch re cd encoding fs c0 = (None, c1)"
    and last_probe: "log_probe re cd encoding (Some f) c1 = (None, c2)"
    and reach: "length (fileData f) - lcOffset c1 \<le> maxWaitScanBytes"
    and line: "raw \<in> set (full_lines (drop (length (fileData f0)) (fileData f)))"
  shows "\<not> re (line_text cd encoding raw)"
proof -
  let ?b = "length (fileData f0)" and ?d = "fileData f"
  have w0: "watched re cd encoding ?b (fileData f0) c0" "lcSeen c0 = Some (fileId f0)"
    by (auto simp: start log_start_def watched_def full_lines_none)
  have g: "growing (fileId f0) (fileData f0) fs"
    "fileId f = fileId f0 \<and> take (length (if fs = [] then fileData f0 else fileData (last fs))) ?d
       = (if fs = [] then fileData f0 else fileData (last fs))"
    using growing_snoc [OF grow] by auto
  have w1: "watched re cd encoding ?b (if fs = [] then fileData f0 else fileData (last fs)) c1"
    "lcSeen c1 = None \<or> lcSeen c1 = Some (fileId f0)"
  proof -
    have "lcSeen c0 = None \<or> lcSeen c0 = Some (fileId f0)" using w0(2) by simp
    moreover have "\<forall>f \<in> set fs. short_lines (drop ?b (fileData f))" using short by simp
    ultimately show "watched re cd encoding ?b (if fs = [] then fileData f0 else fileData (last fs)) c1"
      "lcSeen c1 = None \<or> lcSeen c1 = Some (fileId f0)"
      using log_watch_watched [OF w0(1) _ g(1) _ before] by blast+
  qed
  have w1': "watched re cd encoding ?b ?d c1" using watched_grow [OF w1(1)] g(2) by simp
  have w2: "watched re cd encoding ?b ?d c2"
    "lcOffset c2 = lcOffset c1 + line_bytes (take maxWaitScanBytes (drop (lcOffset c1) ?d))"
  proof -
    have "lcSeen c1 = None \<or> lcSeen c1 = Some (fileId f)" using w1(2) g(2) by simp
    moreover have "short_lines (drop ?b ?d)" using short by simp
    ultimately show "watched re cd encoding ?b ?d c2"
      "lcOffset c2 = lcOffset c1 + line_bytes (take maxWaitScanBytes (drop (lcOffset c1) ?d))"
      using watched_probe [OF w1' _ _ last_probe] by blast+
  qed
  have win: "take maxWaitScanBytes (drop (lcOffset c1) ?d) = drop (lcOffset c1) ?d"
    using reach by simp
  let ?u = "take (lcOffset c1 - ?b) (drop ?b ?d)" and ?r = "drop (lcOffset c1) ?d"
  have b: "?b \<le> lcOffset c1" using w1' by (simp add: watched_def)
  then have split: "drop ?b ?d = ?u @ ?r" by (metis append_take_drop_id drop_drop le_add_diff_inverse2)
  have "full_lines (?u @ ?r) = full_lines ?u @ full_lines ?r"
    using w1' by (intro full_lines_append) (simp add: watched_def Let_def)
  then have "full_lines (drop ?b ?d) = full_lines ?u @ full_lines ?r" by (simp only: split [symmetric])
  moreover have "take (lcOffset c2 - ?b) (drop ?b ?d) = ?u @ take (line_bytes ?r) ?r"
  proof -
    have "lcOffset c2 - ?b = (lcOffset c1 - ?b) + line_bytes ?r" using w2(2) win b by simp
    moreover have "drop (lcOffset c1 - ?b) (drop ?b ?d) = ?r" using b by simp
    ultimately show ?thesis by (simp only: take_add)
  qed
  moreover have "full_lines (?u @ take (line_bytes ?r) ?r) = full_lines ?u @ full_lines ?r"
    using w1' full_lines_append [of ?u "take (line_bytes ?r) ?r"]
    by (simp add: watched_def Let_def full_lines_take_bytes)
  ultimately show ?thesis using w2(1) line by (simp add: watched_def Let_def)
qed

section \<open>The file\_contains shortcut\<close>

definition scan_answer :: "scan_result \<Rightarrow> (nat \<times> gostring) option" where
  "scan_answer r = (case r of Found line n k \<Rightarrow> Some (n, line) | NoMatch n k \<Rightarrow> None)"

fun contains_watch ::
  "(gostring \<Rightarrow> bool) \<Rightarrow> codec \<Rightarrow> gostring \<Rightarrow> (nanos \<times> file_state) list \<Rightarrow> contains_cache option
     \<Rightarrow> (nat \<times> gostring) option list" where
  "contains_watch re cd encoding [] cache = []"
| "contains_watch re cd encoding ((t, f) # ps) cache =
     (let (r, cache') = contains_probe re cd encoding t (Some f) cache
      in r # contains_watch re cd encoding ps cache')"

text \<open>What the shortcut relies on: a file with the same identity, size and modification time as at an
  earlier scan, that scan being more than two seconds later than the modification, has not changed.\<close>

definition mtime_honest :: "(nanos \<times> file_state) list \<Rightarrow> bool" where
  "mtime_honest ps \<longleftrightarrow>
     sorted_wrt (\<lambda>(t, g) (t', f).
       fileId f = fileId g \<and> length (fileData f) = length (fileData g) \<and> fileMtime f = fileMtime g \<and>
       2 * Second < t - fileMtime g \<longrightarrow> fileData f = fileData g) ps"

lemma contains_watch_scan:
  assumes "mtime_honest ps"
    and "\<forall>c. cache = Some c \<longrightarrow> (\<forall>(t, f) \<in> set ps. unchanged f c \<longrightarrow>
      scan_answer (scanFileForMatch re cd encoding (fileData f) 0) = None)"
  shows "contains_watch re cd encoding ps cache =
    map (\<lambda>(t, f). scan_answer (scanFileForMatch re cd encoding (fileData f) 0)) ps"
  using assms
proof (induction ps arbitrary: cache)
  case (Cons p ps)
  obtain t f where p: "p = (t, f)" by (cases p)
  let ?scan = "scanFileForMatch re cd encoding (fileData f) 0"
  obtain r cache' where pr: "contains_probe re cd encoding t (Some f) cache = (r, cache')"
    by (cases "contains_probe re cd encoding t (Some f) cache")
  have honest: "mtime_honest ps" and head: "\<forall>(t', g) \<in> set ps. fileId g = fileId f \<and>
      length (fileData g) = length (fileData f) \<and> fileMtime g = fileMtime f \<and>
      2 * Second < t - fileMtime f \<longrightarrow> fileData g = fileData f"
    using Cons.prems(1) by (auto simp: mtime_honest_def p)
  have "r = scan_answer ?scan \<and> (cache' = cache \<or>
      (scan_answer ?scan = None \<and> cache' = Some \<lparr>ccId = fileId f, ccSize = length (fileData f), ccMtime = fileMtime f, ccAt = t\<rparr>))"
  proof (cases "\<exists>c. cache = Some c \<and> unchanged f c")
    case True
    then have "scan_answer ?scan = None" using Cons.prems(2) by (auto simp: p)
    with True pr show ?thesis by (auto simp: contains_probe_def)
  next
    case False
    with pr show ?thesis
      by (auto simp: contains_probe_def scan_answer_def split: option.splits scan_result.splits)
  qed
  then have r: "r = scan_answer ?scan" and inv: "\<forall>c. cache' = Some c \<longrightarrow> (\<forall>(t, g) \<in> set ps. unchanged g c \<longrightarrow>
      scan_answer (scanFileForMatch re cd encoding (fileData g) 0) = None)"
    using Cons.prems(2) head by (auto simp: p unchanged_def)
  from Cons.IH [OF honest inv] r show ?case by (simp add: p pr)
qed simp

text \<open>the shortcut that skips rescanning an unchanged file never changes an answer: over any sequence
  of probes, each one answers exactly what a full scan of the file at that moment would, provided
  unchanged metadata (with the two-second margin) means unchanged content.\<close>

theorem contains_watch_exact:
  assumes "mtime_honest ps"
  shows "contains_watch re cd encoding ps None =
    map (\<lambda>(t, f). scan_answer (scanFileForMatch re cd encoding (fileData f) 0)) ps"
  using assms by (intro contains_watch_scan) auto

section \<open>Examples\<close>

definition example_log :: "bytes \<Rightarrow> file_state" where
  "example_log d = \<lparr>fileId = 1, fileMtime = 0, fileData = d\<rparr>"

abbreviation example_pattern :: "gostring \<Rightarrow> bool" where
  "example_pattern l \<equiv> l = ''ok''"

abbreviation no_codec :: codec where
  "no_codec \<equiv> \<lparr>gbkDecode = (\<lambda>b. None), gbkEncode = (\<lambda>b. None), gb18030Decode = (\<lambda>b. None),
     gb18030Encode = (\<lambda>b. None)\<rparr>"

lemma example_scan: "scanFileForMatch example_pattern no_codec [] [CHR ''n'', nl] 0 = NoMatch 1 2"
  by (simp add: scanFileForMatch_def scan_loop.simps line_text_def TrimRight_def go_defs)

theorem log_watch_complete_witness:
  "\<not> example_pattern (line_text no_codec [] [CHR ''n'', nl])"
proof (rule log_watch_complete [where f = "example_log [CHR ''n'', nl]" and fs = "[]" and ?f0.0 = "example_log []"])
  show "log_start (Some (example_log [])) = log_start (Some (example_log []))" by simp
  show "growing (fileId (example_log [])) (fileData (example_log [])) ([] @ [example_log [CHR ''n'', nl]])"
    by (simp add: example_log_def)
  show "\<forall>g \<in> set ([] @ [example_log [CHR ''n'', nl]]). short_lines (drop (length (fileData (example_log []))) (fileData g))"
    by (simp add: example_log_def short_lines_def go_defs)
  show "log_watch example_pattern no_codec [] [] (log_start (Some (example_log []))) = (None, \<lparr>lcOffset = 0, lcSeen = Some 1\<rparr>)"
    by (simp add: log_start_def example_log_def)
  show "log_probe example_pattern no_codec [] (Some (example_log [CHR ''n'', nl])) \<lparr>lcOffset = 0, lcSeen = Some 1\<rparr>
      = (None, \<lparr>lcOffset = 2, lcSeen = Some 1\<rparr>)"
    using example_scan by (simp add: log_probe_def example_log_def)
  show "length (fileData (example_log [CHR ''n'', nl])) - lcOffset \<lparr>lcOffset = 0, lcSeen = Some 1\<rparr> \<le> maxWaitScanBytes"
    by (simp add: example_log_def go_defs)
  show "[CHR ''n'', nl] \<in> set (full_lines (drop (length (fileData (example_log []))) (fileData (example_log [CHR ''n'', nl]))))"
    by (simp add: example_log_def full_lines.simps)
qed

theorem contains_watch_exact_witness:
  "contains_watch example_pattern no_codec [] [(9 * Second, example_log [CHR ''n'', nl]), (10 * Second, example_log [CHR ''n'', nl])] None
   = [None, None]"
  using contains_watch_exact [of "[(9 * Second, example_log [CHR ''n'', nl]), (10 * Second, example_log [CHR ''n'', nl])]"
      example_pattern no_codec "[]"] example_scan
  by (simp add: mtime_honest_def example_log_def scan_answer_def)

end
