(* ===== verification/Waits.thy ===== *)
theory Waits
  imports Registry Utf8
begin

text \<open>
  Server-side watchers (\<open>waits.go\<close>, and \<open>planWait\<close> and \<open>run\<close> of \<open>waitfor.go\<close>): the parameters of a
  wait, the polling loop, the registry of watchers and the view a caller gets.  A probe is whatever
  \<open>buildProbe\<close> returned; the polling loop takes the answers of its probes and what its \<open>select\<close> chose
  after each one as a list.
\<close>

section \<open>Definitions\<close>

definition defaultWaitTimeoutSec :: int where [go_defs]: "defaultWaitTimeoutSec = 60"
definition maxWaitTimeoutSec :: int where [go_defs]: "maxWaitTimeoutSec = 24 * 3600"
definition defaultWaitInterval :: nanos where [go_defs]: "defaultWaitInterval = Second"
definition minWaitInterval :: nanos where [go_defs]: "minWaitInterval = 200 * Millisecond"
definition minCommandWaitInterval :: nanos where [go_defs]: "minCommandWaitInterval = Second"
definition waitRetention :: nanos where [go_defs]: "waitRetention = 30 * Minute"
definition maxActiveWaits :: nat where [go_defs]: "maxActiveWaits = 64"
definition maxKeptWaits :: nat where [go_defs]: "maxKeptWaits = 200"

record WaitForRequest =
  wqCondition :: gostring
  wqTarget :: gostring
  wqPattern :: gostring
  wqTimeoutSec :: int
  wqIntervalMs :: int
  wqEncoding :: gostring
  wqIgnoreCase :: bool

datatype wait_state = WaitUnset | WaitSatisfied | WaitTimedOut | WaitPending | WaitCancelled

record WaitForResult =
  wrCondition :: gostring
  wrTarget :: gostring
  wrSatisfied :: bool
  wrTimedOut :: bool
  wrWaitedMs :: int
  wrChecks :: nat
  wrDetail :: gostring
  wrWaitID :: gostring
  wrState :: wait_state
  wrExpiresAt :: nanos

datatype wait_error_kind = TargetRequired | ProbeFailed gostring | TooManyWaits nat

record 'p waitPlan =
  wpCheck :: 'p
  wpRes :: WaitForResult
  wpTimeout :: nanos
  wpInterval :: nanos

definition wait_timeout :: "int \<Rightarrow> nanos" where
  "wait_timeout secs =
     (let t = (if secs \<le> 0 then defaultWaitTimeoutSec else secs);
          t' = (if maxWaitTimeoutSec < t then maxWaitTimeoutSec else t)
      in i64 (t' * Second))"

definition wait_interval :: "gostring \<Rightarrow> int \<Rightarrow> nanos" where
  "wait_interval condition ms =
     (let i = (if 0 < ms then i64 (ms * Millisecond) else defaultWaitInterval);
          i' = (if i < minWaitInterval then minWaitInterval else i)
      in if condition = ''command_exit0'' \<and> i' < minCommandWaitInterval then minCommandWaitInterval else i')"

definition planWait ::
  "(WaitForRequest \<Rightarrow> wait_error_kind + 'p) \<Rightarrow> WaitForRequest \<Rightarrow> wait_error_kind + 'p waitPlan" where
  "planWait buildProbe req =
     (if TrimSpace (wqTarget req) = [] then Inl TargetRequired
      else
        (case buildProbe req of
           Inl e \<Rightarrow> Inl e
         | Inr check \<Rightarrow>
             Inr \<lparr>wpCheck = check,
                  wpRes = \<lparr>wrCondition = wqCondition req, wrTarget = wqTarget req, wrSatisfied = False,
                           wrTimedOut = False, wrWaitedMs = 0, wrChecks = 0, wrDetail = [], wrWaitID = [],
                           wrState = WaitUnset, wrExpiresAt = 0\<rparr>,
                  wpTimeout = wait_timeout (wqTimeoutSec req),
                  wpInterval = wait_interval (wqCondition req) (wqIntervalMs req)\<rparr>))"

text \<open>One turn of the polling loop: the probe's answer at time \<open>t\<close>, then what the \<open>select\<close> received.\<close>

datatype wait_event = Tick | Deadline nanos | CallerCancelled nanos

type_synonym turn = "(gostring + (bool \<times> gostring)) \<times> nanos \<times> wait_event"

datatype run_outcome =
    StillWaiting WaitForResult
  | Resolved WaitForResult
  | RunCancelled WaitForResult
  | RunFailed gostring

definition waited :: "nanos \<Rightarrow> nanos \<Rightarrow> int" where
  "waited start t = quo (t - start) Millisecond"

fun wait_run :: "nanos \<Rightarrow> turn list \<Rightarrow> WaitForResult \<Rightarrow> run_outcome" where
  "wait_run start [] res = StillWaiting res"
| "wait_run start ((ans, t, ev) # turns) res =
     (case ans of
        Inl e \<Rightarrow> RunFailed e
      | Inr (ok, detail) \<Rightarrow>
          (let res' = res\<lparr>wrChecks := Suc (wrChecks res), wrDetail := detail, wrWaitedMs := waited start t\<rparr> in
           if ok then Resolved (res'\<lparr>wrSatisfied := True\<rparr>)
           else
             (case ev of
                Tick \<Rightarrow> wait_run start turns res'
              | Deadline t' \<Rightarrow> Resolved (res'\<lparr>wrWaitedMs := waited start t', wrTimedOut := True\<rparr>)
              | CallerCancelled t' \<Rightarrow> RunCancelled (res'\<lparr>wrWaitedMs := waited start t'\<rparr>))))"

record Wait =
  wID :: gostring
  wStartedAt :: nanos
  wDeadline :: nanos
  wDone :: bool
  wLast :: WaitForResult
  wFinal :: "WaitForResult option"
  wErr :: "gostring option"
  wEndedAt :: nanos

definition waits_pruneLocked :: "nanos \<Rightarrow> Wait list \<Rightarrow> Wait list" where
  "waits_pruneLocked now ws =
     (let fresh = filter (\<lambda>w. \<not> (wDone w \<and> waitRetention < now - wEndedAt w)) ws;
          resolved = filter wDone fresh in
      if length resolved \<le> maxKeptWaits then fresh
      else (let del = drop maxKeptWaits (newest_first wStartedAt resolved)
            in filter (\<lambda>w. wID w \<notin> wID ` set del) fresh))"

definition active_waits :: "Wait list \<Rightarrow> nat" where
  "active_waits ws = length (filter (\<lambda>w. \<not> wDone w) ws)"

definition WaitStart ::
  "nanos \<Rightarrow> gostring \<Rightarrow> 'p waitPlan \<Rightarrow> Wait list \<Rightarrow> (wait_error_kind + Wait) \<times> Wait list" where
  "WaitStart now uuid p ws =
     (let ws' = waits_pruneLocked now ws; active = active_waits ws' in
      if maxActiveWaits \<le> active then (Inl (TooManyWaits active), ws')
      else
        (let w = \<lparr>wID = ''wait-'' @ take 8 uuid, wStartedAt = now, wDeadline = now + wpTimeout p,
                  wDone = False, wLast = wpRes p, wFinal = None, wErr = None, wEndedAt = 0\<rparr>
         in (Inr w, reg_put wID w ws')))"

text \<open>The goroutine when the loop has ended; a cancelled run keeps its last state as the final one.\<close>

definition wait_finish :: "nanos \<Rightarrow> run_outcome \<Rightarrow> Wait \<Rightarrow> Wait" where
  "wait_finish now out w =
     (case out of
        RunFailed e \<Rightarrow> w\<lparr>wEndedAt := now, wErr := Some e, wDone := True\<rparr>
      | Resolved r \<Rightarrow> w\<lparr>wEndedAt := now, wFinal := Some r, wDone := True\<rparr>
      | RunCancelled r \<Rightarrow> w\<lparr>wEndedAt := now, wFinal := Some r, wDone := True\<rparr>
      | StillWaiting r \<Rightarrow> w\<lparr>wLast := r\<rparr>)"

definition WaitGet :: "nanos \<Rightarrow> gostring \<Rightarrow> Wait list \<Rightarrow> Wait option \<times> Wait list" where
  "WaitGet now i ws = (let ws' = waits_pruneLocked now ws in (reg_get wID ws' i, ws'))"

definition WaitCancelAll :: "Wait list \<Rightarrow> nat" where
  "WaitCancelAll ws = length (filter (\<lambda>w. \<not> wDone w) ws)"

definition snapshot :: "nanos \<Rightarrow> Wait \<Rightarrow> gostring + WaitForResult" where
  "snapshot now w =
     (case wErr w of
        Some e \<Rightarrow> Inl e
      | None \<Rightarrow>
          (let r = (case wFinal w of
                      None \<Rightarrow> (wLast w)\<lparr>wrState := WaitPending, wrWaitedMs := waited (wStartedAt w) now\<rparr>
                    | Some f \<Rightarrow>
                        if wrSatisfied f then f\<lparr>wrState := WaitSatisfied\<rparr>
                        else if wrTimedOut f then f\<lparr>wrState := WaitTimedOut\<rparr>
                        else f\<lparr>wrState := WaitCancelled\<rparr>)
           in Inr (r\<lparr>wrWaitID := wID w, wrExpiresAt := wDeadline w\<rparr>)))"

section \<open>Planning\<close>

text \<open>a wait's parameters are always within bounds, whatever 64-bit numbers are requested: it gives
  up after at most 24 hours and at least one second, it never polls more often than every 200 ms, and
  never spawns a shell more often than once a second, even if the interval overflows.\<close>

theorem planWait_bounds:
  assumes "planWait buildProbe req = Inr p"
  shows "Second \<le> wpTimeout p \<and> wpTimeout p \<le> 24 * Hour \<and> minWaitInterval \<le> wpInterval p \<and>
    (wqCondition req = ''command_exit0'' \<longrightarrow> minCommandWaitInterval \<le> wpInterval p) \<and>
    (1 \<le> wqTimeoutSec req \<and> wqTimeoutSec req \<le> 86400 \<longrightarrow> wpTimeout p = wqTimeoutSec req * Second)"
proof -
  define t where "t = (if wqTimeoutSec req \<le> 0 then 60 else if 86400 < wqTimeoutSec req then 86400 else wqTimeoutSec req)"
  have t: "1 \<le> t" "t \<le> 86400" by (auto simp: t_def)
  have "wpTimeout p = i64 (t * Second)"
    using assms by (auto simp: planWait_def wait_timeout_def t_def Let_def maxWaitTimeoutSec_def
        defaultWaitTimeoutSec_def split: if_splits sum.splits)
  also have "i64 (t * Second) = t * Second" using t by (intro i64_id) (auto simp: go_defs)
  finally have "wpTimeout p = t * Second" .
  moreover have "minWaitInterval \<le> wait_interval c ms" "minCommandWaitInterval \<le> wait_interval ''command_exit0'' ms"
    for c ms by (auto simp: wait_interval_def Let_def go_defs)
  moreover have "wpInterval p = wait_interval (wqCondition req) (wqIntervalMs req)"
    using assms by (auto simp: planWait_def split: if_splits sum.splits)
  ultimately show ?thesis using t by (auto simp: go_defs t_def)
qed

section \<open>The polling loop\<close>

text \<open>The answers before a given turn are negative and the loop went on.\<close>

definition keeps_polling :: "turn \<Rightarrow> bool" where
  "keeps_polling turn = (case turn of (Inr (False, d), t, Tick) \<Rightarrow> True | _ \<Rightarrow> False)"

lemma wait_run_skip:
  "\<forall>u \<in> set us. keeps_polling u \<Longrightarrow>
   \<exists>res'. wait_run start (us @ turns) res = wait_run start turns res' \<and>
     wrChecks res' = wrChecks res + length us \<and> wrSatisfied res' = wrSatisfied res \<and>
     wrTimedOut res' = wrTimedOut res"
proof (induction us arbitrary: res)
  case (Cons u us)
  obtain d t where u: "u = (Inr (False, d), t, Tick)"
    using Cons.prems by (auto simp: keeps_polling_def split: prod.splits sum.splits bool.splits wait_event.splits)
  let ?r = "res\<lparr>wrChecks := Suc (wrChecks res), wrDetail := d, wrWaitedMs := waited start t\<rparr>"
  from Cons obtain res' where "wait_run start (us @ turns) ?r = wait_run start turns res'"
    "wrChecks res' = wrChecks ?r + length us" "wrSatisfied res' = wrSatisfied ?r" "wrTimedOut res' = wrTimedOut ?r"
    by fastforce
  with u show ?case by (intro exI [of _ res']) simp
qed auto

text \<open>the polling loop resolves at the first turn that decides it: a positive probe makes the wait
  satisfied (also when the deadline passed during that probe), otherwise a passed deadline makes it
  timed out and a cancelled caller ends it unresolved; every probe is counted, and a probe error aborts
  the wait.\<close>

theorem wait_run_decides:
  assumes "\<forall>u \<in> set us. keeps_polling u" "wrSatisfied res = False" "wrTimedOut res = False"
  shows "(\<exists>r. wait_run start (us @ (Inr (True, d), t, ev) # rest) res = Resolved r \<and> wrSatisfied r \<and>
      \<not> wrTimedOut r \<and> wrChecks r = wrChecks res + length us + 1 \<and> wrDetail r = d) \<and>
    (\<exists>r. wait_run start (us @ (Inr (False, d), t, Deadline t') # rest) res = Resolved r \<and> \<not> wrSatisfied r \<and>
      wrTimedOut r \<and> wrChecks r = wrChecks res + length us + 1 \<and> wrWaitedMs r = waited start t') \<and>
    (\<exists>r. wait_run start (us @ (Inr (False, d), t, CallerCancelled t') # rest) res = RunCancelled r \<and>
      \<not> wrSatisfied r \<and> \<not> wrTimedOut r) \<and>
    wait_run start (us @ (Inl e, t, ev) # rest) res = RunFailed e \<and>
    (\<exists>r. wait_run start us res = StillWaiting r)"
proof -
  have skip: "\<exists>res'. wait_run start (us @ turns) res = wait_run start turns res' \<and>
      wrChecks res' = wrChecks res + length us \<and> \<not> wrSatisfied res' \<and> \<not> wrTimedOut res'" for turns
    using wait_run_skip [OF assms(1), of start turns res] assms(2,3) by auto
  show ?thesis
    using skip [of "(Inr (True, d), t, ev) # rest"] skip [of "(Inr (False, d), t, Deadline t') # rest"]
      skip [of "(Inr (False, d), t, CallerCancelled t') # rest"] skip [of "(Inl e, t, ev) # rest"] skip [of "[]"]
    by (auto simp: Let_def)
qed

section \<open>The registry\<close>

definition waits_fresh :: "nanos \<Rightarrow> Wait list \<Rightarrow> Wait list" where
  "waits_fresh now ws = newest_first wStartedAt (filter (\<lambda>w. wDone w \<and> now - wEndedAt w \<le> waitRetention) ws)"

lemma set_waits_fresh: "set (waits_fresh now ws) = {w \<in> set ws. wDone w \<and> now - wEndedAt w \<le> waitRetention}"
  by (auto simp: waits_fresh_def)

lemma waits_prune_set:
  assumes "reg_ok wID ws"
  shows "set (waits_pruneLocked now ws) = {w \<in> set ws. \<not> wDone w} \<union> set (take maxKeptWaits (waits_fresh now ws))"
proof -
  let ?f = "waits_fresh now ws"
  let ?fresh = "filter (\<lambda>w. \<not> (wDone w \<and> waitRetention < now - wEndedAt w)) ws"
  have res: "filter wDone ?fresh = filter (\<lambda>w. wDone w \<and> now - wEndedAt w \<le> waitRetention) ws"
    by (auto intro: filter_cong)
  have sf: "set ?fresh = {w \<in> set ws. \<not> wDone w} \<union> set ?f" by (auto simp: set_waits_fresh)
  show ?thesis
  proof (cases "length (filter wDone ?fresh) \<le> maxKeptWaits")
    case True
    then have "take maxKeptWaits ?f = ?f" unfolding res by (simp add: waits_fresh_def)
    with True sf show ?thesis by (simp add: waits_pruneLocked_def Let_def)
  next
    case False
    have dist: "distinct (map wID ?f)"
      unfolding waits_fresh_def using assms by (intro distinct_newest_first reg_ok_filter)
    have sub: "set ?f \<subseteq> set ws" by (auto simp: set_waits_fresh)
    have ids: "wID w \<in> wID ` set (drop maxKeptWaits ?f) \<longleftrightarrow> w \<in> set (drop maxKeptWaits ?f)" if "w \<in> set ws" for w
      using that assms sub set_drop_subset [of maxKeptWaits ?f] by (auto simp: distinct_map dest: inj_onD)
    have "set (take maxKeptWaits ?f) \<inter> set (drop maxKeptWaits ?f) = {}"
      using dist by (simp add: distinct_map set_take_disj_set_drop_if_distinct)
    moreover have "set ?f = set (take maxKeptWaits ?f) \<union> set (drop maxKeptWaits ?f)"
      by (metis append_take_drop_id set_append)
    moreover have pr: "set (waits_pruneLocked now ws) = {w \<in> set ?fresh. wID w \<notin> wID ` set (drop maxKeptWaits ?f)}"
      using False unfolding waits_pruneLocked_def Let_def res waits_fresh_def by simp
    moreover have "\<forall>w \<in> set ?f. wDone w" by (auto simp: set_waits_fresh)
    moreover have "{w \<in> set ?fresh. wID w \<notin> wID ` set (drop maxKeptWaits ?f)} =
        {w \<in> set ?fresh. w \<notin> set (drop maxKeptWaits ?f)}"
      using ids by (intro Collect_cong conj_cong) auto
    ultimately show ?thesis unfolding sf pr by blast
  qed
qed

lemma waits_prune_filter: "\<exists>P. waits_pruneLocked now ws = filter P ws"
  by (auto simp: waits_pruneLocked_def Let_def)

lemma active_waits_prune: "active_waits (waits_pruneLocked now ws) \<le> active_waits ws"
proof -
  obtain P where "waits_pruneLocked now ws = filter P ws" using waits_prune_filter by blast
  then show ?thesis by (auto simp: active_waits_def intro: length_filter_mono)
qed

interpretation wait_retention: retention wID wDone wEndedAt wStartedAt waitRetention maxKeptWaits "(=)"
  waits_pruneLocked
proof
  fix m :: "Wait list" and now v w
  assume ok: "reg_ok wID m"
  let ?f = "waits_fresh now m"
  show "reg_ok wID (waits_pruneLocked now m)"
    using ok waits_prune_filter [of now m] reg_ok_filter by metis
  show "v \<in> set (waits_pruneLocked now m)" if "v \<in> set m" "\<not> wDone v"
    using that by (simp add: waits_prune_set [OF ok])
  show "\<exists>v \<in> set m. v = w \<and> wDone w = wDone v \<and> (wDone v \<longrightarrow> now - wEndedAt v \<le> waitRetention)"
    if "w \<in> set (waits_pruneLocked now m)"
    using that set_waits_fresh [of now m] by (auto simp: waits_prune_set [OF ok] dest: in_set_takeD)
  have dist: "distinct (waits_pruneLocked now m)" "distinct ?f"
    using ok waits_prune_filter [of now m] by (auto simp: distinct_map waits_fresh_def newest_first_def)
  have "set (filter wDone (waits_pruneLocked now m)) \<subseteq> set (take maxKeptWaits ?f)"
    by (auto simp: waits_prune_set [OF ok])
  then show "length (filter wDone (waits_pruneLocked now m)) \<le> maxKeptWaits"
    using card_mono [of "set (take maxKeptWaits ?f)" "set (filter wDone (waits_pruneLocked now m))"]
      card_length [of "take maxKeptWaits ?f"] distinct_card [of "filter wDone (waits_pruneLocked now m)"] dist(1)
    by simp
  show "maxKeptWaits \<le> length (filter (\<lambda>w. wDone w \<and> wStartedAt v \<le> wStartedAt w) m)"
    if v: "v \<in> set m" "wDone v" "now - wEndedAt v \<le> waitRetention" "\<forall>w \<in> set (waits_pruneLocked now m). v \<noteq> w"
  proof -
    have "v \<in> set ?f" "v \<notin> set (take maxKeptWaits ?f)"
      using v by (auto simp: set_waits_fresh waits_prune_set [OF ok])
    then have "v \<in> set (drop maxKeptWaits ?f)" by (metis Un_iff append_take_drop_id set_append)
    then have t: "length (take maxKeptWaits ?f) = maxKeptWaits \<and>
        (\<forall>w \<in> set (take maxKeptWaits ?f). wStartedAt v \<le> wStartedAt w)"
      unfolding waits_fresh_def by (rule newest_first_beyond)
    have "set (take maxKeptWaits ?f) \<subseteq> set (filter (\<lambda>w. wDone w \<and> wStartedAt v \<le> wStartedAt w) m)"
      using t set_waits_fresh [of now m] by (auto dest: in_set_takeD)
    then have "card (set (take maxKeptWaits ?f)) \<le> length (filter (\<lambda>w. wDone w \<and> wStartedAt v \<le> wStartedAt w) m)"
      by (meson card_length card_mono finite_set order_trans)
    then show ?thesis using distinct_card [of "take maxKeptWaits ?f"] dist(2) t by simp
  qed
qed auto

text \<open>The steps of the registry: starting a wait under a fresh identifier, looking one up, and a
  watcher observing or ending.\<close>

inductive waits_step :: "Wait list \<Rightarrow> Wait list \<Rightarrow> bool" where
  wait_start: "WaitStart now uuid (p :: unit waitPlan) ws = (r, ws') \<Longrightarrow> waits_step ws ws'"
| wait_get: "WaitGet now i ws = (r, ws') \<Longrightarrow> waits_step ws ws'"
| wait_end: "waits_step ws (reg_upd wID i (wait_finish now out) ws)"

inductive waits_reach :: "Wait list \<Rightarrow> bool" where
  waits_empty: "waits_reach []"
| waits_next: "waits_reach ws \<Longrightarrow> waits_step ws ws' \<Longrightarrow> waits_reach ws'"

lemma wait_finish_id [simp]: "wID (wait_finish now out w) = wID w"
  by (auto simp: wait_finish_def split: run_outcome.splits)

lemma wait_finish_done: "wDone w \<Longrightarrow> wDone (wait_finish now out w)"
  by (auto simp: wait_finish_def split: run_outcome.splits)

lemma active_waits_upd: "active_waits (reg_upd wID i (wait_finish now out) ws) \<le> active_waits ws"
proof -
  let ?g = "\<lambda>w. if wID w = i then wait_finish now out w else w"
  have "active_waits (reg_upd wID i (wait_finish now out) ws) = length (filter (\<lambda>w. \<not> wDone (?g w)) ws)"
    by (simp add: active_waits_def reg_upd_def filter_map comp_def)
  also have "\<dots> \<le> active_waits ws"
    unfolding active_waits_def by (rule length_filter_mono) (auto dest: wait_finish_done split: if_splits)
  finally show ?thesis .
qed

lemma active_waits_put: "active_waits (reg_put wID w ws) \<le> Suc (active_waits ws)"
proof -
  have "length (filter (\<lambda>w. \<not> wDone w) (reg_del wID i ws)) \<le> length (filter (\<lambda>w. \<not> wDone w) ws)" for i
    unfolding reg_del_def filter_filter by (rule length_filter_mono) simp
  then show ?thesis by (simp add: active_waits_def reg_put_def le_SucI)
qed

text \<open>the number of watchers is bounded: in every history of the registry at most 64 watchers are
  active, and after any start or lookup at most 200 resolved ones are kept beside them; an active
  watcher is never forgotten.\<close>

theorem waits_bounded:
  assumes "waits_reach ws"
  shows "reg_ok wID ws \<and> active_waits ws \<le> maxActiveWaits \<and>
    length (snd (WaitGet now i ws)) \<le> maxActiveWaits + maxKeptWaits \<and>
    (\<forall>w \<in> set ws. \<not> wDone w \<longrightarrow> w \<in> set (snd (WaitGet now i ws)))"
proof -
  have inv: "reg_ok wID ws \<and> active_waits ws \<le> maxActiveWaits" using assms
  proof (induction rule: waits_reach.induct)
    case (waits_next ws ws')
    from waits_next(2) show ?case
    proof (cases rule: waits_step.cases)
      case (wait_start now uuid p r)
      let ?ws = "waits_pruneLocked now ws"
      have "reg_ok wID ?ws" using waits_next.IH wait_retention.prune_ok by blast
      moreover have "active_waits ?ws \<le> maxActiveWaits"
        using waits_next.IH active_waits_prune [of now ws] by simp
      moreover have "ws' = ?ws \<or> (active_waits ?ws < maxActiveWaits \<and> (\<exists>w. ws' = reg_put wID w ?ws))"
        using wait_start by (auto simp: WaitStart_def Let_def split: if_splits)
      moreover have "active_waits (reg_put wID w ?ws) \<le> maxActiveWaits" if "active_waits ?ws < maxActiveWaits" for w
        using active_waits_put [of w ?ws] that by simp
      ultimately show ?thesis by (auto intro: reg_ok_put)
    next
      case (wait_get now i r)
      then show ?thesis
        using waits_next.IH active_waits_prune [of now ws] wait_retention.prune_ok
        by (auto simp: WaitGet_def Let_def)
    next
      case (wait_end i now out)
      then show ?thesis
        using waits_next.IH active_waits_upd [of i now out ws] by (simp add: map_id_upd)
    qed
  qed (simp add: active_waits_def)
  have "length (waits_pruneLocked now ws) \<le> maxKeptWaits + active_waits (waits_pruneLocked now ws)"
    using wait_retention.prune_size [of ws now] inv by (simp add: active_waits_def)
  then show ?thesis
    using inv active_waits_prune [of now ws] wait_retention.prune_running [of ws]
    by (auto simp: WaitGet_def Let_def)
qed

text \<open>the view a caller gets is consistent with the run: a wait is reported pending exactly until its
  loop has ended, then satisfied, timed out or cancelled as the loop decided (satisfaction wins), a
  permanent probe failure is an error, and the answer always carries the handle to resume with.\<close>

theorem snapshot_states:
  assumes "w = wait_finish t out (w0 :: Wait)" "wFinal w0 = None" "wErr w0 = None"
  shows "(\<forall>r. out = StillWaiting r \<longrightarrow> (\<exists>v. snapshot now w = Inr v \<and> wrState v = WaitPending \<and> wrWaitID v = wID w0)) \<and>
    (\<forall>r. out = Resolved r \<longrightarrow> (\<exists>v. snapshot now w = Inr v \<and> wrWaitID v = wID w0 \<and>
       wrState v = (if wrSatisfied r then WaitSatisfied else if wrTimedOut r then WaitTimedOut else WaitCancelled))) \<and>
    (\<forall>r. out = RunCancelled r \<and> \<not> wrSatisfied r \<and> \<not> wrTimedOut r \<longrightarrow>
       (\<exists>v. snapshot now w = Inr v \<and> wrState v = WaitCancelled)) \<and>
    (\<forall>e. out = RunFailed e \<longrightarrow> snapshot now w = Inl e)"
  using assms by (auto simp: wait_finish_def snapshot_def Let_def)

section \<open>Examples\<close>

definition example_wait_request :: WaitForRequest where
  "example_wait_request = \<lparr>wqCondition = ''command_exit0'', wqTarget = ''x'', wqPattern = [],
     wqTimeoutSec = 2 ^ 62, wqIntervalMs = 2 ^ 62, wqEncoding = [], wqIgnoreCase = False\<rparr>"

definition example_result :: WaitForResult where
  "example_result = \<lparr>wrCondition = [], wrTarget = [], wrSatisfied = False, wrTimedOut = False, wrWaitedMs = 0,
     wrChecks = 0, wrDetail = [], wrWaitID = [], wrState = WaitUnset, wrExpiresAt = 0\<rparr>"

definition example_wait :: Wait where
  "example_wait = \<lparr>wID = ''wait-1'', wStartedAt = 0, wDeadline = Minute, wDone = False, wLast = example_result,
     wFinal = None, wErr = None, wEndedAt = 0\<rparr>"

theorem planWait_bounds_witness:
  "\<exists>p :: unit waitPlan. planWait (\<lambda>r. Inr ()) example_wait_request = Inr p \<and> wpTimeout p \<le> 24 * Hour \<and>
     minCommandWaitInterval \<le> wpInterval p"
proof -
  have "TrimSpace ''x'' = ''x''"
    by (rule TrimSpace_ascii_word) (simp_all add: isASCII_def bval_def is_space_def)
  then obtain p :: "unit waitPlan" where p: "planWait (\<lambda>r. Inr ()) example_wait_request = Inr p"
    by (auto simp: planWait_def example_wait_request_def)
  from planWait_bounds [OF p] p show ?thesis by (auto simp: example_wait_request_def)
qed

theorem wait_run_decides_witness:
  "\<exists>r. wait_run 0 [(Inr (False, ''no''), 1, Tick), (Inr (True, ''yes''), 2, Tick)] example_result = Resolved r \<and>
     wrSatisfied r \<and> wrChecks r = 2"
  using wait_run_decides [of "[(Inr (False, ''no''), 1, Tick)]" example_result 0 "''yes''" 2 Tick "[]" 0 "[]"]
  by (simp add: keeps_polling_def example_result_def)

theorem waits_bounded_witness:
  "\<exists>ws. waits_reach ws \<and> ws \<noteq> [] \<and> active_waits ws \<le> maxActiveWaits"
proof -
  let ?p = "\<lparr>wpCheck = (), wpRes = example_result, wpTimeout = Minute, wpInterval = Second\<rparr>"
  obtain r ws where w: "WaitStart 0 ''0123'' ?p [] = (r, ws)" by (cases "WaitStart 0 ''0123'' ?p []")
  then have "ws \<noteq> []"
    by (auto simp: WaitStart_def waits_pruneLocked_def active_waits_def go_defs reg_put_def Let_def)
  moreover have r: "waits_reach ws"
    by (rule waits_reach.waits_next [OF waits_reach.waits_empty waits_step.wait_start [OF w]])
  ultimately show ?thesis using waits_bounded [OF r] by blast
qed

theorem snapshot_states_witness:
  "\<exists>v. snapshot 5 (wait_finish 3 (Resolved (example_result\<lparr>wrSatisfied := True\<rparr>)) example_wait) = Inr v \<and>
     wrState v = WaitSatisfied \<and> wrWaitID v = ''wait-1''"
  using snapshot_states [of "wait_finish 3 (Resolved (example_result\<lparr>wrSatisfied := True\<rparr>)) example_wait" 3
      "Resolved (example_result\<lparr>wrSatisfied := True\<rparr>)" example_wait 5]
  by (auto simp: example_wait_def)

end
