(* ===== verification/Rate_Limit.thy ===== *)
theory Rate_Limit
  imports Complex_Main Go_Prelude
begin

text \<open>
  The per-client token bucket (\<open>middleware.go\<close>).  Token counts, which the source keeps in \<open>float64\<close>,
  are exact rationals; the rounding of floating-point arithmetic is not modelled.  The clock is an
  argument.  Each operation is one critical section under the limiter's lock, so a history of the
  limiter is a sequence of requests and clean-up sweeps.
\<close>

section \<open>Definitions\<close>

record bucket =
  tokens :: rat
  lastSeen :: nanos

record RateLimiter =
  buckets :: "gostring \<Rightarrow> bucket option"
  perMin :: int
  burst :: int

definition bucketIdleTTL :: nanos where [go_defs]: "bucketIdleTTL = 2 * Minute"

definition NewRateLimiter :: "int \<Rightarrow> int \<Rightarrow> RateLimiter" where
  "NewRateLimiter pm b = \<lparr>buckets = (\<lambda>k. None), perMin = pm, burst = (if b \<le> 0 then pm else b)\<rparr>"

definition minutes :: "nanos \<Rightarrow> rat" where
  "minutes d = of_int d / of_int Minute"

definition refill :: "RateLimiter \<Rightarrow> gostring \<Rightarrow> nanos \<Rightarrow> bucket" where
  "refill rl key now =
     (case buckets rl key of
        None \<Rightarrow> \<lparr>tokens = of_int (burst rl), lastSeen = now\<rparr>
      | Some b \<Rightarrow>
          (let elapsed = minutes (now - lastSeen b);
               t = tokens b + elapsed * of_int (perMin rl);
               t' = (if 0 < elapsed then (if of_int (burst rl) < t then of_int (burst rl) else t) else tokens b)
           in \<lparr>tokens = t', lastSeen = now\<rparr>))"

text \<open>Whether the request passes, the whole tokens left, how long to wait otherwise, and the new state.\<close>

definition take_token :: "RateLimiter \<Rightarrow> gostring \<Rightarrow> nanos \<Rightarrow> (bool \<times> int \<times> nanos) \<times> RateLimiter" where
  "take_token rl key now =
     (let b = refill rl key now in
      if tokens b < 1 then
        ((False, 0, if perMin rl \<le> 0 then Minute
                    else \<lfloor>(1 - tokens b) / of_int (perMin rl) * of_int Minute\<rfloor>),
         rl\<lparr>buckets := (buckets rl)(key \<mapsto> b)\<rparr>)
      else
        ((True, \<lfloor>tokens b - 1\<rfloor>, 0),
         rl\<lparr>buckets := (buckets rl)(key \<mapsto> b\<lparr>tokens := tokens b - 1\<rparr>)\<rparr>))"

definition Allow :: "RateLimiter \<Rightarrow> gostring \<Rightarrow> nanos \<Rightarrow> (bool \<times> int) \<times> RateLimiter" where
  "Allow rl key now = (let ((ok, remaining, w), rl') = take_token rl key now in ((ok, remaining), rl'))"

definition rl_sweep :: "RateLimiter \<Rightarrow> nanos \<Rightarrow> RateLimiter" where
  "rl_sweep rl now =
     rl\<lparr>buckets := (\<lambda>k. case buckets rl k of
                          None \<Rightarrow> None
                        | Some b \<Rightarrow> if bucketIdleTTL < now - lastSeen b then None else Some b)\<rparr>"

text \<open>The middleware's answer: pass with the three headers, or 429 with the backoff in milliseconds and,
  rounded up to seconds, in \<open>Retry-After\<close>.  The keep-alive stream is exempt.\<close>

datatype limit_answer =
    Pass "(int \<times> int \<times> int) option"
  | TooManyRequests int int

definition retry_ms :: "nanos \<Rightarrow> int" where
  "retry_ms w = quo w Millisecond + 1"

definition RateLimitMiddleware :: "RateLimiter \<Rightarrow> bool \<Rightarrow> gostring \<Rightarrow> nanos \<Rightarrow> limit_answer \<times> RateLimiter" where
  "RateLimitMiddleware rl isStream client now =
     (if isStream then (Pass None, rl)
      else
        (let ((ok, remaining, w), rl') = take_token rl client now in
         if \<not> ok then (TooManyRequests \<lceil>of_int (retry_ms w) / (1000 :: rat)\<rceil> (retry_ms w), rl')
         else (Pass (Some (perMin rl, burst rl, remaining)), rl')))"

section \<open>The level of a bucket\<close>

text \<open>The tokens a client could use at time \<open>t\<close>.\<close>

definition level :: "RateLimiter \<Rightarrow> gostring \<Rightarrow> nanos \<Rightarrow> rat" where
  "level rl k t = tokens (refill rl k t)"

definition rl_ok :: "RateLimiter \<Rightarrow> nanos \<Rightarrow> bool" where
  "rl_ok rl t \<longleftrightarrow> 0 \<le> perMin rl \<and> 0 \<le> burst rl \<and>
     (\<forall>k b. buckets rl k = Some b \<longrightarrow> 0 \<le> tokens b \<and> tokens b \<le> of_int (burst rl) \<and> lastSeen b \<le> t)"

lemma minutes_mono: "a \<le> b \<Longrightarrow> minutes a \<le> minutes b"
  by (simp add: minutes_def divide_right_mono go_defs)

lemma minutes_pos: "0 < minutes d \<longleftrightarrow> 0 < d"
  by (simp add: minutes_def zero_less_divide_iff go_defs)

lemma minutes_diff: "minutes (c - a) = minutes (c - b) + minutes (b - a)"
  by (simp add: minutes_def add_divide_distrib [symmetric])

lemma minutes_nonneg: "0 \<le> d \<Longrightarrow> 0 \<le> minutes d"
  by (simp add: minutes_def go_defs)

lemma level_eq:
  assumes "rl_ok rl t" "t \<le> t'"
  shows "level rl k t' = (case buckets rl k of
     None \<Rightarrow> of_int (burst rl)
   | Some b \<Rightarrow> min (of_int (burst rl)) (tokens b + minutes (t' - lastSeen b) * of_int (perMin rl)))"
proof (cases "buckets rl k")
  case (Some b)
  with assms have "lastSeen b \<le> t'" "tokens b \<le> of_int (burst rl)" by (force simp: rl_ok_def)+
  then show ?thesis
    using Some minutes_pos [of "t' - lastSeen b"]
    by (cases "lastSeen b = t'") (auto simp: level_def refill_def Let_def min_def minutes_def)
qed (simp add: level_def refill_def)

lemma level_bounds:
  assumes "rl_ok rl t" "t \<le> t'" shows "0 \<le> level rl k t'" "level rl k t' \<le> of_int (burst rl)"
proof -
  have "0 \<le> tokens b + minutes (t' - lastSeen b) * of_int (perMin rl)" if "buckets rl k = Some b" for b
    using assms that minutes_nonneg [of "t' - lastSeen b"] by (force simp: rl_ok_def)
  then show "0 \<le> level rl k t'" "level rl k t' \<le> of_int (burst rl)"
    using assms(1) by (auto simp: level_eq [OF assms] rl_ok_def split: option.splits)
qed

lemma level_advance:
  assumes "rl_ok rl t" "t \<le> t'" "t' \<le> t''"
  shows "level rl k t'' \<le> level rl k t' + minutes (t'' - t') * of_int (perMin rl)"
proof -
  have nn: "0 \<le> minutes (t'' - t') * of_int (perMin rl)"
    using assms minutes_nonneg [of "t'' - t'"] by (simp add: rl_ok_def)
  have m: "min B (x + y) \<le> min B x + y" if "0 \<le> y" for B x y :: rat using that by (simp add: min_def)
  have t'': "t \<le> t''" using assms by simp
  show ?thesis
  proof (cases "buckets rl k")
    case None
    then show ?thesis using nn by (simp add: level_eq [OF assms(1) assms(2)] level_eq [OF assms(1) t''])
  next
    case (Some b)
    have "tokens b + minutes (t'' - lastSeen b) * of_int (perMin rl) =
        (tokens b + minutes (t' - lastSeen b) * of_int (perMin rl)) + minutes (t'' - t') * of_int (perMin rl)"
      using minutes_diff [of t'' "lastSeen b" t'] by (simp add: distrib_right)
    with m [OF nn] Some show ?thesis
      by (simp only: level_eq [OF assms(1) assms(2)] level_eq [OF assms(1) t''] option.case)
  qed
qed

section \<open>Histories\<close>

datatype rl_event = Request gostring nanos | Sweep nanos

fun event_time :: "rl_event \<Rightarrow> nanos" where
  "event_time (Request k t) = t"
| "event_time (Sweep t) = t"

fun rl_step :: "rl_event \<Rightarrow> RateLimiter \<Rightarrow> RateLimiter" where
  "rl_step (Request k t) rl = snd (take_token rl k t)"
| "rl_step (Sweep t) rl = rl_sweep rl t"

definition admits :: "rl_event \<Rightarrow> RateLimiter \<Rightarrow> gostring \<Rightarrow> bool" where
  "admits e rl k = (case e of Request j t \<Rightarrow> j = k \<and> fst (fst (take_token rl j t)) | Sweep t \<Rightarrow> False)"

fun admitted :: "rl_event list \<Rightarrow> RateLimiter \<Rightarrow> gostring \<Rightarrow> nat" where
  "admitted [] rl k = 0"
| "admitted (e # es) rl k = (if admits e rl k then 1 else 0) + admitted es (rl_step e rl) k"

lemma rl_step_params [simp]: "perMin (rl_step e rl) = perMin rl" "burst (rl_step e rl) = burst rl"
  by (cases e; simp add: take_token_def rl_sweep_def Let_def)+

lemma rl_ok_step:
  assumes "rl_ok rl t" "t \<le> event_time e" shows "rl_ok (rl_step e rl) (event_time e)"
proof (cases e)
  case (Request j u)
  have "0 \<le> tokens (refill rl j u) \<and> tokens (refill rl j u) \<le> of_int (burst rl)"
    using level_bounds [OF assms(1), of u j] assms(2) Request by (simp add: level_def)
  moreover have "lastSeen (refill rl j u) = u" by (simp add: refill_def Let_def split: option.splits)
  ultimately show ?thesis
    using assms Request by (force simp: rl_ok_def take_token_def Let_def)
next
  case (Sweep u)
  with assms show ?thesis
    by (force simp: rl_ok_def rl_sweep_def split: option.splits if_splits)
qed

lemma refill_cong:
  "buckets rl' k = buckets rl k \<Longrightarrow> perMin rl' = perMin rl \<Longrightarrow> burst rl' = burst rl \<Longrightarrow> refill rl' k u = refill rl k u"
  by (simp only: refill_def)

text \<open>A request spends one token exactly when it is admitted; other clients are not affected.\<close>

lemma level_take:
  assumes "rl_ok rl t" "t \<le> u"
  shows "level (snd (take_token rl j u)) k u = level rl k u - (if j = k \<and> fst (fst (take_token rl j u)) then 1 else 0)"
proof (cases "j = k")
  case True
  have "lastSeen (refill rl k u) = u" by (simp add: refill_def Let_def split: option.splits)
  with True show ?thesis
    by (simp add: level_def take_token_def Let_def refill_def [of "rl\<lparr>buckets := _\<rparr>"] minutes_def)
next
  case False
  have "refill (snd (take_token rl j u)) k u = refill rl k u"
    using False by (intro refill_cong) (simp_all add: take_token_def Let_def)
  with False show ?thesis by (simp add: level_def)
qed

text \<open>Where a full bucket is refilled within the two minutes a bucket may stay idle, forgetting idle
  buckets changes no client's level.\<close>

lemma level_sweep:
  assumes "rl_ok rl t" "t \<le> u" "burst rl \<le> 2 * perMin rl"
  shows "level (rl_sweep rl u) k u = level rl k u"
proof (cases "buckets rl k")
  case None
  then show ?thesis by (simp add: level_def rl_sweep_def refill_def)
next
  case (Some b)
  show ?thesis
  proof (cases "bucketIdleTTL < u - lastSeen b")
    case True
    have tk: "0 \<le> tokens b" "0 \<le> perMin rl" using assms(1) Some by (auto simp: rl_ok_def)
    have "2 \<le> minutes (u - lastSeen b)"
      using minutes_mono [of bucketIdleTTL "u - lastSeen b"] True by (simp add: minutes_def go_defs)
    then have "2 * of_int (perMin rl) \<le> minutes (u - lastSeen b) * of_int (perMin rl)"
      using tk(2) by (intro mult_right_mono) auto
    moreover have "(of_int (burst rl) :: rat) \<le> of_int (2 * perMin rl)" using assms(3) by (simp only: of_int_le_iff)
    ultimately have "of_int (burst rl) \<le> tokens b + minutes (u - lastSeen b) * of_int (perMin rl)"
      using tk(1) by simp
    then have "level rl k u = of_int (burst rl)"
      using Some by (simp add: level_eq [OF assms(1,2)] min_def)
    moreover have "level (rl_sweep rl u) k u = of_int (burst rl)"
      using Some True by (simp add: level_def rl_sweep_def refill_def)
    ultimately show ?thesis by simp
  next
    case False
    with Some show ?thesis by (simp add: level_def rl_sweep_def refill_def Let_def)
  qed
qed

lemma admitted_level:
  assumes "rl_ok rl t" "sorted (map event_time es)" "\<forall>e \<in> set es. t \<le> event_time e \<and> event_time e \<le> u" "t \<le> u"
    and "burst rl \<le> 2 * perMin rl"
  shows "of_nat (admitted es rl k) \<le> level rl k t + minutes (u - t) * of_int (perMin rl)"
  using assms
proof (induction es arbitrary: rl t)
  case Nil
  then show ?case
    using level_bounds [OF Nil(1), of t k] minutes_nonneg [of "u - t"] by (simp add: rl_ok_def)
next
  case (Cons e es)
  let ?t = "event_time e"
  have t: "t \<le> ?t" "?t \<le> u" using Cons.prems(3) by auto
  have ok: "rl_ok (rl_step e rl) ?t" by (rule rl_ok_step [OF Cons.prems(1) t(1)])
  have "level (rl_step e rl) k ?t = level rl k ?t - (if admits e rl k then 1 else 0)"
    using level_take [OF Cons.prems(1)] level_sweep [OF Cons.prems(1) _ Cons.prems(5)] t(1)
    by (cases e) (auto simp: admits_def)
  moreover have "of_nat (admitted es (rl_step e rl) k) \<le> level (rl_step e rl) k ?t + minutes (u - ?t) * of_int (perMin rl)"
    using Cons.IH [OF ok] Cons.prems t(2) by simp
  moreover have "level rl k ?t \<le> level rl k t + minutes (?t - t) * of_int (perMin rl)"
    by (rule level_advance [OF Cons.prems(1) order_refl t(1)])
  moreover have "minutes (u - t) * of_int (perMin rl) = minutes (u - ?t) * of_int (perMin rl) + minutes (?t - t) * of_int (perMin rl)"
    using minutes_diff [of u t ?t] by (simp add: distrib_right)
  ultimately show ?case by (cases "admits e rl k") auto
qed


text \<open>the comment that an idle bucket has refilled anyway does not hold for every configuration.
  With one request per minute and a burst of five, a client that empties its bucket and stays away for
  just over two minutes gets a full burst again as soon as a sweep has run, where the rate would have
  given it two tokens.\<close>

theorem rate_limit_sweep_refills:
  "\<exists>es. sorted (map event_time es) \<and> (\<forall>e \<in> set es. 0 \<le> event_time e \<and> event_time e \<le> 2 * Minute + 1) \<and>
     of_int 5 + minutes (2 * Minute + 1) * of_int 1 < (of_nat (admitted es (NewRateLimiter 1 5) client) :: rat)"
proof -
  let ?now = "2 * Minute + 1"
  let ?es = "replicate 5 (Request client 0) @ [Sweep ?now] @ replicate 5 (Request client ?now)"
  have "admitted ?es (NewRateLimiter 1 5) client = 10"
    by (simp add: numeral_eq_Suc admits_def take_token_def refill_def NewRateLimiter_def rl_sweep_def Let_def
        minutes_def go_defs)
  moreover have "of_int 5 + minutes ?now * of_int 1 < (10 :: rat)" by (simp add: minutes_def go_defs)
  moreover have "sorted (map event_time ?es)" "\<forall>e \<in> set ?es. 0 \<le> event_time e \<and> event_time e \<le> ?now"
    by (auto simp: numeral_eq_Suc go_defs)
  ultimately show ?thesis by (intro exI [of _ ?es]) simp
qed

section \<open>The backoff\<close>

lemma retry_ms_covers: "0 \<le> w \<Longrightarrow> w < retry_ms w * Millisecond"
proof -
  assume "0 \<le> w"
  then have "retry_ms w = w div 1000000 + 1" by (simp add: retry_ms_def quo_nonneg go_defs)
  moreover have "w < (w div 1000000 + 1) * 1000000"
    using mult_div_mod_eq [of 1000000 w] pos_mod_bound [of 1000000 w] by simp
  ultimately show ?thesis by (simp add: go_defs)
qed

text \<open>the backoff a refused client is told is enough: if it stays away for the announced number of
  milliseconds, its next request passes.\<close>

theorem retry_after_admits:
  assumes "rl_ok rl t0" "t0 \<le> t" "0 < perMin rl" "1 \<le> burst rl"
    and "take_token rl client t = ((False, r, w), rl')" "t + retry_ms w * Millisecond \<le> t'"
  shows "fst (fst (take_token rl' client t'))"
proof -
  let ?b = "refill rl client t"
  let ?x = "(1 - tokens ?b) / of_int (perMin rl) * of_int Minute :: rat"
  have b: "tokens ?b < 1" "w = \<lfloor>?x\<rfloor>" "rl' = rl\<lparr>buckets := (buckets rl)(client \<mapsto> ?b)\<rparr>"
    using assms(3,5) by (auto simp: take_token_def Let_def split: if_splits)
  have pos: "0 \<le> ?x" using b(1) assms(3) by (simp add: go_defs)
  then have "0 \<le> w" using b(2) by simp
  then have d: "w < t' - t" using retry_ms_covers [of w] assms(6) by simp
  have "?x < of_int (w + 1)" using b(2) by linarith
  also have "\<dots> \<le> of_int (t' - t)" using d by (simp only: of_int_le_iff)
  finally have "?x < of_int (t' - t)" .
  then have "(1 - tokens ?b) * of_int Minute < of_int (t' - t) * of_int (perMin rl)"
    using assms(3) by (simp add: field_simps)
  then have full: "1 < tokens ?b + minutes (t' - t) * of_int (perMin rl)"
    using assms(3) by (simp add: minutes_def field_simps go_defs)
  have last: "lastSeen ?b = t" by (simp add: refill_def Let_def split: option.splits)
  have "0 < minutes (t' - t)" using d \<open>0 \<le> w\<close> by (simp add: minutes_pos)
  then have "1 \<le> tokens (refill rl' client t')"
    using full last assms(4) by (simp add: b(3) refill_def [of "rl\<lparr>buckets := _\<rparr>"] Let_def)
  then show ?thesis by (simp add: take_token_def Let_def)
qed

section \<open>Examples\<close>


theorem rate_limit_sweep_refills_witness:
  "\<exists>es. of_int 5 + minutes (2 * Minute + 1) * of_int 1 < (of_nat (admitted es (NewRateLimiter 1 5) ''a'') :: rat)"
  using rate_limit_sweep_refills [of "''a''"] by blast

theorem retry_after_admits_witness:
  "\<exists>r w rl'. take_token \<lparr>buckets = [''a'' \<mapsto> \<lparr>tokens = 0, lastSeen = 0\<rparr>], perMin = 2, burst = 1\<rparr> ''a'' 0
      = ((False, r, w), rl') \<and> fst (fst (take_token rl' ''a'' (retry_ms w * Millisecond)))"
proof -
  let ?rl = "\<lparr>buckets = [''a'' \<mapsto> \<lparr>tokens = 0, lastSeen = 0\<rparr>], perMin = 2, burst = 1\<rparr>"
  have "\<exists>r w rl'. take_token ?rl ''a'' 0 = ((False, r, w), rl')"
    by (simp add: take_token_def refill_def minutes_def Let_def)
  then obtain r w rl' where t: "take_token ?rl ''a'' 0 = ((False, r, w), rl')" by blast
  have "fst (fst (take_token rl' ''a'' (retry_ms w * Millisecond)))"
    by (rule retry_after_admits [OF _ _ _ _ t, of 0]) (simp_all add: rl_ok_def)
  with t show ?thesis by blast
qed

end
