(* ===== verification/Token_Auth.thy ===== *)
theory Token_Auth
  imports Go_Prelude
begin

text \<open>
  Bearer-token authentication (\<open>auth.go\<close>).  SHA-256 is a parameter \<open>sha\<close>; that its digests have 32
  bytes is a hypothesis where it matters.  \<open>subtle.ConstantTimeCompare\<close> and \<open>encoding/hex\<close> are
  modelled as the library defines them.
\<close>

unbundle bit_operations_syntax

section \<open>Definitions\<close>

definition sha256_Size :: nat where [go_defs]: "sha256_Size = 32"
definition hashTokenSaltBytes :: nat where [go_defs]: "hashTokenSaltBytes = 16"
definition hashTokenMinSaltBytes :: nat where [go_defs]: "hashTokenMinSaltBytes = 8"

fun compare_acc :: "nat \<Rightarrow> bytes \<Rightarrow> bytes \<Rightarrow> nat" where
  "compare_acc v (x # xs) (y # ys) = compare_acc (v OR (bval x XOR bval y)) xs ys"
| "compare_acc v _ _ = v"

definition ConstantTimeCompare :: "bytes \<Rightarrow> bytes \<Rightarrow> nat" where
  "ConstantTimeCompare x y =
     (if length x \<noteq> length y then 0 else if compare_acc 0 x y = 0 then 1 else 0)"

fun hexDecode :: "gostring \<Rightarrow> bytes option" where
  "hexDecode [] = Some []"
| "hexDecode [c] = None"
| "hexDecode (a # b # s) =
     (case (hex_val a, hex_val b) of
        (Some x, Some y) \<Rightarrow> map_option (\<lambda>r. char_of (16 * x + y) # r) (hexDecode s)
      | _ \<Rightarrow> None)"

definition hexEncode :: "bytes \<Rightarrow> gostring" where
  "hexEncode b = concat (map (\<lambda>c. [hex_digit (bval c div 16), hex_digit (bval c mod 16)]) b)"

definition hashToken :: "(bytes \<Rightarrow> bytes) \<Rightarrow> bytes \<Rightarrow> gostring \<Rightarrow> bytes" where
  "hashToken sha salt token = sha (salt @ token)"

datatype tokenAuth = PlainAuth gostring | HashAuth bytes bytes

definition verify :: "(bytes \<Rightarrow> bytes) \<Rightarrow> tokenAuth \<Rightarrow> gostring \<Rightarrow> bool" where
  "verify sha auth provided =
     (case auth of
        PlainAuth want \<Rightarrow> ConstantTimeCompare provided want = 1
      | HashAuth salt want \<Rightarrow> ConstantTimeCompare (hashToken sha salt provided) want = 1)"

datatype auth_error =
    BadFormat
  | BadSaltHex
  | SaltTooShort nat
  | BadHashHex
  | BadHashSize nat
  | BothSet
  | NoneSet

definition parseTokenHash :: "gostring \<Rightarrow> auth_error + (bytes \<times> bytes)" where
  "parseTokenHash s =
     (case split_on (CHR '':'') s of
        [tag, saltHex, hashHex] \<Rightarrow>
          if tag \<noteq> ''sha256'' then Inl BadFormat
          else
            (case hexDecode saltHex of
               None \<Rightarrow> Inl BadSaltHex
             | Some salt \<Rightarrow>
                 if length salt < hashTokenMinSaltBytes then Inl (SaltTooShort (length salt))
                 else
                   (case hexDecode hashHex of
                      None \<Rightarrow> Inl BadHashHex
                    | Some h \<Rightarrow>
                        if length h \<noteq> sha256_Size then Inl (BadHashSize (length h)) else Inr (salt, h)))
      | _ \<Rightarrow> Inl BadFormat)"

text \<open>The salt is what \<open>crypto/rand\<close> returned, \<open>hashTokenSaltBytes\<close> bytes.\<close>

definition generateTokenHash :: "(bytes \<Rightarrow> bytes) \<Rightarrow> bytes \<Rightarrow> gostring \<Rightarrow> gostring" where
  "generateTokenHash sha salt token =
     ''sha256:'' @ hexEncode salt @ '':'' @ hexEncode (hashToken sha salt token)"

definition buildTokenAuth :: "gostring \<Rightarrow> gostring \<Rightarrow> auth_error + (tokenAuth \<times> gostring)" where
  "buildTokenAuth token tokenHash =
     (if token \<noteq> [] \<and> tokenHash \<noteq> [] then Inl BothSet
      else if token \<noteq> [] then Inr (PlainAuth token, ''token'')
      else if tokenHash \<noteq> [] then
        (case parseTokenHash tokenHash of
           Inl e \<Rightarrow> Inl e
         | Inr (salt, want) \<Rightarrow> Inr (HashAuth salt want, ''token-hash''))
      else Inl NoneSet)"

text \<open>The middleware: \<open>None\<close> is the 401 answer, otherwise the next handler's.\<close>

datatype 'a guarded = Unauthorized gostring | Served 'a

definition AuthMiddleware :: "(bytes \<Rightarrow> bytes) \<Rightarrow> tokenAuth \<Rightarrow> gostring \<Rightarrow> 'a \<Rightarrow> 'a guarded" where
  "AuthMiddleware sha auth authz next =
     (if \<not> HasPrefix authz ''Bearer '' then Unauthorized ''Missing or invalid Authorization header''
      else if \<not> verify sha auth (drop 7 authz) then Unauthorized ''Invalid token''
      else Served next)"

text \<open>The \<open>hash-token\<close> subcommand on the line read from standard input.\<close>

definition runHashToken :: "(bytes \<Rightarrow> bytes) \<Rightarrow> bytes \<Rightarrow> gostring \<Rightarrow> gostring option" where
  "runHashToken sha salt line =
     (let token = TrimRight line [cr, nl] in
      if token = [] then None else Some (generateTokenHash sha salt token))"

section \<open>Comparison and hexadecimal text\<close>

lemma or_eq_0_nat: "(a :: nat) OR b = 0 \<longleftrightarrow> a = 0 \<and> b = 0"
  by (metis or_eq_0_iff)

lemma xor_eq_0_nat: "(a :: nat) XOR b = 0 \<longleftrightarrow> a = b"
  by (metis xor_self_eq xor.left_neutral xor.assoc xor.right_neutral)

lemma compare_acc_eq: "length x = length y \<Longrightarrow> compare_acc v x y = 0 \<longleftrightarrow> v = 0 \<and> x = y"
  by (induction v x y rule: compare_acc.induct) (auto simp: or_eq_0_nat xor_eq_0_nat)

lemma ConstantTimeCompare_eq: "ConstantTimeCompare x y = 1 \<longleftrightarrow> x = y"
  by (auto simp: ConstantTimeCompare_def compare_acc_eq)

lemma hexDecode_encode: "hexDecode (hexEncode b) = Some b"
proof (induction b)
  case (Cons c b)
  have "bval c div 16 < 16" using bval_less [of c] by (simp add: less_mult_imp_div_less)
  moreover have "char_of (16 * (bval c div 16) + bval c mod 16) = c"
    by (simp add: bval_def)
  ultimately show ?case using Cons by (simp add: hexEncode_def)
qed (simp add: hexEncode_def)

lemma colon_not_hex: "n < 16 \<Longrightarrow> hex_digit n \<noteq> CHR '':''"
proof
  assume "n < 16" "hex_digit n = CHR '':''"
  then have "hex_val (CHR '':'') = Some n" by (metis hex_val_digit)
  then show False by (simp add: hex_val_def bval_def)
qed

lemma hexEncode_no_colon: "CHR '':'' \<notin> set (hexEncode b)"
proof (induction b)
  case (Cons c b)
  have "bval c div 16 < 16" using bval_less [of c] by (simp add: less_mult_imp_div_less)
  then have "hex_digit (bval c div 16) \<noteq> CHR '':''" "hex_digit (bval c mod 16) \<noteq> CHR '':''"
    by (auto intro!: colon_not_hex)
  with Cons show ?case by (auto simp: hexEncode_def)
qed (simp add: hexEncode_def)

lemma split_token_hash:
  "split_on (CHR '':'') (''sha256:'' @ hexEncode a @ '':'' @ hexEncode b) = [''sha256'', hexEncode a, hexEncode b]"
  using hexEncode_no_colon by (simp add: split_on_append_sep split_on_no_sep)

lemma verify_modes:
  "verify sha (PlainAuth want) p \<longleftrightarrow> p = want"
  "verify sha (HashAuth salt want) p \<longleftrightarrow> sha (salt @ p) = want"
  by (simp_all only: verify_def tokenAuth.case ConstantTimeCompare_eq hashToken_def)

section \<open>Properties\<close>

text \<open>C36: the value printed by the \<open>hash-token\<close> subcommand configures a server that accepts exactly the
  tokens with the same salted digest, in particular the original token: generating, parsing and
  verifying agree.\<close>

theorem token_hash_roundtrip:
  assumes "\<And>x. length (sha x) = sha256_Size" "length salt = hashTokenSaltBytes"
  shows "\<exists>auth. buildTokenAuth [] (generateTokenHash sha salt token) = Inr (auth, ''token-hash'') \<and>
    (\<forall>provided. verify sha auth provided \<longleftrightarrow> sha (salt @ provided) = sha (salt @ token)) \<and>
    verify sha auth token"
proof -
  have "parseTokenHash (generateTokenHash sha salt token) = Inr (salt, sha (salt @ token))"
    using assms by (simp add: parseTokenHash_def generateTokenHash_def split_token_hash hexDecode_encode
        hashToken_def go_defs del: append.simps)
  then have "buildTokenAuth [] (generateTokenHash sha salt token) = Inr (HashAuth salt (sha (salt @ token)), ''token-hash'')"
    by (simp add: buildTokenAuth_def) (simp add: generateTokenHash_def)
  then show ?thesis by (simp add: verify_modes)
qed

text \<open>a server never starts without exactly one credential, and a request is served only with it.
  Building the verifier succeeds only if exactly one of the two settings is present; in plain mode the
  next handler runs if and only if the header is \<open>Bearer\<close>, a blank and the configured token.\<close>

theorem auth_exactly_one:
  "(\<forall>auth mode. buildTokenAuth token tokenHash = Inr (auth, mode) \<longrightarrow> (token \<noteq> []) \<noteq> (tokenHash \<noteq> [])) \<and>
   (token \<noteq> [] \<and> tokenHash = [] \<longrightarrow>
      (\<exists>auth. buildTokenAuth token tokenHash = Inr (auth, ''token'') \<and>
        (\<forall>authz. AuthMiddleware sha auth authz h = Served h \<longleftrightarrow> authz = ''Bearer '' @ token)))"
proof -
  have "HasPrefix authz ''Bearer '' \<and> drop 7 authz = token \<longleftrightarrow> authz = ''Bearer '' @ token" for authz
    by (auto simp: HasPrefix_iff)
  then have "AuthMiddleware sha (PlainAuth token) authz h = Served h \<longleftrightarrow> authz = ''Bearer '' @ token" for authz
    by (auto simp: AuthMiddleware_def verify_modes)
  moreover have "token \<noteq> [] \<and> tokenHash = [] \<longrightarrow> buildTokenAuth token tokenHash = Inr (PlainAuth token, ''token'')"
    by (simp add: buildTokenAuth_def)
  moreover have "buildTokenAuth token tokenHash = Inr r \<longrightarrow> (token \<noteq> []) \<noteq> (tokenHash \<noteq> [])" for r
    by (simp add: buildTokenAuth_def)
  ultimately show ?thesis by blast
qed

section \<open>Examples\<close>

theorem token_hash_roundtrip_witness:
  "\<exists>auth. buildTokenAuth [] (generateTokenHash (\<lambda>x. replicate 32 (last x)) (replicate 16 CHR ''s'') ''tok'') = Inr (auth, ''token-hash'') \<and>
     verify (\<lambda>x. replicate 32 (last x)) auth ''tok''"
  using token_hash_roundtrip [of "\<lambda>x. replicate 32 (last x)" "replicate 16 CHR ''s''" "''tok''"]
  by (auto simp: go_defs)

theorem auth_exactly_one_witness:
  "\<exists>auth. buildTokenAuth ''t'' [] = Inr (auth, ''token'') \<and>
     (AuthMiddleware (\<lambda>x. x) auth ''Bearer t'' () = Served ())"
  using auth_exactly_one [of "''t''" "[]" "\<lambda>x. x" "()"] by auto

end
