(* ===== verification/File_Changes.thy ===== *)
theory File_Changes
  imports File_System "HOL-Library.List_Lexorder"
begin

text \<open>
  The calls of the \<open>os\<close> package that change the tree: creating and writing files, making directories and
  links, removing and renaming.  Each returns the error, if any, together with the new file system;
  the lemmas say which locations a call can change.
\<close>

unbundle bit_operations_syntax

section \<open>Definitions\<close>

definition put_node :: "loc \<Rightarrow> node \<Rightarrow> filesys \<Rightarrow> filesys" where
  "put_node p x fs = fs\<lparr>nodes := (p, x) # filter (\<lambda>e. fst e \<noteq> p) (nodes fs)\<rparr>"

definition drop_tree :: "loc \<Rightarrow> filesys \<Rightarrow> filesys" where
  "drop_tree p fs = fs\<lparr>nodes := filter (\<lambda>e. \<not> prefix p (fst e)) (nodes fs)\<rparr>"

definition drop_node :: "loc \<Rightarrow> filesys \<Rightarrow> filesys" where
  "drop_node p fs = fs\<lparr>nodes := filter (\<lambda>e. fst e \<noteq> p) (nodes fs)\<rparr>"

definition move_tree :: "loc \<Rightarrow> loc \<Rightarrow> filesys \<Rightarrow> filesys" where
  "move_tree p q fs =
     fs\<lparr>nodes := map (\<lambda>(l, x). (if prefix p l then q @ drop (length p) l else l, x))
                  (filter (\<lambda>e. prefix p (fst e) \<or> \<not> prefix q (fst e)) (nodes fs))\<rparr>"

text \<open>The names in a directory, in the order \<open>filepath.Walk\<close> and \<open>os.ReadDir\<close> list them.\<close>

definition children :: "filesys \<Rightarrow> loc \<Rightarrow> gostring list" where
  "children fs p =
     sort (remdups (map last (filter (\<lambda>q. q \<noteq> [] \<and> butlast q = p) (map fst (nodes fs)))))"

text \<open>Permission bits of a new node: the low nine bits, less the process's umask.\<close>

definition masked :: "filesys \<Rightarrow> nat \<Rightarrow> nat" where
  "masked fs m = (let p = m AND 511 in p - (p AND umask fs))"

definition perm_string :: "nat \<Rightarrow> gostring" where
  "perm_string m =
     CHR ''-'' # map (\<lambda>(i, c). if bit m i then c else CHR ''-'')
       (zip [8, 7, 6, 5, 4, 3, 2, 1, 0] ''rwxrwxrwx'')"

type_synonym change = "fs_error option \<times> filesys"

definition new_node :: "filesys \<Rightarrow> loc \<Rightarrow> node \<Rightarrow> change" where
  "new_node fs p x =
     (case lresolve fs p of
        Inl e \<Rightarrow> (Some e, fs)
      | Inr q \<Rightarrow>
          if node_at fs q \<noteq> None then (Some EEXIST, fs)
          else if \<not> is_dir fs (butlast q) then (Some ENOTDIR, fs)
          else (None, put_node q x fs))"

definition Mkdir :: "filesys \<Rightarrow> loc \<Rightarrow> nat \<Rightarrow> change" where
  "Mkdir fs p m = new_node fs p (NDir (masked fs m))"

definition Symlink :: "filesys \<Rightarrow> gostring \<Rightarrow> loc \<Rightarrow> change" where
  "Symlink fs t p = new_node fs p (NLink t)"

function MkdirAll :: "filesys \<Rightarrow> loc \<Rightarrow> nat \<Rightarrow> change" where
  "MkdirAll fs p m =
     (case Stat fs p of
        Inr x \<Rightarrow> (case x of NDir _ \<Rightarrow> (None, fs) | _ \<Rightarrow> (Some ENOTDIR, fs))
      | Inl _ \<Rightarrow>
          (case (if p = [] then (None, fs) else MkdirAll fs (butlast p) m) of
             (Some e, fs1) \<Rightarrow> (Some e, fs1)
           | (None, fs1) \<Rightarrow>
               (case Mkdir fs1 p m of
                  (None, fs2) \<Rightarrow> (None, fs2)
                | (Some e, fs2) \<Rightarrow>
                    (case Lstat fs2 p of Inr (NDir _) \<Rightarrow> (None, fs2) | _ \<Rightarrow> (Some e, fs2)))))"
  by pat_completeness auto
termination
  by (relation "measure (\<lambda>(fs, p, m). length p)") auto

declare MkdirAll.simps [simp del]

text \<open>\<open>os.OpenFile\<close> for writing, with \<open>O_CREATE\<close> and either \<open>O_TRUNC\<close> or \<open>O_APPEND\<close>: the location of the open
  file, and the tree after the truncation or creation.\<close>

definition open_write :: "filesys \<Rightarrow> loc \<Rightarrow> bool \<Rightarrow> nat \<Rightarrow> (fs_error + loc) \<times> filesys" where
  "open_write fs p append_mode m =
     (case resolve fs True p of
        Inl e \<Rightarrow> (Inl e, fs)
      | Inr q \<Rightarrow>
          (case node_at fs q of
             None \<Rightarrow> (Inr q, put_node q (NFile [] (masked fs m)) fs)
           | Some (NFile d pm) \<Rightarrow> (Inr q, if append_mode then fs else put_node q (NFile [] pm) fs)
           | Some _ \<Rightarrow> (Inl EISDIR, fs)))"

text \<open>Writing to an open file: the data goes after what is there.\<close>

definition write_open :: "loc \<Rightarrow> bytes \<Rightarrow> filesys \<Rightarrow> filesys" where
  "write_open q dat fs =
     (case node_at fs q of Some (NFile d m) \<Rightarrow> put_node q (NFile (d @ dat) m) fs | _ \<Rightarrow> fs)"

definition file_bytes :: "filesys \<Rightarrow> loc \<Rightarrow> bytes" where
  "file_bytes fs q = (case node_at fs q of Some (NFile d m) \<Rightarrow> d | _ \<Rightarrow> [])"

definition Remove :: "filesys \<Rightarrow> loc \<Rightarrow> change" where
  "Remove fs p =
     (case lresolve fs p of
        Inl e \<Rightarrow> (Some e, fs)
      | Inr q \<Rightarrow>
          (case node_at fs q of
             None \<Rightarrow> (Some ENOENT, fs)
           | Some (NDir _) \<Rightarrow>
               if q = [] then (Some EINVAL, fs)
               else if children fs q \<noteq> [] then (Some ENOTEMPTY, fs) else (None, drop_node q fs)
           | Some _ \<Rightarrow> (None, drop_node q fs)))"

text \<open>\<open>os.RemoveAll\<close>: a missing path is no error; the root directory itself cannot be removed.\<close>

definition RemoveAll :: "filesys \<Rightarrow> loc \<Rightarrow> change" where
  "RemoveAll fs p =
     (case lresolve fs p of
        Inl ENOENT \<Rightarrow> (None, fs)
      | Inl e \<Rightarrow> (Some e, fs)
      | Inr q \<Rightarrow> (if q = [] then Some EINVAL else None, drop_tree q fs))"

text \<open>\<open>os.Rename\<close>; \<open>dev\<close> tells on which device a location lies.\<close>

definition Rename :: "(loc \<Rightarrow> nat) \<Rightarrow> filesys \<Rightarrow> loc \<Rightarrow> loc \<Rightarrow> change" where
  "Rename dev fs src dst =
     (case (lresolve fs src, lresolve fs dst) of
        (Inl e, _) \<Rightarrow> (Some e, fs)
      | (_, Inl e) \<Rightarrow> (Some e, fs)
      | (Inr p, Inr q) \<Rightarrow>
          (case node_at fs p of
             None \<Rightarrow> (Some ENOENT, fs)
           | Some x \<Rightarrow>
               if \<not> is_dir fs (butlast q) then (Some ENOTDIR, fs)
               else if dev p \<noteq> dev q then (Some EXDEV, fs)
               else if p = q then (None, fs)
               else if prefix p q \<or> p = [] then (Some EINVAL, fs)
               else
                 (case (x, node_at fs q) of
                    (_, None) \<Rightarrow> (None, move_tree p q fs)
                  | (NDir _, Some (NDir _)) \<Rightarrow>
                      if children fs q = [] then (None, move_tree p q fs) else (Some ENOTEMPTY, fs)
                  | (NDir _, Some _) \<Rightarrow> (Some ENOTDIR, fs)
                  | (_, Some (NDir _)) \<Rightarrow> (Some EEXIST, fs)
                  | (_, Some _) \<Rightarrow> (None, move_tree p q fs))))"

section \<open>Lookup after a change\<close>

lemma map_of_filter_fst: "map_of (filter (\<lambda>e. P (fst e)) xs) k = (if P k then map_of xs k else None)"
  by (induction xs) auto

lemma node_at_root [simp]: "node_at fs [] = Some (NDir 493)"
  by (simp add: node_at_def)

lemma node_at_put: "p \<noteq> [] \<Longrightarrow> node_at (put_node p x fs) q = (if q = p then Some x else node_at fs q)"
  using map_of_filter_fst [of "\<lambda>k. k \<noteq> p" "nodes fs" q] by (simp add: node_at_def put_node_def)

lemma node_at_drop_tree: "q \<noteq> [] \<Longrightarrow> node_at (drop_tree p fs) q = (if prefix p q then None else node_at fs q)"
  using map_of_filter_fst [of "\<lambda>k. \<not> prefix p k" "nodes fs" q] by (simp add: node_at_def drop_tree_def)

lemma node_at_drop_node: "q \<noteq> [] \<Longrightarrow> node_at (drop_node p fs) q = (if q = p then None else node_at fs q)"
  using map_of_filter_fst [of "\<lambda>k. k \<noteq> p" "nodes fs" q] by (simp add: node_at_def drop_node_def)

lemma moved_key: "prefix p l \<Longrightarrow> k = q @ drop (length p) l \<longleftrightarrow> prefix q k \<and> p @ drop (length q) k = l"
  by (auto simp: prefix_def)

text \<open>Neither location lies in the other.\<close>

definition apart :: "loc \<Rightarrow> loc \<Rightarrow> bool" where
  "apart p q \<longleftrightarrow> \<not> prefix p q \<and> \<not> prefix q p"

lemma apart_below: "apart p q \<Longrightarrow> prefix p k \<Longrightarrow> \<not> prefix q k"
  using prefix_same_cases [of p k q] by (auto simp: apart_def)

lemma map_of_move:
  assumes "apart p q"
  shows "map_of (map (\<lambda>(l, x). (if prefix p l then q @ drop (length p) l else l, x))
           (filter (\<lambda>e. prefix p (fst e) \<or> \<not> prefix q (fst e)) ns)) k =
         (if prefix q k then map_of ns (p @ drop (length q) k) else if prefix p k then None else map_of ns k)"
proof (induction ns)
  case (Cons e ns)
  obtain l x where e: "e = (l, x)" by (cases e)
  show ?case
  proof (cases "prefix p l")
    case True
    then have "(k = q @ drop (length p) l) = (prefix q k \<and> p @ drop (length q) k = l)" "l = k \<Longrightarrow> \<not> prefix q k"
      using moved_key [OF True] apart_below [OF assms True] by blast+
    then show ?thesis using Cons True by (auto simp: e)
  next
    case False
    then have "p @ drop (length q) k \<noteq> l" by auto
    then show ?thesis using Cons False by (auto simp: e)
  qed
qed simp

lemma node_at_move:
  assumes "apart p q" "k \<noteq> []"
  shows "node_at (move_tree p q fs) k =
    (if prefix q k then node_at fs (p @ drop (length q) k) else if prefix p k then None else node_at fs k)"
proof -
  have "p \<noteq> []" using assms(1) by (auto simp: apart_def)
  then show ?thesis using map_of_move [OF assms(1), of "nodes fs" k] assms(2) by (simp add: node_at_def move_tree_def)
qed

section \<open>What a call can change\<close>

text \<open>\<open>only_below p\<close>: outside the subtree at \<open>p\<close> nothing differs.\<close>

definition only_below :: "loc \<Rightarrow> filesys \<Rightarrow> filesys \<Rightarrow> bool" where
  "only_below p fs fs' \<longleftrightarrow> (\<forall>q. \<not> prefix p q \<longrightarrow> node_at fs' q = node_at fs q)"

lemma only_below_refl [simp]: "only_below p fs fs"
  by (simp add: only_below_def)

lemma only_below_trans: "only_below p fs fs1 \<Longrightarrow> only_below p fs1 fs2 \<Longrightarrow> only_below p fs fs2"
  by (simp add: only_below_def)

lemma only_below_mono: "only_below p fs fs' \<Longrightarrow> prefix r p \<Longrightarrow> only_below r fs fs'"
  unfolding only_below_def by (meson prefix_order.trans)

lemma only_below_put: "q \<noteq> [] \<Longrightarrow> only_below q fs (put_node q x fs)"
  by (auto simp: only_below_def node_at_put)

lemma only_below_drop_tree: "only_below q fs (drop_tree q fs)"
  by (auto simp: only_below_def) (metis node_at_drop_tree node_at_root)

lemma only_below_drop_node: "only_below q fs (drop_node q fs)"
  by (auto simp: only_below_def) (metis node_at_drop_node node_at_root prefix_order.refl)

section \<open>Reaching a stored file\<close>

text \<open>Once a file is stored where a walk may create it, the same path leads to it.\<close>

lemma walks_put:
  assumes "walks fs True n cur cs q" "q \<noteq> []" "\<not> is_dir fs q" "\<And>t. node_at fs q \<noteq> Some (NLink t)"
  shows "walks (put_node q (NFile d m) fs) False n cur cs q"
  using assms
proof (induction rule: walks.induct)
  case (w_new c cur n)
  then show ?case by (intro walks.w_file [where d = d and m = m]) (simp_all add: node_at_put)
next
  case (w_file c cur d' m' n)
  then show ?case by (intro walks.w_file [where d = d and m = m]) (simp_all add: node_at_put)
next
  case (w_dir c cur m' n cs q)
  then have "cur @ [c] \<noteq> q" by (auto simp: is_dir_iff)
  with w_dir show ?case by (intro walks.w_dir [where m = m']) (auto simp: node_at_put)
next
  case (w_link c cur t n cs q)
  then have "cur @ [c] \<noteq> q" by auto
  with w_link show ?case by (intro walks.w_link [where t = t]) (auto simp: node_at_put)
qed (auto intro: walks.intros)

lemma resolve_put:
  assumes "resolve fs True p = Inr q" "\<not> is_dir fs q"
  shows "resolve (put_node q (NFile d m) fs) False p = Inr q"
proof -
  have w: "walks fs True MAXSYMLINKS [] p q" using assms(1) by (simp add: resolve_def walk_iff)
  have "q \<noteq> []" using assms(2) by (auto simp: is_dir_iff)
  with walks_put [OF w _ assms(2)] walks_no_link [OF w] show ?thesis by (simp add: resolve_def walk_iff)
qed

end
