(* ===== verification/Manage_Ops.thy ===== *)
theory Manage_Ops
  imports Server_Config Sandbox File_Changes
begin

text \<open>
  Moving, copying, deleting and making directories (\<open>manageops.go\<close>), as functions from the file system to
  a result and the file system afterwards.
\<close>

section \<open>Definitions\<close>

datatype op_error =
    OReadOnly read_only_error
  | OPath path_error
  | OSys fs_error
  | ODestExists
  | ODestDirExists
  | ORemoveDest fs_error
  | OCrossLink fs_error
  | OCrossCopy op_error
  | OCrossCleanup fs_error
  | ONotRegular loc
  | ODeleteRoot
  | ODirNotEmpty
  | OConfirm nat
  | ONotADirectory
  | OBadMode gostring

subsection \<open>Copying\<close>

definition copyOneFile :: "filesys \<Rightarrow> loc \<Rightarrow> loc \<Rightarrow> (op_error + nat) \<times> filesys" where
  "copyOneFile fs src dst =
     (case resolve fs False src of
        Inl e \<Rightarrow> (Inl (OSys e), fs)
      | Inr i \<Rightarrow>
          (case node_at fs i of
             Some (NFile d m) \<Rightarrow>
               (case open_write fs dst False m of
                  (Inl e, fs1) \<Rightarrow> (Inl (OSys e), fs1)
                | (Inr out, fs1) \<Rightarrow>
                    (let content = file_bytes fs1 i
                     in (Inr (length content), write_open out content fs1)))
           | _ \<Rightarrow> (Inl (ONotRegular src), fs)))"

definition dir_names :: "filesys \<Rightarrow> loc \<Rightarrow> gostring list" where
  "dir_names fs p = (case resolve fs False p of Inl e \<Rightarrow> [] | Inr q \<Rightarrow> children fs q)"

text \<open>One call of the walk function on the path \<open>p\<close>, found to be the node \<open>x\<close>.\<close>

definition copy_entry :: "filesys \<Rightarrow> loc \<Rightarrow> loc \<Rightarrow> node \<Rightarrow> op_error option \<times> filesys" where
  "copy_entry fs p target x =
     (case x of
        NDir m \<Rightarrow> (case MkdirAll fs target m of (e, fs1) \<Rightarrow> (map_option OSys e, fs1))
      | NLink t \<Rightarrow>
          (case Symlink (snd (Remove fs target)) t target of (e, fs1) \<Rightarrow> (map_option OSys e, fs1))
      | NFile _ _ \<Rightarrow>
          (case copyOneFile fs p target of (Inl e, fs1) \<Rightarrow> (Some e, fs1) | (Inr n, fs1) \<Rightarrow> (None, fs1)))"

text \<open>\<open>filepath.Walk\<close>: the pending paths in order; the names of a directory are read before its own call.
  The fuel bounds the number of entries; running out is \<open>None\<close>.\<close>

fun copy_loop ::
  "nat \<Rightarrow> loc \<Rightarrow> loc \<Rightarrow> filesys \<Rightarrow> loc list \<Rightarrow> nat \<Rightarrow> ((op_error option \<times> nat) \<times> filesys) option" where
  "copy_loop k src dst fs [] n = Some ((None, n), fs)"
| "copy_loop 0 src dst fs (p # ps) n = None"
| "copy_loop (Suc k) src dst fs (p # ps) n =
     (case Lstat fs p of
        Inl e \<Rightarrow> Some ((Some (OSys e), n), fs)
      | Inr x \<Rightarrow>
          (let below = (case x of NDir _ \<Rightarrow> map (\<lambda>c. p @ [c]) (dir_names fs p) | _ \<Rightarrow> []) in
           case copy_entry fs p (dst @ drop (length src) p) x of
             (Some e, fs1) \<Rightarrow> Some ((Some e, n), fs1)
           | (None, fs1) \<Rightarrow> copy_loop k src dst fs1 (below @ ps) (Suc n)))"

definition copyDirRecursive :: "nat \<Rightarrow> filesys \<Rightarrow> loc \<Rightarrow> loc \<Rightarrow> ((op_error option \<times> nat) \<times> filesys) option" where
  "copyDirRecursive fuel fs src dst = copy_loop fuel src dst fs [src] 0"

record CopyFileRequest =
  cpSrc :: gostring
  cpDst :: gostring
  cpOverwrite :: bool

record CopyFileResult =
  crSrc :: gostring
  crDst :: gostring
  crBytes :: nat
  crEntries :: nat
  crOverwritten :: bool

definition present :: "filesys \<Rightarrow> loc \<Rightarrow> bool" where
  "present fs p = (case Lstat fs p of Inl e \<Rightarrow> False | Inr x \<Rightarrow> True)"

definition CopyFile ::
  "nat \<Rightarrow> bool \<Rightarrow> CopyFileRequest \<Rightarrow> gostring list \<Rightarrow> filesys \<Rightarrow> ((op_error + CopyFileResult) \<times> filesys) option" where
  "CopyFile fuel latch req roots fs =
     (case guardReadOnly latch ''copy_file'' of
        Some e \<Rightarrow> Some (Inl (OReadOnly e), fs)
      | None \<Rightarrow>
     (case validatePath fs (cpSrc req) roots of
        Inl e \<Rightarrow> Some (Inl (OPath e), fs)
      | Inr srcAbs \<Rightarrow>
     (case validatePath fs (cpDst req) roots of
        Inl e \<Rightarrow> Some (Inl (OPath e), fs)
      | Inr dstAbs \<Rightarrow>
     (let s = clean_comps srcAbs; d = clean_comps dstAbs;
          res = \<lparr>crSrc = srcAbs, crDst = dstAbs, crBytes = 0, crEntries = 0, crOverwritten = False\<rparr> in
      case Lstat fs s of
        Inl e \<Rightarrow> Some (Inl (OSys e), fs)
      | Inr x \<Rightarrow>
          if present fs d \<and> \<not> cpOverwrite req then Some (Inl ODestExists, fs)
          else
            (case x of
               NDir _ \<Rightarrow>
                 if present fs d then Some (Inl ODestDirExists, fs)
                 else
                   (case copyDirRecursive fuel fs s d of
                      None \<Rightarrow> None
                    | Some ((Some e, n), fs1) \<Rightarrow> Some (Inl e, fs1)
                    | Some ((None, n), fs1) \<Rightarrow> Some (Inr (res\<lparr>crEntries := n\<rparr>), fs1))
             | _ \<Rightarrow>
                 (case copyOneFile fs s d of
                    (Inl e, fs1) \<Rightarrow> Some (Inl e, fs1)
                  | (Inr n, fs1) \<Rightarrow> Some (Inr (res\<lparr>crBytes := n, crOverwritten := present fs d\<rparr>), fs1)))))))"

subsection \<open>Moving\<close>

record MoveFileRequest =
  mvSrc :: gostring
  mvDst :: gostring
  mvOverwrite :: bool

record MoveFileResult =
  mrSrc :: gostring
  mrDst :: gostring
  mrOverwritten :: bool

text \<open>What follows a rename that failed: copy, then remove the source.\<close>

definition cross_move :: "nat \<Rightarrow> filesys \<Rightarrow> loc \<Rightarrow> loc \<Rightarrow> (op_error option \<times> filesys) option" where
  "cross_move fuel fs s d =
     (case Lstat fs s of
        Inl e \<Rightarrow> Some (Some (OSys e), fs)
      | Inr (NLink t) \<Rightarrow>
          (case Symlink fs t d of
             (Some e, fs1) \<Rightarrow> Some (Some (OCrossLink e), fs1)
           | (None, fs1) \<Rightarrow> (case Remove fs1 s of (e, fs2) \<Rightarrow> Some (map_option OCrossCleanup e, fs2)))
      | Inr (NDir _) \<Rightarrow>
          (case copyDirRecursive fuel fs s d of
             None \<Rightarrow> None
           | Some ((Some e, n), fs1) \<Rightarrow> Some (Some (OCrossCopy e), fs1)
           | Some ((None, n), fs1) \<Rightarrow> (case RemoveAll fs1 s of (e, fs2) \<Rightarrow> Some (map_option OCrossCleanup e, fs2)))
      | Inr (NFile _ _) \<Rightarrow>
          (case copyOneFile fs s d of
             (Inl e, fs1) \<Rightarrow> Some (Some (OCrossCopy e), fs1)
           | (Inr n, fs1) \<Rightarrow> (case Remove fs1 s of (e, fs2) \<Rightarrow> Some (map_option OCrossCleanup e, fs2))))"

definition rename_or_copy :: "(loc \<Rightarrow> nat) \<Rightarrow> nat \<Rightarrow> filesys \<Rightarrow> loc \<Rightarrow> loc \<Rightarrow> (op_error option \<times> filesys) option" where
  "rename_or_copy dev fuel fs s d =
     (case Rename dev fs s d of
        (None, fs1) \<Rightarrow> Some (None, fs1)
      | (Some e, fs1) \<Rightarrow> cross_move fuel fs1 s d)"

definition MoveFile ::
  "(loc \<Rightarrow> nat) \<Rightarrow> nat \<Rightarrow> bool \<Rightarrow> MoveFileRequest \<Rightarrow> gostring list \<Rightarrow> filesys \<Rightarrow>
   ((op_error + MoveFileResult) \<times> filesys) option" where
  "MoveFile dev fuel latch req roots fs =
     (case guardReadOnly latch ''move_file'' of
        Some e \<Rightarrow> Some (Inl (OReadOnly e), fs)
      | None \<Rightarrow>
     (case validateLinkPath fs (mvSrc req) roots of
        Inl e \<Rightarrow> Some (Inl (OPath e), fs)
      | Inr srcAbs \<Rightarrow>
     (case validatePath fs (mvDst req) roots of
        Inl e \<Rightarrow> Some (Inl (OPath e), fs)
      | Inr dstAbs \<Rightarrow>
     (let s = clean_comps srcAbs; d = clean_comps dstAbs in
      case Lstat fs s of
        Inl e \<Rightarrow> Some (Inl (OSys e), fs)
      | Inr _ \<Rightarrow>
          (let there = present fs d in
           if there \<and> \<not> mvOverwrite req then Some (Inl ODestExists, fs)
           else
             (case (if there then RemoveAll fs d else (None, fs)) of
                (Some e, fs1) \<Rightarrow> Some (Inl (ORemoveDest e), fs1)
              | (None, fs1) \<Rightarrow>
                  (case rename_or_copy dev fuel fs1 s d of
                     None \<Rightarrow> None
                   | Some (Some e, fs2) \<Rightarrow> Some (Inl e, fs2)
                   | Some (None, fs2) \<Rightarrow>
                       Some (Inr \<lparr>mrSrc = srcAbs, mrDst = dstAbs, mrOverwritten = there\<rparr>, fs2))))))))"

subsection \<open>Deleting\<close>

record DeleteFileRequest =
  dlPath :: gostring
  dlRecursive :: bool
  dlConfirm :: bool
  dlDryRun :: bool

record DeleteFileResult =
  drPath :: gostring
  drDeleted :: bool
  drDryRun :: bool
  drEntries :: nat
  drSample :: "gostring list"
  drIsDir :: bool

definition deleteSampleLimit :: nat where [go_defs]: "deleteSampleLimit = 100"

text \<open>The entries below a directory in the order of \<open>filepath.WalkDir\<close>: each directory before its
  contents, names sorted, which is the lexicographic order of the locations.\<close>

definition tree_list :: "filesys \<Rightarrow> loc \<Rightarrow> loc list" where
  "tree_list fs q = sort (remdups (filter (\<lambda>l. strict_prefix q l) (map fst (nodes fs))))"

definition below_paths :: "filesys \<Rightarrow> loc \<Rightarrow> gostring list" where
  "below_paths fs p =
     (case resolve fs False p of
        Inl e \<Rightarrow> []
      | Inr q \<Rightarrow> map (\<lambda>l. path_of True (p @ drop (length q) l)) (tree_list fs q))"

definition DeleteFile ::
  "bool \<Rightarrow> DeleteFileRequest \<Rightarrow> gostring list \<Rightarrow> filesys \<Rightarrow> (op_error + DeleteFileResult) \<times> filesys" where
  "DeleteFile latch req roots fs =
     (case guardReadOnly latch ''delete_file'' of
        Some e \<Rightarrow> (Inl (OReadOnly e), fs)
      | None \<Rightarrow>
     (case validateLinkPath fs (dlPath req) roots of
        Inl e \<Rightarrow> (Inl (OPath e), fs)
      | Inr ap \<Rightarrow>
          if list_ex (\<lambda>r. ap = Clean r) roots then (Inl ODeleteRoot, fs)
          else
            (let p = clean_comps ap in
             case Lstat fs p of
               Inl e \<Rightarrow> (Inl (OSys e), fs)
             | Inr x \<Rightarrow>
                 (let isdir = (case x of NDir _ \<Rightarrow> True | _ \<Rightarrow> False);
                      paths = (if isdir then below_paths fs p else [ap]);
                      result = \<lparr>drPath = ap, drDeleted = False, drDryRun = dlDryRun req, drEntries = length paths,
                                drSample = take deleteSampleLimit paths, drIsDir = isdir\<rparr> in
                  if isdir \<and> dir_names fs p \<noteq> [] \<and> \<not> dlRecursive req then (Inl ODirNotEmpty, fs)
                  else if dlDryRun req then (Inr result, fs)
                  else if \<not> dlConfirm req then (Inl (OConfirm (length paths)), fs)
                  else
                    (case RemoveAll fs p of
                       (Some e, fs1) \<Rightarrow> (Inl (OSys e), fs1)
                     | (None, fs1) \<Rightarrow> (Inr (result\<lparr>drDeleted := True\<rparr>), fs1))))))"

subsection \<open>Making directories\<close>

definition is_octal :: "char \<Rightarrow> bool" where
  "is_octal c \<longleftrightarrow> 48 \<le> bval c \<and> bval c < 56"

definition ParseOctal :: "gostring \<Rightarrow> nat option" where
  "ParseOctal s =
     (if s \<noteq> [] \<and> list_all is_octal s
      then (let v = foldl (\<lambda>n c. 8 * n + (bval c - 48)) 0 s in if v < 2 ^ 32 then Some v else None)
      else None)"

definition parseMode :: "gostring \<Rightarrow> op_error + nat" where
  "parseMode mode =
     (if TrimSpace mode = [] then Inr 420
      else (case ParseOctal mode of None \<Rightarrow> Inl (OBadMode mode) | Some v \<Rightarrow> Inr v))"

record MakeDirRequest =
  mdPath :: gostring
  mdMode :: gostring
  mdParents :: bool

record MakeDirResult =
  mdrPath :: gostring
  mdrCreated :: bool
  mdrMode :: gostring

definition stat_mode :: "filesys \<Rightarrow> loc \<Rightarrow> gostring" where
  "stat_mode fs p =
     (case Stat fs p of
        Inl e \<Rightarrow> []
      | Inr (NFile d m) \<Rightarrow> perm_string m
      | Inr (NDir m) \<Rightarrow> perm_string m
      | Inr (NLink t) \<Rightarrow> [])"

definition MakeDir ::
  "bool \<Rightarrow> MakeDirRequest \<Rightarrow> gostring list \<Rightarrow> filesys \<Rightarrow> (op_error + MakeDirResult) \<times> filesys" where
  "MakeDir latch req roots fs =
     (case guardReadOnly latch ''make_dir'' of
        Some e \<Rightarrow> (Inl (OReadOnly e), fs)
      | None \<Rightarrow>
     (case validatePath fs (mdPath req) roots of
        Inl e \<Rightarrow> (Inl (OPath e), fs)
      | Inr ap \<Rightarrow>
     (case parseMode (mdMode req) of
        Inl e \<Rightarrow> (Inl e, fs)
      | Inr m0 \<Rightarrow>
          (let p = clean_comps ap; m = (if TrimSpace (mdMode req) = [] then 493 else m0) in
           case Stat fs p of
             Inr (NDir pm) \<Rightarrow> (Inr \<lparr>mdrPath = ap, mdrCreated = False, mdrMode = perm_string pm\<rparr>, fs)
           | Inr _ \<Rightarrow> (Inl ONotADirectory, fs)
           | Inl _ \<Rightarrow>
               (case (if mdParents req then MkdirAll fs p m else Mkdir fs p m) of
                  (Some e, fs1) \<Rightarrow> (Inl (OSys e), fs1)
                | (None, fs1) \<Rightarrow> (Inr \<lparr>mdrPath = ap, mdrCreated = True, mdrMode = stat_mode fs1 p\<rparr>, fs1))))))"

section \<open>Three ways to lose data\<close>

definition small_fs :: filesys where
  "small_fs = \<lparr>nodes = [([''d''], NDir 493), ([''d'', ''f''], NFile ''data'' 420), ([''e''], NDir 493)],
               workdir = ''/'', umask = 18\<rparr>"

text \<open>moving a directory into itself destroys it: the kernel refuses the rename, the code takes any failed
  rename for a move across file systems, copies the directory into its own subdirectory and then
  removes the source with the copy, reporting success.\<close>

theorem move_into_itself_loses:
  "MoveFile (\<lambda>_. 0) 10 False \<lparr>mvSrc = ''/d'', mvDst = ''/d/sub'', mvOverwrite = False\<rparr> [] small_fs =
     Some (Inr \<lparr>mrSrc = ''/d'', mrDst = ''/d/sub'', mrOverwritten = False\<rparr>,
           small_fs\<lparr>nodes := [([''e''], NDir 493)]\<rparr>)"
  by code_simp

lemma move_onto_itself_loses:
  "MoveFile (\<lambda>_. 0) 10 False \<lparr>mvSrc = ''/d/f'', mvDst = ''/d/f'', mvOverwrite = True\<rparr> [] small_fs =
     Some (Inl (OSys ENOENT), small_fs\<lparr>nodes := [([''d''], NDir 493), ([''e''], NDir 493)]\<rparr>)"
  by code_simp

text \<open>copying a file onto itself with \<open>overwrite\<close> empties it: the destination is truncated before the
  source is read.\<close>

theorem copy_onto_itself_empties:
  "(case CopyFile 10 False \<lparr>cpSrc = ''/d/f'', cpDst = ''/d/f'', cpOverwrite = True\<rparr> [] small_fs of
      Some (Inr r, fs) \<Rightarrow> crBytes r = 0 \<and> node_at fs [''d'', ''f''] = Some (NFile [] 420)
    | _ \<Rightarrow> False)"
  by code_simp

section \<open>Deleting removes one subtree\<close>

text \<open>A directory that \<open>Lstat\<close> sees is also where a walk to the path ends.\<close>

lemma lresolve_dir:
  assumes "lresolve fs p = Inr q" "node_at fs q = Some (NDir m)" "names p" "is_dir fs (butlast q)"
  shows "resolve fs False p = Inr q"
proof (cases p rule: rev_cases)
  case Nil
  then show ?thesis using assms by (simp add: lresolve_def resolve_def)
next
  case (snoc d c)
  then obtain mid where mid: "walks fs False MAXSYMLINKS [] d mid" "q = mid @ [c]"
    using assms(1) by (auto simp: lresolve_def resolve_def walk_iff split: sum.splits)
  have "placed fs mid" using walks_placed [OF mid(1)] by simp
  then have "dirs fs mid" using assms(4) mid(2) by (simp add: dirs_def)
  moreover have "walks fs False 0 mid [c] q"
    using assms(2,3) mid(2) snoc names_special [of "[c]"] by (auto intro: walks.intros)
  ultimately show ?thesis
    using walks_join [OF mid(1), of False 0 "[c]" q] snoc by (simp add: resolve_def walk_iff)
qed

lemma set_tree_list: "set (tree_list fs q) = {l. strict_prefix q l \<and> node_at fs l \<noteq> None}"
proof -
  have "l \<in> fst ` set (nodes fs) \<longleftrightarrow> node_at fs l \<noteq> None" if "strict_prefix q l" for l
  proof -
    have "l \<noteq> []" using that by auto
    then show ?thesis by (simp only: node_at_def map_of_eq_None_iff if_False) simp
  qed
  then show ?thesis by (auto simp: tree_list_def)
qed

lemma length_tree_list: "length (tree_list fs q) = card {l. strict_prefix q l \<and> node_at fs l \<noteq> None}"
proof -
  have "distinct (tree_list fs q)" by (simp add: tree_list_def)
  from distinct_card [OF this] show ?thesis unfolding set_tree_list by simp
qed

lemma validateLinkPath_abs: "validateLinkPath fs p roots = Inr ap \<Longrightarrow> ap = Clean (Abs (workdir fs) p)"
  by (auto simp: validateLinkPath_def Let_def split: if_splits sum.splits)

lemma RemoveAll_change:
  assumes "RemoveAll fs p = (e, fs')"
  shows "fs' = fs \<or> (\<exists>q. lresolve fs p = Inr q \<and> fs' = drop_tree q fs)"
  using assms by (auto simp: RemoveAll_def split: sum.splits fs_error.splits)

lemma DeleteFile_cases:
  assumes "DeleteFile latch req roots fs = (res, fs')" "fs' \<noteq> fs"
  obtains ap q where "\<not> latch" "validateLinkPath fs (dlPath req) roots = Inr ap" "\<not> list_ex (\<lambda>r. ap = Clean r) roots"
    "dlConfirm req" "\<not> dlDryRun req" "lresolve fs (clean_comps ap) = Inr q" "fs' = drop_tree q fs"
proof -
  from assms obtain ap e where "\<not> latch" "validateLinkPath fs (dlPath req) roots = Inr ap"
    "\<not> list_ex (\<lambda>r. ap = Clean r) roots" "dlConfirm req" "\<not> dlDryRun req" "RemoveAll fs (clean_comps ap) = (e, fs')"
    by (auto simp: DeleteFile_def Let_def guardReadOnly_def split: option.splits sum.splits if_splits prod.splits)
  with RemoveAll_change [of fs "clean_comps ap" e fs'] assms(2) that show ?thesis by blast
qed

text \<open>C25: a delete changes the file system only when it is confirmed, not a dry run and not in read-only mode,
  and then it removes exactly the subtree at the named location: every other node is untouched.  With
  roots configured, that location lies below a resolved root and is not a root itself.\<close>

theorem delete_exact:
  assumes "DeleteFile latch req roots fs = (res, fs')" "fs' \<noteq> fs" "IsAbs (workdir fs)" "list_all IsAbs roots"
  shows "\<not> latch \<and> dlConfirm req \<and> \<not> dlDryRun req \<and>
    (\<exists>ap q. validateLinkPath fs (dlPath req) roots = Inr ap \<and> lresolve fs (clean_comps ap) = Inr q \<and>
       (\<forall>k. k \<noteq> [] \<longrightarrow> node_at fs' k = (if prefix q k then None else node_at fs k)) \<and>
       (roots \<noteq> [] \<longrightarrow> (\<forall>r \<in> set roots. ap \<noteq> Clean r) \<and> underRoots (path_of True q) (resolveRoots fs roots)))"
proof -
  obtain ap q where d: "\<not> latch" "validateLinkPath fs (dlPath req) roots = Inr ap" "\<not> list_ex (\<lambda>r. ap = Clean r) roots"
    "dlConfirm req" "\<not> dlDryRun req" "lresolve fs (clean_comps ap) = Inr q" "fs' = drop_tree q fs"
    using DeleteFile_cases [OF assms(1,2)] .
  then have "roots \<noteq> [] \<longrightarrow> underRoots (path_of True q) (resolveRoots fs roots)"
    using validateLinkPath_confined assms(3,4) by blast
  with d show ?thesis using node_at_drop_tree by (auto simp: list_ex_iff)
qed

lemma DeleteFile_dry:
  assumes "\<not> latch" "validateLinkPath fs (dlPath req) roots = Inr ap" "\<not> list_ex (\<lambda>r. ap = Clean r) roots"
    and "Lstat fs (clean_comps ap) = Inr x" "dlDryRun req"
  defines "isdir \<equiv> (case x of NDir _ \<Rightarrow> True | _ \<Rightarrow> False)"
  defines "paths \<equiv> (if isdir then below_paths fs (clean_comps ap) else [ap])"
  shows "DeleteFile latch req roots fs =
    (if isdir \<and> dir_names fs (clean_comps ap) \<noteq> [] \<and> \<not> dlRecursive req then (Inl ODirNotEmpty, fs)
     else (Inr \<lparr>drPath = ap, drDeleted = False, drDryRun = True, drEntries = length paths,
                drSample = take deleteSampleLimit paths, drIsDir = isdir\<rparr>, fs))"
  unfolding isdir_def paths_def DeleteFile_def guardReadOnly_def Let_def using assms(1-5) by simp

text \<open>the dry run is honest: for a directory it reports exactly the entries that lie below it, the
  number that a confirmed delete removes besides the directory itself.\<close>

theorem delete_dry_run_counts:
  assumes "DeleteFile latch req roots fs = (Inr r, fs')" "dlDryRun req" "drIsDir r" "IsAbs (workdir fs)"
    and "lresolve fs (clean_comps (drPath r)) = Inr q" "is_dir fs (butlast q)"
  shows "fs' = fs \<and> \<not> drDeleted r \<and> drEntries r = card {l. strict_prefix q l \<and> node_at fs l \<noteq> None} \<and>
    length (drSample r) = min (drEntries r) deleteSampleLimit"
proof -
  from assms(1) obtain ap x where a: "\<not> latch" "validateLinkPath fs (dlPath req) roots = Inr ap"
    "\<not> list_ex (\<lambda>r. ap = Clean r) roots" "Lstat fs (clean_comps ap) = Inr x"
    by (auto simp: DeleteFile_def Let_def guardReadOnly_def split: option.splits sum.splits if_splits)
  note step = DeleteFile_dry [OF a assms(2)]
  obtain m where x: "x = NDir m" using step assms(1,3) by (cases x) (auto split: if_splits)
  have r: "validateLinkPath fs (dlPath req) roots = Inr ap" "Lstat fs (clean_comps ap) = Inr (NDir m)" "fs' = fs"
    "drPath r = ap" "\<not> drDeleted r" "drEntries r = length (below_paths fs (clean_comps ap))"
    "drSample r = take deleteSampleLimit (below_paths fs (clean_comps ap))"
    using step assms(1) a x by (auto split: if_splits)
  have n: "names (clean_comps ap)"
    using validateLinkPath_abs [OF r(1)] IsAbs_Abs [OF assms(4)] names_clean_comps by blast
  have "node_at fs q = Some (NDir m)" using r(2,4) assms(5) by (auto simp: Lstat_def split: option.splits)
  then have "resolve fs False (clean_comps ap) = Inr q" using lresolve_dir assms(5,6) r(4) n by blast
  then show ?thesis using r by (simp add: below_paths_def length_tree_list)
qed

section \<open>Moving and copying\<close>

lemma apart_nonempty: "apart p q \<Longrightarrow> p \<noteq> [] \<and> q \<noteq> []"
  by (auto simp: apart_def)

lemma lresolve_present:
  "lresolve fs p = Inr q \<Longrightarrow> present fs p \<longleftrightarrow> node_at fs q \<noteq> None"
  by (auto simp: present_def Lstat_def split: option.splits)

lemma Rename_new:
  assumes "lresolve fs s = Inr p" "lresolve fs d = Inr q" "node_at fs p \<noteq> None" "node_at fs q = None"
    and "is_dir fs (butlast q)" "apart p q" "dev p = dev q"
  shows "Rename dev fs s d = (None, move_tree p q fs)"
  using assms apart_nonempty [OF assms(6)] by (auto simp: Rename_def apart_def split: node.splits)

text \<open>a move to a free name on the same device relocates the whole subtree: afterwards every node below
  the source is found at the same place below the destination, nothing is left at the source, and every
  other node is as before.\<close>

theorem move_relocates:
  assumes "\<not> latch" "validateLinkPath fs (mvSrc req) roots = Inr sp" "validatePath fs (mvDst req) roots = Inr dp"
    and "lresolve fs (clean_comps sp) = Inr p" "lresolve fs (clean_comps dp) = Inr q"
    and "node_at fs p \<noteq> None" "node_at fs q = None" "is_dir fs (butlast q)" "apart p q" "dev p = dev q"
  shows "\<exists>fs'. MoveFile dev fuel latch req roots fs =
      Some (Inr \<lparr>mrSrc = sp, mrDst = dp, mrOverwritten = False\<rparr>, fs') \<and>
    (\<forall>k. k \<noteq> [] \<longrightarrow> node_at fs' k =
       (if prefix q k then node_at fs (p @ drop (length q) k) else if prefix p k then None else node_at fs k))"
proof (intro exI conjI allI impI)
  obtain x where "Lstat fs (clean_comps sp) = Inr x" using assms(4,6) by (auto simp: Lstat_def)
  moreover have "\<not> present fs (clean_comps dp)" using lresolve_present [OF assms(5)] assms(7) by simp
  ultimately show "MoveFile dev fuel latch req roots fs =
      Some (Inr \<lparr>mrSrc = sp, mrDst = dp, mrOverwritten = False\<rparr>, move_tree p q fs)"
    using assms(1-3) Rename_new [OF assms(4-10)]
    by (simp add: MoveFile_def guardReadOnly_def Let_def rename_or_copy_def)
qed (use node_at_move [OF assms(9)] in blast)

lemma copyOneFile_exact:
  assumes "resolve fs False s = Inr i" "node_at fs i = Some (NFile dat m)"
    and "resolve fs True d = Inr out" "out \<noteq> i" "\<not> is_dir fs out"
  shows "\<exists>fs' pm. copyOneFile fs s d = (Inr (length dat), fs') \<and>
    (\<forall>k. node_at fs' k = (if k = out then Some (NFile dat pm) else node_at fs k)) \<and>
    pm = (case node_at fs out of Some (NFile _ pm0) \<Rightarrow> pm0 | _ \<Rightarrow> masked fs m)"
proof -
  have ne: "out \<noteq> []" using assms(5) by (auto simp: is_dir_iff)
  have nl: "node_at fs out \<noteq> Some (NLink t)" for t
    using walks_no_link [of fs True MAXSYMLINKS "[]" d out] assms(3) by (simp add: resolve_def walk_iff)
  define pm where "pm = (case node_at fs out of Some (NFile _ pm0) \<Rightarrow> pm0 | _ \<Rightarrow> masked fs m)"
  have o: "open_write fs d False m = (Inr out, put_node out (NFile [] pm) fs)"
    using assms(3,5) nl by (auto simp: open_write_def pm_def is_dir_iff split: option.splits node.splits)
  have "file_bytes (put_node out (NFile [] pm) fs) i = dat"
    using assms(2,4) ne by (auto simp: file_bytes_def node_at_put)
  then have "copyOneFile fs s d = (Inr (length dat), put_node out (NFile dat pm) (put_node out (NFile [] pm) fs))"
    using assms(1,2) o ne by (simp add: copyOneFile_def Let_def write_open_def node_at_put)
  then show ?thesis using ne pm_def by (auto simp: node_at_put)
qed

text \<open>copying a regular file to another location makes the destination byte-identical to the source and
  reports its size; the mode of a new file is the source's less the umask, an existing destination
  keeps its own, and nothing else changes.\<close>

theorem copy_file_exact:
  assumes "\<not> latch" "validatePath fs (cpSrc req) roots = Inr sp" "validatePath fs (cpDst req) roots = Inr dp"
    and "resolve fs False (clean_comps sp) = Inr i" "node_at fs i = Some (NFile dat m)"
    and "Lstat fs (clean_comps sp) = Inr x" "\<forall>pm. x \<noteq> NDir pm"
    and "resolve fs True (clean_comps dp) = Inr out" "out \<noteq> i" "\<not> is_dir fs out"
    and "present fs (clean_comps dp) \<longrightarrow> cpOverwrite req"
  shows "\<exists>fs' r pm. CopyFile fuel latch req roots fs = Some (Inr r, fs') \<and> crBytes r = length dat \<and>
    (\<forall>k. node_at fs' k = (if k = out then Some (NFile dat pm) else node_at fs k)) \<and>
    pm = (case node_at fs out of Some (NFile _ pm0) \<Rightarrow> pm0 | _ \<Rightarrow> masked fs m)"
proof -
  obtain fs' pm where c: "copyOneFile fs (clean_comps sp) (clean_comps dp) = (Inr (length dat), fs')"
    "\<forall>k. node_at fs' k = (if k = out then Some (NFile dat pm) else node_at fs k)"
    "pm = (case node_at fs out of Some (NFile _ pm0) \<Rightarrow> pm0 | _ \<Rightarrow> masked fs m)"
    using copyOneFile_exact [OF assms(4,5,8-10)] by blast
  have "CopyFile fuel latch req roots fs = Some (Inr \<lparr>crSrc = sp, crDst = dp, crBytes = length dat,
      crEntries = 0, crOverwritten = present fs (clean_comps dp)\<rparr>, fs')"
    using assms(1-3,6,7,11) c(1) by (cases x) (auto simp: CopyFile_def guardReadOnly_def Let_def)
  then show ?thesis using c(2,3) by fastforce
qed

section \<open>Examples\<close>

definition example_delete :: "bool \<Rightarrow> DeleteFileRequest" where
  "example_delete dry = \<lparr>dlPath = ''/d'', dlRecursive = True, dlConfirm = True, dlDryRun = dry\<rparr>"

theorem delete_exact_witness:
  "\<exists>q. underRoots (path_of True q) (resolveRoots small_fs [''/'']) \<and>
     node_at (snd (DeleteFile False (example_delete False) [''/''] small_fs)) [''d'', ''f''] =
       (if prefix q [''d'', ''f''] then None else node_at small_fs [''d'', ''f''])"
proof -
  have c: "snd (DeleteFile False (example_delete False) [''/''] small_fs) \<noteq> small_fs" "IsAbs (workdir small_fs)"
    "list_all IsAbs [''/'']" by code_simp+
  have "DeleteFile False (example_delete False) [''/''] small_fs =
      (fst (DeleteFile False (example_delete False) [''/''] small_fs), snd (DeleteFile False (example_delete False) [''/''] small_fs))"
    by simp
  from delete_exact [OF this c] show ?thesis by blast
qed

theorem delete_dry_run_counts_witness:
  "\<exists>r. DeleteFile False (example_delete True) [] small_fs = (Inr r, small_fs) \<and>
     drEntries r = card {l. strict_prefix [''d''] l \<and> node_at small_fs l \<noteq> None}"
proof -
  define r where "r = \<lparr>drPath = ''/d'', drDeleted = False, drDryRun = True, drEntries = 1, drSample = [''/d/f''], drIsDir = True\<rparr>"
  have d: "DeleteFile False (example_delete True) [] small_fs = (Inr r, small_fs)" unfolding r_def by code_simp
  have "dlDryRun (example_delete True)" "IsAbs (workdir small_fs)" "lresolve small_fs (clean_comps ''/d'') = Inr [''d'']"
    "is_dir small_fs (butlast [''d''])" by code_simp+
  moreover have "drIsDir r" "drPath r = ''/d''" by (simp_all add: r_def)
  ultimately show ?thesis using delete_dry_run_counts [OF d, of "[''d'']"] d by auto
qed

theorem move_relocates_witness:
  "\<exists>r fs'. MoveFile (\<lambda>_. 0) 10 False \<lparr>mvSrc = ''/d'', mvDst = ''/e/x'', mvOverwrite = False\<rparr> [] small_fs = Some (Inr r, fs') \<and>
     node_at fs' [''e'', ''x'', ''f''] = node_at small_fs [''d'', ''f''] \<and> node_at fs' [''d'', ''f''] = None"
proof -
  let ?req = "\<lparr>mvSrc = ''/d'', mvDst = ''/e/x'', mvOverwrite = False\<rparr>"
  have v: "validateLinkPath small_fs (mvSrc ?req) [] = Inr ''/d''" "validatePath small_fs (mvDst ?req) [] = Inr ''/e/x''"
    "lresolve small_fs (clean_comps ''/d'') = Inr [''d'']" "lresolve small_fs (clean_comps ''/e/x'') = Inr [''e'', ''x'']"
    "node_at small_fs [''d''] \<noteq> None" "node_at small_fs [''e'', ''x''] = None" "is_dir small_fs (butlast [''e'', ''x''])"
    "apart [''d''] [''e'', ''x'']" by code_simp+
  have "\<not> False" by simp
  from move_relocates [where dev = "\<lambda>_. 0", OF this v refl, of 10] obtain fs' where
    m: "MoveFile (\<lambda>_. 0) 10 False ?req [] small_fs = Some (Inr \<lparr>mrSrc = ''/d'', mrDst = ''/e/x'', mrOverwritten = False\<rparr>, fs')"
      "\<forall>k. k \<noteq> [] \<longrightarrow> node_at fs' k = (if prefix [''e'', ''x''] k then node_at small_fs ([''d''] @ drop (length [''e'', ''x'']) k)
         else if prefix [''d''] k then None else node_at small_fs k)" by blast
  have "node_at fs' [''e'', ''x'', ''f''] = node_at small_fs [''d'', ''f'']" "node_at fs' [''d'', ''f''] = None"
    using m(2) by simp_all
  with m(1) show ?thesis by blast
qed

theorem copy_file_exact_witness:
  "\<exists>r fs'. CopyFile 10 False \<lparr>cpSrc = ''/d/f'', cpDst = ''/e/g'', cpOverwrite = False\<rparr> [] small_fs = Some (Inr r, fs') \<and>
     crBytes r = 4 \<and> node_at fs' [''d'', ''f''] = node_at small_fs [''d'', ''f'']"
proof -
  let ?req = "\<lparr>cpSrc = ''/d/f'', cpDst = ''/e/g'', cpOverwrite = False\<rparr>"
  have v: "validatePath small_fs (cpSrc ?req) [] = Inr ''/d/f''" "validatePath small_fs (cpDst ?req) [] = Inr ''/e/g''"
    "resolve small_fs False (clean_comps ''/d/f'') = Inr [''d'', ''f'']" "node_at small_fs [''d'', ''f''] = Some (NFile ''data'' 420)"
    "Lstat small_fs (clean_comps ''/d/f'') = Inr (NFile ''data'' 420)" by code_simp+
  have w: "resolve small_fs True (clean_comps ''/e/g'') = Inr [''e'', ''g'']" "\<not> is_dir small_fs [''e'', ''g'']"
    "\<not> present small_fs (clean_comps ''/e/g'')" by code_simp+
  have f: "\<not> False" "\<forall>pm. NFile ''data'' 420 \<noteq> NDir pm" "[''e'', ''g''] \<noteq> [''d'', ''f'']"
    "present small_fs (clean_comps ''/e/g'') \<longrightarrow> cpOverwrite ?req" using w(3) by simp_all
  from copy_file_exact [OF f(1) v f(2) w(1) f(3) w(2) f(4), of 10] show ?thesis by fastforce
qed

end
