(* ===== verification/Line_Diff.thy ===== *)
theory Line_Diff
  imports Go_Prelude "HOL-Library.Sublist"
begin

text \<open>
  The line diff behind write and edit previews (\<open>diff.go\<close>): common leading and trailing lines are
  stripped, the middle is diffed with a longest-common-subsequence table filled in place, and the
  operations are grouped into unified-diff hunks with three lines of context.
\<close>

section \<open>Definitions\<close>

definition diffContext :: nat where [go_defs]: "diffContext = 3"
definition maxDiffCells :: nat where [go_defs]: "maxDiffCells = 1048576"

datatype op_kind = Keep | Del | Add

record diffOp =
  kind :: op_kind
  opText :: gostring
  oldIdx :: nat
  newIdx :: nat

definition splitDiffLines :: "gostring \<Rightarrow> gostring list" where
  "splitDiffLines s =
     (if s = [] then []
      else map (\<lambda>l. TrimSuffix l [cr]) (split_on nl (TrimSuffix s [nl])))"

text \<open>The flat table \<open>lcs[i*w+j]\<close>, filled from the last row and column down.\<close>

definition cell :: "gostring list \<Rightarrow> nat \<Rightarrow> nat \<Rightarrow> nat" where
  "cell b i j = i * (length b + 1) + j"

definition fill_cell :: "gostring list \<Rightarrow> gostring list \<Rightarrow> nat \<Rightarrow> nat \<Rightarrow> nat list \<Rightarrow> nat list" where
  "fill_cell a b i j t =
     t[cell b i j := (if a ! i = b ! j then t ! cell b (i + 1) (j + 1) + 1
                      else max (t ! cell b (i + 1) j) (t ! cell b i (j + 1)))]"

fun fill_row :: "gostring list \<Rightarrow> gostring list \<Rightarrow> nat \<Rightarrow> nat \<Rightarrow> nat list \<Rightarrow> nat list" where
  "fill_row a b i 0 t = t"
| "fill_row a b i (Suc j) t = fill_row a b i j (fill_cell a b i j t)"

fun fill_rows :: "gostring list \<Rightarrow> gostring list \<Rightarrow> nat \<Rightarrow> nat list \<Rightarrow> nat list" where
  "fill_rows a b 0 t = t"
| "fill_rows a b (Suc i) t = fill_rows a b i (fill_row a b i (length b) t)"

definition lcs_table :: "gostring list \<Rightarrow> gostring list \<Rightarrow> nat list" where
  "lcs_table a b = fill_rows a b (length a) (replicate ((length a + 1) * (length b + 1)) 0)"

function diff_walk ::
  "gostring list \<Rightarrow> gostring list \<Rightarrow> nat list \<Rightarrow> nat \<Rightarrow> nat \<Rightarrow> nat \<Rightarrow> nat \<Rightarrow> diffOp list" where
  "diff_walk a b t ao bo i j =
     (if i < length a \<and> j < length b \<and> a ! i = b ! j then
        \<lparr>kind = Keep, opText = a ! i, oldIdx = ao + i, newIdx = bo + j\<rparr> # diff_walk a b t ao bo (Suc i) (Suc j)
      else if i < length a \<and> (j = length b \<or> t ! cell b i (j + 1) \<le> t ! cell b (i + 1) j) then
        \<lparr>kind = Del, opText = a ! i, oldIdx = ao + i, newIdx = bo + j\<rparr> # diff_walk a b t ao bo (Suc i) j
      else if j < length b then
        \<lparr>kind = Add, opText = b ! j, oldIdx = ao + i, newIdx = bo + j\<rparr> # diff_walk a b t ao bo i (Suc j)
      else [])"
  by pat_completeness auto
termination
  by (relation "measure (\<lambda>(a, b, t, ao, bo, i, j). (length a - i) + (length b - j))") auto

declare diff_walk.simps [simp del]

definition replace_block :: "gostring list \<Rightarrow> gostring list \<Rightarrow> nat \<Rightarrow> nat \<Rightarrow> diffOp list" where
  "replace_block a b ao bo =
     map (\<lambda>(i, s). \<lparr>kind = Del, opText = s, oldIdx = ao + i, newIdx = bo\<rparr>) (List.enumerate 0 a) @
     map (\<lambda>(j, s). \<lparr>kind = Add, opText = s, oldIdx = ao + length a, newIdx = bo + j\<rparr>) (List.enumerate 0 b)"

definition diffMiddle :: "gostring list \<Rightarrow> gostring list \<Rightarrow> nat \<Rightarrow> nat \<Rightarrow> diffOp list" where
  "diffMiddle a b ao bo =
     (if maxDiffCells < length a * length b then replace_block a b ao bo
      else diff_walk a b (lcs_table a b) ao bo 0 0)"

fun common_prefix :: "gostring list \<Rightarrow> gostring list \<Rightarrow> nat" where
  "common_prefix (x # xs) (y # ys) = (if x = y then Suc (common_prefix xs ys) else 0)"
| "common_prefix _ _ = 0"

definition common_suffix :: "gostring list \<Rightarrow> gostring list \<Rightarrow> nat \<Rightarrow> nat" where
  "common_suffix a b p = common_prefix (rev (drop p a)) (rev (drop p b))"

definition context_ops :: "gostring list \<Rightarrow> nat \<Rightarrow> nat \<Rightarrow> nat \<Rightarrow> diffOp list" where
  "context_ops a i j n =
     map (\<lambda>k. \<lparr>kind = Keep, opText = a ! (i + k), oldIdx = i + k, newIdx = j + k\<rparr>) [0..<n]"

definition diff_ops :: "gostring list \<Rightarrow> gostring list \<Rightarrow> diffOp list" where
  "diff_ops a b =
     (let p = common_prefix a b; q = common_suffix a b p;
          n = min p diffContext
      in context_ops a (p - n) (p - n) n
         @ diffMiddle (take (length a - q - p) (drop p a)) (take (length b - q - p) (drop p b)) p p
         @ context_ops a (length a - q) (length b - q) (min q diffContext))"

definition added :: "diffOp list \<Rightarrow> nat" where
  "added ops = length (filter (\<lambda>x. kind x = Add) ops)"

definition removed :: "diffOp list \<Rightarrow> nat" where
  "removed ops = length (filter (\<lambda>x. kind x = Del) ops)"

text \<open>Extending a hunk while changes are at most \<open>2 * diffContext\<close> equal lines apart.\<close>

function find_last :: "diffOp list \<Rightarrow> nat \<Rightarrow> nat \<Rightarrow> nat" where
  "find_last ops i lst =
     (if length ops \<le> i then lst
      else if kind (ops ! i) \<noteq> Keep then
        (if 2 * diffContext < i - lst - 1 then lst else find_last ops (Suc i) i)
      else find_last ops (Suc i) lst)"
  by pat_completeness auto
termination
  by (relation "measure (\<lambda>(ops, i, l). length ops - i)") auto

declare find_last.simps [simp del]

definition first_change :: "diffOp list \<Rightarrow> nat \<Rightarrow> nat" where
  "first_change ops start = start + length (takeWhile (\<lambda>x. kind x = Keep) (drop start ops))"

text \<open>The ranges \<open>lo..hi\<close> of operations that become hunks.\<close>

lemma find_last_ge: "lst < i \<Longrightarrow> lst \<le> find_last ops i lst"
proof (induction ops i lst rule: find_last.induct)
  case (1 ops i lst)
  then show ?case by (subst find_last.simps) auto
qed

function hunks :: "diffOp list \<Rightarrow> nat \<Rightarrow> (nat \<times> nat) list" where
  "hunks ops start =
     (let fst_ch = first_change ops start in
      if length ops \<le> start \<or> length ops \<le> fst_ch then []
      else
        (let lst = find_last ops (Suc fst_ch) fst_ch;
             lo = max start (fst_ch - diffContext);
             hi = min (length ops - 1) (lst + diffContext)
         in (lo, hi) # hunks ops (Suc hi)))"
  by pat_completeness auto
termination
proof (relation "measure (\<lambda>(ops, s). length ops - s)", goal_cases)
  case (2 ops start x xa xb xc)
  have "x \<le> xa" using find_last_ge [of x "Suc x" ops] 2 by simp
  moreover have "start \<le> x" using 2 by (simp add: first_change_def)
  ultimately show ?case using 2 by auto
qed simp

declare hunks.simps [simp del]

fun kind_char :: "op_kind \<Rightarrow> char" where
  "kind_char Keep = CHR '' ''"
| "kind_char Del = CHR ''-''"
| "kind_char Add = CHR ''+''"

definition hunk_pieces :: "diffOp list \<Rightarrow> nat \<times> nat \<Rightarrow> gostring list" where
  "hunk_pieces ops h =
     (let (lo, hi) = h;
          body = take (Suc hi - lo) (drop lo ops);
          oldCount = length (filter (\<lambda>x. kind x \<noteq> Add) body);
          newCount = length (filter (\<lambda>x. kind x \<noteq> Del) body);
          oldStart = (if oldCount = 0 then oldIdx (ops ! lo) else oldIdx (ops ! lo) + 1);
          newStart = (if newCount = 0 then newIdx (ops ! lo) else newIdx (ops ! lo) + 1)
      in (''@@ -'' @ nat_digits oldStart @ '','' @ nat_digits oldCount @ '' +'' @ nat_digits newStart @ '',''
            @ nat_digits newCount @ '' @@'' @ [nl])
         # map (\<lambda>x. kind_char (kind x) # opText x @ [nl]) body)"

text \<open>The capped writer stops at the first piece that does not fit.\<close>

fun emit :: "nat \<Rightarrow> gostring \<Rightarrow> gostring list \<Rightarrow> gostring \<times> bool" where
  "emit maxBytes sb [] = (sb, False)"
| "emit maxBytes sb (s # ss) =
     (if maxBytes < length sb + length s then (sb, True) else emit maxBytes (sb @ s) ss)"

definition unifiedDiff :: "gostring \<Rightarrow> gostring \<Rightarrow> nat \<Rightarrow> gostring \<times> nat \<times> nat \<times> bool" where
  "unifiedDiff oldText newText maxBytes =
     (let ops = diff_ops (splitDiffLines oldText) (splitDiffLines newText);
          ad = added ops; rm = removed ops in
      if ad = 0 \<and> rm = 0 then
        (if oldText \<noteq> newText then (''(only line endings or the final newline differ)'' @ [nl], 0, 0, False)
         else ([], 0, 0, False))
      else
        (let (text, truncated) = emit maxBytes [] (concat (map (hunk_pieces ops) (hunks ops 0)))
         in (text, ad, rm, truncated)))"

section \<open>The table\<close>

text \<open>The reference definition of the length of a longest common subsequence.\<close>

fun lcs :: "gostring list \<Rightarrow> gostring list \<Rightarrow> nat" where
  "lcs (x # xs) (y # ys) = (if x = y then Suc (lcs xs ys) else max (lcs xs (y # ys)) (lcs (x # xs) ys))"
| "lcs _ _ = 0"

text \<open>The table is right from row \<open>i\<close>, column \<open>j\<close> on.\<close>

definition table_ok :: "gostring list \<Rightarrow> gostring list \<Rightarrow> nat \<Rightarrow> nat \<Rightarrow> nat list \<Rightarrow> bool" where
  "table_ok a b i j t \<longleftrightarrow>
     length t = (length a + 1) * (length b + 1) \<and>
     (\<forall>i' \<le> length a. \<forall>j' \<le> length b. i < i' \<or> (i' = i \<and> j \<le> j') \<or> j' = length b \<longrightarrow>
        t ! cell b i' j' = lcs (drop i' a) (drop j' b))"

lemma cell_inj:
  assumes "j \<le> length b" "j' \<le> length b" "cell b i j = cell b i' j'" shows "i = i' \<and> j = j'"
proof -
  define w where "w = length b + 1"
  have jw: "j < w" "j' < w" "w \<noteq> 0" using assms(1,2) by (auto simp: w_def)
  have dv: "(x * w + y) div w = x" if "y < w" for x y using that by simp
  have "(i * w + j) div w = i" "(i' * w + j') div w = i'" using dv [OF jw(1)] dv [OF jw(2)] by blast+
  moreover have e: "i * w + j = i' * w + j'" using assms(3) unfolding cell_def w_def .
  ultimately have "i = i'" by metis
  with e show ?thesis by simp
qed

lemma cell_bound:
  assumes "i \<le> m" "j \<le> length b" shows "cell b i j < (m + 1) * (length b + 1)"
proof -
  have "i * (length b + 1) \<le> m * (length b + 1)" using assms(1) by (rule mult_le_mono1)
  moreover have "(m + 1) * (length b + 1) = m * (length b + 1) + (length b + 1)" by simp
  ultimately show ?thesis using assms(2) unfolding cell_def by linarith
qed

lemma table_ok_at:
  "table_ok a b i j t \<Longrightarrow> i' \<le> length a \<Longrightarrow> j' \<le> length b \<Longrightarrow> i < i' \<or> (i' = i \<and> j \<le> j') \<or> j' = length b \<Longrightarrow>
   t ! cell b i' j' = lcs (drop i' a) (drop j' b)"
  unfolding table_ok_def by blast

lemma lcs_Nil2 [simp]: "lcs xs [] = 0"
  by (cases xs) auto

lemma fill_cell_ok:
  assumes "table_ok a b i (Suc j) t" "i < length a" "j < length b"
  shows "table_ok a b i j (fill_cell a b i j t)"
proof -
  have len: "length t = (length a + 1) * (length b + 1)" using assms(1) by (simp add: table_ok_def)
  have val: "t ! cell b (i + 1) (j + 1) = lcs (drop (Suc i) a) (drop (Suc j) b)"
    "t ! cell b (i + 1) j = lcs (drop (Suc i) a) (drop j b)"
    "t ! cell b i (j + 1) = lcs (drop i a) (drop (Suc j) b)"
    using table_ok_at [OF assms(1), of "Suc i" "Suc j"] table_ok_at [OF assms(1), of "Suc i" j]
      table_ok_at [OF assms(1), of i "Suc j"] assms(2,3) by simp_all
  have d: "drop i a = a ! i # drop (Suc i) a" "drop j b = b ! j # drop (Suc j) b"
    using assms(2,3) by (simp_all add: Cons_nth_drop_Suc)
  have new: "(if a ! i = b ! j then t ! cell b (i + 1) (j + 1) + 1
      else max (t ! cell b (i + 1) j) (t ! cell b i (j + 1))) = lcs (drop i a) (drop j b)"
    using val unfolding d by simp
  have bnd: "cell b i j < length t" using cell_bound [of i "length a" j b] assms(2,3) len by simp
  show ?thesis
    unfolding table_ok_def
  proof (intro conjI allI impI)
    show "length (fill_cell a b i j t) = (length a + 1) * (length b + 1)"
      unfolding fill_cell_def length_list_update by (rule len)
    fix i' j' assume ij: "i' \<le> length a" "j' \<le> length b" "i < i' \<or> (i' = i \<and> j \<le> j') \<or> j' = length b"
    show "fill_cell a b i j t ! cell b i' j' = lcs (drop i' a) (drop j' b)"
    proof (cases "i' = i \<and> j' = j")
      case True
      then show ?thesis using bnd new by (simp add: fill_cell_def)
    next
      case False
      then have "cell b i j \<noteq> cell b i' j'" using cell_inj [of j b j' i i'] ij(2) assms(3) by auto
      then have "fill_cell a b i j t ! cell b i' j' = t ! cell b i' j'" by (simp add: fill_cell_def)
      moreover have "i < i' \<or> (i' = i \<and> Suc j \<le> j') \<or> j' = length b" using False ij(3) by auto
      ultimately show ?thesis using table_ok_at [OF assms(1) ij(1,2)] by simp
    qed
  qed
qed

lemma fill_row_ok:
  "table_ok a b i j t \<Longrightarrow> i < length a \<Longrightarrow> j \<le> length b \<Longrightarrow> table_ok a b i 0 (fill_row a b i j t)"
  by (induction j arbitrary: t) (auto simp: fill_cell_ok)

lemma fill_rows_ok:
  "table_ok a b i 0 t \<Longrightarrow> i \<le> length a \<Longrightarrow> table_ok a b 0 0 (fill_rows a b i t)"
proof (induction i arbitrary: t)
  case (Suc i)
  have "table_ok a b i (length b) t"
    using Suc.prems(1) unfolding table_ok_def by (metis Suc_lessI le_antisym zero_le)
  then have "table_ok a b i 0 (fill_row a b i (length b) t)" using Suc.prems(2) by (intro fill_row_ok) auto
  with Suc show ?case by simp
qed simp

text \<open>The table the source fills in place holds the reference values.\<close>

lemma lcs_table_correct:
  assumes "i \<le> length a" "j \<le> length b"
  shows "lcs_table a b ! cell b i j = lcs (drop i a) (drop j b)"
proof -
  let ?n = "(length a + 1) * (length b + 1)"
  have z: "replicate ?n (0::nat) ! cell b i' j' = 0" if "i' \<le> length a" "j' \<le> length b" for i' j'
    using cell_bound [OF that] by (rule nth_replicate)
  have "table_ok a b (length a) 0 (replicate ?n 0)"
    unfolding table_ok_def
  proof (intro conjI allI impI)
    fix i' j' assume "i' \<le> length a" "j' \<le> length b" "length a < i' \<or> i' = length a \<and> 0 \<le> j' \<or> j' = length b"
    then have "lcs (drop i' a) (drop j' b) = 0" "i' \<le> length a" "j' \<le> length b" by auto
    moreover from this have "replicate ?n (0::nat) ! cell b i' j' = 0" by (intro z)
    ultimately show "replicate ?n 0 ! cell b i' j' = lcs (drop i' a) (drop j' b)" by metis
  qed (rule length_replicate)
  then have "table_ok a b 0 0 (lcs_table a b)" unfolding lcs_table_def by (rule fill_rows_ok) simp
  then show ?thesis using assms by (intro table_ok_at) auto
qed

section \<open>Edit scripts\<close>

text \<open>\<open>script a b i j ops\<close>: the operations start at old line \<open>i\<close> and new line \<open>j\<close>, carry the right
  positions and texts, and stay within both files.\<close>

fun script :: "gostring list \<Rightarrow> gostring list \<Rightarrow> nat \<Rightarrow> nat \<Rightarrow> diffOp list \<Rightarrow> bool" where
  "script a b i j [] = (i \<le> length a \<and> j \<le> length b)"
| "script a b i j (x # ops) =
     (oldIdx x = i \<and> newIdx x = j \<and>
      (case kind x of
         Keep \<Rightarrow> i < length a \<and> j < length b \<and> opText x = a ! i \<and> a ! i = b ! j \<and> script a b (Suc i) (Suc j) ops
       | Del \<Rightarrow> i < length a \<and> opText x = a ! i \<and> script a b (Suc i) j ops
       | Add \<Rightarrow> j < length b \<and> opText x = b ! j \<and> script a b i (Suc j) ops))"

definition old_lines :: "diffOp list \<Rightarrow> gostring list" where
  "old_lines ops = map opText (filter (\<lambda>x. kind x \<noteq> Add) ops)"

definition new_lines :: "diffOp list \<Rightarrow> gostring list" where
  "new_lines ops = map opText (filter (\<lambda>x. kind x \<noteq> Del) ops)"

lemma lines_Cons:
  "old_lines (x # ops) = (if kind x = Add then old_lines ops else opText x # old_lines ops)"
  "new_lines (x # ops) = (if kind x = Del then new_lines ops else opText x # new_lines ops)"
  "old_lines [] = []" "new_lines [] = []"
  by (simp_all add: old_lines_def new_lines_def)

text \<open>A script quotes a segment of each file.\<close>

lemma script_lines:
  "script a b i j ops \<Longrightarrow>
   drop i a = old_lines ops @ drop (i + length (old_lines ops)) a \<and> i + length (old_lines ops) \<le> length a \<and>
   drop j b = new_lines ops @ drop (j + length (new_lines ops)) b \<and> j + length (new_lines ops) \<le> length b"
proof (induction ops arbitrary: i j)
  case (Cons x ops)
  have d: "i < length a \<Longrightarrow> drop i a = a ! i # drop (Suc i) a" "j < length b \<Longrightarrow> drop j b = b ! j # drop (Suc j) b"
    by (simp_all add: Cons_nth_drop_Suc)
  show ?case
  proof (cases "kind x")
    case Keep
    with Cons.prems have "script a b (Suc i) (Suc j) ops" "i < length a" "j < length b" "opText x = a ! i" "a ! i = b ! j"
      by auto
    with Cons.IH [of "Suc i" "Suc j"] d Keep show ?thesis by (simp add: lines_Cons)
  next
    case Del
    with Cons.prems have "script a b (Suc i) j ops" "i < length a" "opText x = a ! i" by auto
    with Cons.IH [of "Suc i" j] d(1) Del show ?thesis by (simp add: lines_Cons)
  next
    case Add
    with Cons.prems have "script a b i (Suc j) ops" "j < length b" "opText x = b ! j" by auto
    with Cons.IH [of i "Suc j"] d(2) Add show ?thesis by (simp add: lines_Cons)
  qed
qed (simp add: lines_Cons)

lemma script_append:
  "script a b i j (xs @ ys) \<longleftrightarrow>
     script a b i j xs \<and> script a b (i + length (old_lines xs)) (j + length (new_lines xs)) ys"
proof (induction xs arbitrary: i j)
  case Nil
  show ?case using script_lines [of a b i j ys] by (auto simp: lines_Cons)
next
  case (Cons x xs)
  then show ?case by (cases "kind x") (auto simp: lines_Cons)
qed

section \<open>The operations of a diff\<close>

lemma walk_script:
  fixes t :: "nat list"
  assumes "a = pa @ m @ sa" "b = pb @ n @ sb" "i \<le> length m" "j \<le> length n"
  defines "W \<equiv> \<lambda>i j. diff_walk m n t (length pa) (length pb) i j"
  shows "script a b (length pa + i) (length pb + j) (W i j) \<and> old_lines (W i j) = drop i m \<and> new_lines (W i j) = drop j n"
  using assms(3,4)
proof (induction "(length m - i) + (length n - j)" arbitrary: i j rule: less_induct)
  case less
  have nth: "i < length m \<Longrightarrow> a ! (length pa + i) = m ! i" "j < length n \<Longrightarrow> b ! (length pb + j) = n ! j"
    and len: "i < length m \<Longrightarrow> length pa + i < length a" "j < length n \<Longrightarrow> length pb + j < length b"
    and d: "i < length m \<Longrightarrow> drop i m = m ! i # drop (Suc i) m" "j < length n \<Longrightarrow> drop j n = n ! j # drop (Suc j) n"
    and le: "length pa + i \<le> length a" "length pb + j \<le> length b"
    using assms(1,2) less.prems by (simp_all add: nth_append Cons_nth_drop_Suc)
  consider (keep) "i < length m" "j < length n" "m ! i = n ! j"
      "W i j = \<lparr>kind = Keep, opText = m ! i, oldIdx = length pa + i, newIdx = length pb + j\<rparr> # W (Suc i) (Suc j)"
    | (del) "i < length m"
      "W i j = \<lparr>kind = Del, opText = m ! i, oldIdx = length pa + i, newIdx = length pb + j\<rparr> # W (Suc i) j"
    | (ins) "j < length n"
      "W i j = \<lparr>kind = Add, opText = n ! j, oldIdx = length pa + i, newIdx = length pb + j\<rparr> # W i (Suc j)"
    | (stop) "i = length m" "j = length n" "W i j = []"
    using diff_walk.simps [of m n t "length pa" "length pb" i j] less.prems unfolding W_def
    by (smt (verit) le_neq_implies_less)
  then show ?case
  proof cases
    case keep
    with less.hyps [of "Suc i" "Suc j"] nth len d show ?thesis by (simp add: lines_Cons)
  next
    case del
    with less.hyps [of "Suc i" j] less.prems nth len d show ?thesis by (simp add: lines_Cons)
  next
    case ins
    with less.hyps [of i "Suc j"] less.prems nth len d show ?thesis by (simp add: lines_Cons)
  next
    case stop
    with le show ?thesis by (simp add: lines_Cons)
  qed
qed

text \<open>The walk keeps as many lines as a longest common subsequence has.\<close>

lemma walk_keeps:
  assumes "\<And>i j. i \<le> length m \<Longrightarrow> j \<le> length n \<Longrightarrow> t ! cell n i j = lcs (drop i m) (drop j n)"
    and "i \<le> length m" "j \<le> length n"
  shows "length (filter (\<lambda>x. kind x = Keep) (diff_walk m n t ao bo i j)) = lcs (drop i m) (drop j n)"
  using assms(2,3)
proof (induction "(length m - i) + (length n - j)" arbitrary: i j rule: less_induct)
  case less
  have d: "i < length m \<Longrightarrow> drop i m = m ! i # drop (Suc i) m" "j < length n \<Longrightarrow> drop j n = n ! j # drop (Suc j) n"
    by (simp_all add: Cons_nth_drop_Suc)
  consider (both) "i < length m" "j < length n" | (m) "i < length m" "j = length n" | (n) "i = length m"
    using less.prems by fastforce
  then show ?case
  proof cases
    case both
    have t: "t ! cell n i (Suc j) = lcs (drop i m) (drop (Suc j) n)"
      "t ! cell n (Suc i) j = lcs (drop (Suc i) m) (drop j n)" using both by (auto intro!: assms(1))
    have ih: "length (filter (\<lambda>x. kind x = Keep) (diff_walk m n t ao bo i' j')) = lcs (drop i' m) (drop j' n)"
      if "(i', j') \<in> {(Suc i, Suc j), (Suc i, j), (i, Suc j)}" for i' j'
      using that both less.prems by (intro less.hyps) auto
    have "lcs (drop i m) (drop j n) = (if m ! i = n ! j then Suc (lcs (drop (Suc i) m) (drop (Suc j) n))
        else max (lcs (drop (Suc i) m) (drop j n)) (lcs (drop i m) (drop (Suc j) n)))"
      using both d by simp
    then show ?thesis using both t ih by (subst diff_walk.simps) (auto simp: max_def)
  next
    case m
    then show ?thesis using less.hyps [of "Suc i" j] by (subst diff_walk.simps) auto
  next
    case n
    then show ?thesis using less.hyps [of i "Suc j"] less.prems by (subst diff_walk.simps) auto
  qed
qed

lemma enumerate_del_script:
  assumes "a = pa @ xs @ sa" "j \<le> length b" "n = length pa" "ao + k = n"
  shows "script a b n j (map (\<lambda>(i, s). \<lparr>kind = Del, opText = s, oldIdx = ao + i, newIdx = j\<rparr>) (List.enumerate k xs))"
  using assms
proof (induction xs arbitrary: pa n k)
  case (Cons x xs)
  then show ?case using Cons.IH [of "pa @ [x]" "Suc n" "Suc k"] by (simp add: nth_append)
qed auto

lemma enumerate_add_script:
  assumes "b = pb @ xs @ sb" "i \<le> length a" "n = length pb" "bo + k = n"
  shows "script a b i n (map (\<lambda>(j, s). \<lparr>kind = Add, opText = s, oldIdx = i, newIdx = bo + j\<rparr>) (List.enumerate k xs))"
  using assms
proof (induction xs arbitrary: pb n k)
  case (Cons x xs)
  then show ?case using Cons.IH [of "pb @ [x]" "Suc n" "Suc k"] by (simp add: nth_append)
qed auto

lemma enumerate_lines:
  "old_lines (map (\<lambda>(i, s). \<lparr>kind = Del, opText = s, oldIdx = f i, newIdx = g i\<rparr>) (List.enumerate k xs)) = xs"
  "new_lines (map (\<lambda>(i, s). \<lparr>kind = Del, opText = s, oldIdx = f i, newIdx = g i\<rparr>) (List.enumerate k xs)) = []"
  "old_lines (map (\<lambda>(i, s). \<lparr>kind = Add, opText = s, oldIdx = f i, newIdx = g i\<rparr>) (List.enumerate k xs)) = []"
  "new_lines (map (\<lambda>(i, s). \<lparr>kind = Add, opText = s, oldIdx = f i, newIdx = g i\<rparr>) (List.enumerate k xs)) = xs"
  by (induction xs arbitrary: k) (auto simp: lines_Cons)

lemma lines_append [simp]:
  "old_lines (xs @ ys) = old_lines xs @ old_lines ys" "new_lines (xs @ ys) = new_lines xs @ new_lines ys"
  by (simp_all add: old_lines_def new_lines_def)

lemma middle_script:
  assumes "a = pa @ m @ sa" "b = pb @ n @ sb"
  shows "script a b (length pa) (length pb) (diffMiddle m n (length pa) (length pb)) \<and>
    old_lines (diffMiddle m n (length pa) (length pb)) = m \<and> new_lines (diffMiddle m n (length pa) (length pb)) = n"
proof (cases "maxDiffCells < length m * length n")
  case True
  have "script a b (length pa) (length pb)
      (map (\<lambda>(i, s). \<lparr>kind = Del, opText = s, oldIdx = length pa + i, newIdx = length pb\<rparr>) (List.enumerate 0 m))"
    by (rule enumerate_del_script [OF assms(1)]) (simp_all add: assms)
  moreover have "script a b (length pa + length m) (length pb)
      (map (\<lambda>(j, s). \<lparr>kind = Add, opText = s, oldIdx = length pa + length m, newIdx = length pb + j\<rparr>) (List.enumerate 0 n))"
    by (rule enumerate_add_script [OF assms(2)]) (simp_all add: assms)
  ultimately show ?thesis
    using True by (simp add: diffMiddle_def replace_block_def script_append enumerate_lines)
next
  case False
  then show ?thesis using walk_script [OF assms, of 0 0 "lcs_table m n"] by (simp add: diffMiddle_def)
qed

lemma common_prefix_take:
  "take (common_prefix a b) a = take (common_prefix a b) b \<and> common_prefix a b \<le> length a \<and> common_prefix a b \<le> length b"
  by (induction a b rule: common_prefix.induct) auto

text \<open>Stripping the common ends leaves two middles between shared parts.\<close>

lemma strip_ends:
  fixes a b :: "gostring list"
  defines "p \<equiv> common_prefix a b"
  defines "q \<equiv> common_suffix a b p"
  defines "m \<equiv> take (length a - q - p) (drop p a)" and "n \<equiv> take (length b - q - p) (drop p b)"
  obtains P S where "a = P @ m @ S" "b = P @ n @ S" "length P = p" "length S = q"
proof -
  have p: "take p a = take p b" "p \<le> length a" "p \<le> length b" using common_prefix_take unfolding p_def by auto
  have "q \<le> length (rev (drop p a))" "q \<le> length (rev (drop p b))" "take q (rev (drop p a)) = take q (rev (drop p b))"
    using common_prefix_take [of "rev (drop p a)" "rev (drop p b)"] unfolding q_def common_suffix_def by blast+
  then have q: "q + p \<le> length a" "q + p \<le> length b" "drop (length a - q - p) (drop p a) = drop (length b - q - p) (drop p b)"
    using p(2,3) by (simp_all add: take_rev diff_diff_add add.commute)
  have "a = take p a @ m @ drop (length a - q - p) (drop p a)" "b = take p b @ n @ drop (length b - q - p) (drop p b)"
    unfolding m_def n_def by (simp_all only: append_take_drop_id)
  note parts = this
  show ?thesis
  proof (rule that)
    show "b = take p a @ n @ drop (length a - q - p) (drop p a)" unfolding p(1) q(3) by (rule parts(2))
    show "length (take p a) = p" "length (drop (length a - q - p) (drop p a)) = q" using p(2) q(1) by simp_all
  qed (rule parts(1))
qed

lemma context_script:
  assumes "a = pa @ xs @ sa" "b = pb @ xs @ sb"
  shows "script a b (length pa) (length pb) (context_ops a (length pa) (length pb) (length xs)) \<and>
    old_lines (context_ops a (length pa) (length pb) (length xs)) = xs \<and>
    new_lines (context_ops a (length pa) (length pb) (length xs)) = xs"
  using assms
proof (induction xs arbitrary: sa sb rule: rev_induct)
  case (snoc x xs)
  have split: "context_ops a (length pa) (length pb) (length (xs @ [x])) =
      context_ops a (length pa) (length pb) (length xs) @
      [\<lparr>kind = Keep, opText = x, oldIdx = length pa + length xs, newIdx = length pb + length xs\<rparr>]"
    using snoc.prems(1) by (simp add: context_ops_def nth_append)
  from snoc.IH [of "x # sa" "x # sb"] snoc.prems show ?case
    unfolding split by (simp add: script_append lines_Cons nth_append)
qed (simp_all add: context_ops_def lines_Cons)

text \<open>Where the operations start in both files, and what they quote.\<close>

definition diff_start :: "gostring list \<Rightarrow> gostring list \<Rightarrow> nat" where
  "diff_start a b = common_prefix a b - min (common_prefix a b) diffContext"

lemma diff_ops_split:
  obtains U V m n W S where
    "a = U @ V @ m @ W @ S" "b = U @ V @ n @ W @ S" "length U = diff_start a b"
    "diff_ops a b = context_ops a (length U) (length U) (length V)
       @ diffMiddle m n (length U + length V) (length U + length V)
       @ context_ops a (length (U @ V @ m)) (length (U @ V @ n)) (length W)"
    "m = take (length a - common_suffix a b (common_prefix a b) - common_prefix a b) (drop (common_prefix a b) a)"
    "n = take (length b - common_suffix a b (common_prefix a b) - common_prefix a b) (drop (common_prefix a b) b)"
proof -
  define p where "p = common_prefix a b"
  define q where "q = common_suffix a b p"
  define m n where "m = take (length a - q - p) (drop p a)" and "n = take (length b - q - p) (drop p b)"
  obtain P S where PS: "a = P @ m @ S" "b = P @ n @ S" "length P = p" "length S = q"
    using strip_ends [of a b] unfolding m_def n_def q_def p_def by metis
  define k l where "k = min p diffContext" and "l = min q diffContext"
  have "diff_ops a b = context_ops a (p - k) (p - k) k @ diffMiddle m n p p @ context_ops a (length a - q) (length b - q) l"
    by (simp add: diff_ops_def Let_def p_def q_def m_def n_def k_def l_def)
  moreover have "length a = p + length m + q" "length b = p + length n + q"
    using PS(3,4) arg_cong [OF PS(1), of length] arg_cong [OF PS(2), of length] by simp_all
  moreover have "k \<le> p" "l \<le> q" "diff_start a b = p - k" by (simp_all add: k_def l_def diff_start_def p_def)
  ultimately have ops: "diff_ops a b = context_ops a (length (take (p - k) P)) (length (take (p - k) P)) (length (drop (p - k) P))
       @ diffMiddle m n (length (take (p - k) P) + length (drop (p - k) P)) (length (take (p - k) P) + length (drop (p - k) P))
       @ context_ops a (length (take (p - k) P @ drop (p - k) P @ m)) (length (take (p - k) P @ drop (p - k) P @ n)) (length (take l S))"
    "length (take (p - k) P) = diff_start a b"
    using PS(3,4) by simp_all
  show ?thesis
  proof (rule that)
    show "a = take (p - k) P @ drop (p - k) P @ m @ take l S @ drop l S"
      "b = take (p - k) P @ drop (p - k) P @ n @ take l S @ drop l S" using PS(1,2) by simp_all
  qed (use ops m_def n_def p_def q_def in \<open>simp_all only:\<close>)
qed

lemma diff_ops_quotes:
  obtains U V m n W S where
    "a = U @ V @ m @ W @ S" "b = U @ V @ n @ W @ S" "length U = diff_start a b"
    "old_lines (diff_ops a b) = V @ m @ W" "new_lines (diff_ops a b) = V @ n @ W"
    "script a b (diff_start a b) (diff_start a b) (diff_ops a b)"
proof -
  obtain U V m n W S where split:
    "a = U @ V @ m @ W @ S" "b = U @ V @ n @ W @ S" "length U = diff_start a b"
    "diff_ops a b = context_ops a (length U) (length U) (length V)
       @ diffMiddle m n (length U + length V) (length U + length V)
       @ context_ops a (length (U @ V @ m)) (length (U @ V @ n)) (length W)"
    by (rule diff_ops_split)
  note parts = context_script [of a U V "m @ W @ S" b U "n @ W @ S"]
    middle_script [of a "U @ V" m "W @ S" b "U @ V" n "W @ S"]
    context_script [of a "U @ V @ m" W S b "U @ V @ n" S]
  have "script a b (length U) (length U) (diff_ops a b) \<and>
      old_lines (diff_ops a b) = V @ m @ W \<and> new_lines (diff_ops a b) = V @ n @ W"
    using parts split(1,2) unfolding split(4) by (simp add: script_append add.assoc)
  with split that show ?thesis by simp
qed

text \<open>C34: the operations a diff computes are a correct edit script: from the line where they start,
  the kept and deleted lines are the old file's, the kept and added lines the new file's, and
  replacing the one by the other turns the old file into the new one.\<close>

theorem diff_replays:
  "let ops = diff_ops a b; k = diff_start a b; rest = drop (k + length (old_lines ops)) a in
   take k a @ old_lines ops @ rest = a \<and> take k a @ new_lines ops @ rest = b \<and> script a b k k ops"
proof -
  obtain U V m n W S where split:
    "a = U @ V @ m @ W @ S" "b = U @ V @ n @ W @ S" "length U = diff_start a b"
    "old_lines (diff_ops a b) = V @ m @ W" "new_lines (diff_ops a b) = V @ n @ W"
    "script a b (diff_start a b) (diff_start a b) (diff_ops a b)"
    by (rule diff_ops_quotes)
  define k ops where "k = diff_start a b" and "ops = diff_ops a b"
  note q = split(4,5) [folded ops_def]
  have "take k a = U" "drop (k + length (old_lines ops)) a = S"
    unfolding q split(3) [folded k_def, symmetric] by (simp_all add: split(1))
  then have "take k a @ old_lines ops @ drop (k + length (old_lines ops)) a = a"
    "take k a @ new_lines ops @ drop (k + length (old_lines ops)) a = b"
    using split(1,2) q by simp_all
  with split(6) show ?thesis unfolding Let_def k_def ops_def by blast
qed

section \<open>The diff is minimal\<close>

lemma lcs_upper: "subseq xs a \<Longrightarrow> subseq xs b \<Longrightarrow> length xs \<le> lcs a b"
proof (induction a b arbitrary: xs rule: lcs.induct)
  case (1 x a y b)
  show ?case
  proof (cases "x = y")
    case True
    show ?thesis
    proof (cases xs)
      case (Cons z zs)
      then have "subseq zs a" "subseq zs b"
        using 1(4,5) by (metis subseq_Cons2' subseq_Cons2_neq subseq_Cons')+
      then show ?thesis using 1(1) True Cons by simp
    qed simp
  next
    case False
    have "subseq xs a \<or> subseq xs b"
    proof (cases xs)
      case (Cons z zs)
      then show ?thesis using False 1(4,5) subseq_Cons2_neq [of z zs x a] subseq_Cons2_neq [of z zs y b] by blast
    qed simp
    then consider "subseq xs a" | "subseq xs b" by blast
    then show ?thesis using 1(2) [OF False] 1(3) [OF False] 1(4,5) False by (cases) (auto simp: le_max_iff_disj)
  qed
qed auto

lemma lcs_prefix: "lcs (ps @ a) (ps @ b) = length ps + lcs a b"
  by (induction ps) auto

lemma subseq_butlast: "subseq xs a \<Longrightarrow> subseq (butlast xs) a"
  by (cases xs rule: rev_cases) (auto elim: subseq_order.trans [rotated])

lemma subseq_snoc:
  assumes "subseq xs (a @ [x])" shows "subseq (butlast xs) a"
proof -
  obtain us vs where uv: "xs = us @ vs" "subseq us a" "subseq vs [x]" using assms by (rule subseq_appendE)
  show ?thesis
  proof (cases vs)
    case Nil
    then show ?thesis using uv subseq_butlast by simp
  next
    case (Cons v ws)
    have "length vs \<le> length [x]" using uv(3) not_subseq_length not_le by blast
    then show ?thesis using uv Cons by simp
  qed
qed

text \<open>A common subsequence of two files that share their ends is at most as long as the ends and a
  longest common subsequence of the middles.\<close>

lemma common_subseq_suffix:
  "subseq xs (a @ s) \<Longrightarrow> subseq xs (b @ s) \<Longrightarrow> length xs \<le> lcs a b + length s"
proof (induction s arbitrary: xs rule: rev_induct)
  case Nil
  then show ?case using lcs_upper by simp
next
  case (snoc x s)
  have "subseq (butlast xs) (a @ s)" "subseq (butlast xs) (b @ s)"
    using snoc.prems subseq_snoc [of xs "a @ s" x] subseq_snoc [of xs "b @ s" x] by simp_all
  then have "length (butlast xs) \<le> lcs a b + length s" by (rule snoc.IH)
  then show ?case by simp
qed

lemma common_subseq_ends:
  "subseq xs (p @ a @ s) \<Longrightarrow> subseq xs (p @ b @ s) \<Longrightarrow> length xs \<le> length p + lcs a b + length s"
  using common_subseq_suffix [of xs "p @ a" s "p @ b"] by (simp add: lcs_prefix)

lemma count_kinds:
  "length (old_lines ops) = length (filter (\<lambda>x. kind x = Keep) ops) + removed ops"
  "length (new_lines ops) = length (filter (\<lambda>x. kind x = Keep) ops) + added ops"
proof (induction ops)
  case (Cons x ops)
  {
    case 1 show ?case using Cons by (cases "kind x") (auto simp: lines_Cons removed_def)
  next
    case 2 show ?case using Cons by (cases "kind x") (auto simp: lines_Cons added_def)
  }
qed (simp_all add: lines_Cons removed_def added_def)

lemma context_counts: "removed (context_ops a i j n) = 0" "added (context_ops a i j n) = 0"
  by (simp_all add: removed_def added_def context_ops_def filter_empty_conv)

lemma middle_counts:
  assumes "length m * length n \<le> maxDiffCells"
  shows "removed (diffMiddle m n ao bo) + lcs m n = length m" "added (diffMiddle m n ao bo) + lcs m n = length n"
proof -
  let ?pa = "replicate ao []" and ?pb = "replicate bo []"
  let ?ops = "diffMiddle m n ao bo"
  have "old_lines ?ops = m" "new_lines ?ops = n"
    using middle_script [of "?pa @ m @ []" ?pa m "[]" "?pb @ n @ []" ?pb n "[]"] by simp_all
  moreover have "length (filter (\<lambda>x. kind x = Keep) ?ops) = lcs m n"
    using walk_keeps [of m n "lcs_table m n" 0 0 ao bo] lcs_table_correct assms by (simp add: diffMiddle_def)
  ultimately show "removed ?ops + lcs m n = length m" "added ?ops + lcs m n = length n"
    using count_kinds [of ?ops] by simp_all
qed

text \<open>C35: no smaller edit exists: when the changed middle fits the table, the lines the diff reports as
  removed and added are at most those that any common subsequence of the two files leaves over, the
  lines of the stripped ends included.\<close>

theorem diff_minimal:
  assumes "p = common_prefix a b" "q = common_suffix a b p"
    and "(length a - q - p) * (length b - q - p) \<le> maxDiffCells"
    and "subseq xs a" "subseq xs b"
  shows "removed (diff_ops a b) + length xs \<le> length a \<and> added (diff_ops a b) + length xs \<le> length b"
proof -
  obtain U V m n W S where split:
    "a = U @ V @ m @ W @ S" "b = U @ V @ n @ W @ S"
    "diff_ops a b = context_ops a (length U) (length U) (length V)
       @ diffMiddle m n (length U + length V) (length U + length V)
       @ context_ops a (length (U @ V @ m)) (length (U @ V @ n)) (length W)"
    "m = take (length a - q - p) (drop p a)" "n = take (length b - q - p) (drop p b)"
    unfolding assms(1,2) by (rule diff_ops_split)
  have "length m \<le> length a - q - p" "length n \<le> length b - q - p" by (simp_all add: split(4,5))
  then have "length m * length n \<le> maxDiffCells" using assms(3) by (meson le_trans mult_le_mono)
  note counts = middle_counts [OF this, of "length U + length V" "length U + length V"]
  have "removed (diff_ops a b) = removed (diffMiddle m n (length U + length V) (length U + length V))"
    "added (diff_ops a b) = added (diffMiddle m n (length U + length V) (length U + length V))"
    using context_counts unfolding split(3) by (simp_all add: removed_def added_def)
  moreover have "length xs \<le> length (U @ V) + lcs m n + length (W @ S)"
    using common_subseq_ends [of xs "U @ V" m "W @ S" n] assms(4,5) split(1,2) by simp
  moreover have "length a = length (U @ V) + length m + length (W @ S)" "length b = length (U @ V) + length n + length (W @ S)"
    using arg_cong [OF split(1), of length] arg_cong [OF split(2), of length] by simp_all
  ultimately show ?thesis using counts by linarith
qed

theorem diff_minimal_witness:
  "removed (diff_ops [''a'', ''b'', ''c''] [''a'', ''x'', ''c'']) + length [''a'', ''c''] \<le> 3"
proof -
  have e: "common_prefix [''a'', ''b'', ''c''] [''a'', ''x'', ''c''] = 1"
    "common_suffix [''a'', ''b'', ''c''] [''a'', ''x'', ''c''] 1 = 1"
    by (simp_all add: common_suffix_def)
  have "(length [''a'', ''b'', ''c''] - 1 - 1) * (length [''a'', ''x'', ''c''] - 1 - 1) \<le> maxDiffCells"
    "subseq [''a'', ''c''] [''a'', ''b'', ''c'']" "subseq [''a'', ''c''] [''a'', ''x'', ''c'']"
    by (simp_all add: maxDiffCells_def)
  from diff_minimal [OF e(1) [symmetric] e(2) [symmetric] this]
  show ?thesis by simp
qed

section \<open>Hunks\<close>

lemma first_change_at:
  "first_change ops start < length ops \<Longrightarrow> kind (ops ! first_change ops start) \<noteq> Keep"
proof -
  assume a: "first_change ops start < length ops"
  let ?d = "drop start ops"
  have "length (takeWhile (\<lambda>x. kind x = Keep) ?d) < length ?d" using a unfolding first_change_def by simp
  from nth_length_takeWhile [OF this] a show ?thesis unfolding first_change_def by simp
qed

lemma first_change_before:
  "start \<le> k \<Longrightarrow> k < length ops \<Longrightarrow> kind (ops ! k) \<noteq> Keep \<Longrightarrow> first_change ops start \<le> k"
proof (rule ccontr)
  assume k: "start \<le> k" "k < length ops" "kind (ops ! k) \<noteq> Keep" "\<not> first_change ops start \<le> k"
  let ?d = "drop start ops"
  have "k - start < length (takeWhile (\<lambda>x. kind x = Keep) ?d)" using k by (simp add: first_change_def)
  then have "takeWhile (\<lambda>x. kind x = Keep) ?d ! (k - start) \<in> set (takeWhile (\<lambda>x. kind x = Keep) ?d)"
    "takeWhile (\<lambda>x. kind x = Keep) ?d ! (k - start) = ?d ! (k - start)" by (rule nth_mem, rule takeWhile_nth)
  then have "kind (?d ! (k - start)) = Keep" using set_takeWhileD by fastforce
  then show False using k by simp
qed

text \<open>The two ways a round of the hunk loop ends: no change is left, or one hunk is cut.\<close>

lemma hunks_cases:
  obtains (none) "hunks ops start = []" "length ops \<le> first_change ops start"
  | (one) f l hi where "f = first_change ops start" "l = find_last ops (Suc f) f"
      "hi = min (length ops - 1) (l + diffContext)" "start \<le> f" "f \<le> l" "f < length ops"
      "f \<le> hi" "hi < length ops"
      "hunks ops start = (max start (f - diffContext), hi) # hunks ops (Suc hi)"
proof (cases "length ops \<le> first_change ops start")
  case True
  then have "hunks ops start = []" by (subst hunks.simps) (simp add: Let_def)
  then show ?thesis using none True by blast
next
  case False
  define f l hi where "f = first_change ops start" and "l = find_last ops (Suc f) f"
    and "hi = min (length ops - 1) (l + diffContext)"
  have "start \<le> f" "f \<le> l" using find_last_ge [of f "Suc f" ops] by (simp_all add: f_def l_def first_change_def)
  moreover have "hunks ops start = (max start (f - diffContext), hi) # hunks ops (Suc hi)"
    using False calculation(1) by (subst hunks.simps) (simp add: Let_def f_def l_def hi_def)
  ultimately show ?thesis using False by (intro one [OF f_def l_def hi_def]) (auto simp: hi_def f_def)
qed

lemma hunks_range:
  "\<forall>(lo, hi) \<in> set (hunks ops start). start \<le> lo \<and> lo \<le> hi \<and> hi < length ops"
proof (induction "length ops - start" arbitrary: start rule: less_induct)
  case less
  show ?case
  proof (cases ops start rule: hunks_cases)
    case (one f l hi)
    then have "\<forall>(lo, h) \<in> set (hunks ops (Suc hi)). Suc hi \<le> lo \<and> lo \<le> h \<and> h < length ops"
      by (intro less.hyps) simp
    then show ?thesis using one(4,7,8) unfolding one(9) by fastforce
  qed simp
qed

lemma hunks_cover:
  "start \<le> k \<Longrightarrow> k < length ops \<Longrightarrow> kind (ops ! k) \<noteq> Keep \<Longrightarrow> \<exists>(lo, hi) \<in> set (hunks ops start). lo \<le> k \<and> k \<le> hi"
proof (induction "length ops - start" arbitrary: start rule: less_induct)
  case less
  have f: "first_change ops start \<le> k" using first_change_before less.prems by blast
  show ?case
  proof (cases ops start rule: hunks_cases)
    case none
    with f less.prems show ?thesis by simp
  next
    case (one f l hi)
    show ?thesis
    proof (cases "k \<le> hi")
      case True
      then show ?thesis using f one less.prems by auto
    next
      case False
      then have "\<exists>(lo, h) \<in> set (hunks ops (Suc hi)). lo \<le> k \<and> k \<le> h"
        using one less.prems by (intro less.hyps) auto
      then show ?thesis unfolding one(9) by auto
    qed
  qed
qed

lemma script_slice:
  assumes "script a b i j ops" "lo \<le> hi" "hi < length ops" "body = take (Suc hi - lo) (drop lo ops)"
  shows "script a b (oldIdx (ops ! lo)) (newIdx (ops ! lo)) body"
proof -
  have "ops = take lo ops @ body @ drop (Suc hi - lo) (drop lo ops)" by (simp only: assms(4) append_take_drop_id)
  with assms(1) have "script a b (i + length (old_lines (take lo ops))) (j + length (new_lines (take lo ops))) body"
    by (metis script_append)
  moreover obtain rest where "body = ops ! lo # rest"
    using assms(2,3) unfolding assms(4) by (metis Cons_nth_drop_Suc Suc_diff_le le_less_trans take_Suc_Cons)
  ultimately show ?thesis by simp
qed

text \<open>every hunk quotes exactly the lines its header announces: from the position of its first
  operation on, its context and deleted lines are the old file's and its context and added lines
  the new file's; and no changed line is left out of the hunks.\<close>

theorem hunk_quotes:
  assumes "(lo, hi) \<in> set (hunks (diff_ops a b) 0)"
    and "body = take (Suc hi - lo) (drop lo (diff_ops a b))"
  shows "old_lines body = take (length (old_lines body)) (drop (oldIdx (diff_ops a b ! lo)) a) \<and>
    new_lines body = take (length (new_lines body)) (drop (newIdx (diff_ops a b ! lo)) b) \<and>
    (\<forall>k < length (diff_ops a b). kind (diff_ops a b ! k) \<noteq> Keep \<longrightarrow>
       (\<exists>(l, h) \<in> set (hunks (diff_ops a b) 0). l \<le> k \<and> k \<le> h))"
proof (intro conjI allI impI)
  have "lo \<le> hi" "hi < length (diff_ops a b)" using hunks_range [of "diff_ops a b" 0] assms(1) by auto
  moreover have "script a b (diff_start a b) (diff_start a b) (diff_ops a b)" by (rule diff_ops_quotes)
  ultimately have "script a b (oldIdx (diff_ops a b ! lo)) (newIdx (diff_ops a b ! lo)) body"
    using assms(2) by (intro script_slice)
  from script_lines [OF this] show
    "old_lines body = take (length (old_lines body)) (drop (oldIdx (diff_ops a b ! lo)) a)"
    "new_lines body = take (length (new_lines body)) (drop (newIdx (diff_ops a b ! lo)) b)"
    by (metis append_eq_conv_conj)+
qed (rule hunks_cover, simp_all)

text \<open>The diff of two one-line files, evaluated.\<close>

lemma example_ops:
  "diff_ops [''b''] [''c''] =
     [\<lparr>kind = Del, opText = ''b'', oldIdx = 0, newIdx = 0\<rparr>, \<lparr>kind = Add, opText = ''c'', oldIdx = 1, newIdx = 0\<rparr>]"
  by (simp add: diff_ops_def common_suffix_def context_ops_def diffMiddle_def maxDiffCells_def lcs_table_def
      fill_cell_def cell_def diff_walk.simps)

lemma example_hunks: "hunks (diff_ops [''b''] [''c'']) 0 = [(0, 1)]"
  by (simp add: example_ops hunks.simps find_last.simps first_change_def diffContext_def)

theorem hunk_quotes_witness:
  "old_lines (take 2 (drop 0 (diff_ops [''b''] [''c'']))) = [''b'']"
proof -
  have h: "(0, 1) \<in> set (hunks (diff_ops [''b''] [''c'']) 0)" by (simp add: example_hunks)
  show ?thesis
    using hunk_quotes [OF h refl] by (simp add: example_ops lines_Cons numeral_2_eq_2)
qed

lemma emit_capped:
  "length sb \<le> maxBytes \<Longrightarrow> emit maxBytes sb ps = (t, tr) \<Longrightarrow>
   length t \<le> maxBytes \<and> (\<exists>rest. sb @ concat ps = t @ rest \<and> (\<not> tr \<longrightarrow> rest = []))"
  by (induction maxBytes sb ps arbitrary: t tr rule: emit.induct) (auto split: if_splits)

text \<open>a preview with changes never exceeds its byte cap, is a prefix of the whole unified diff (all
  hunks, in order) and is the whole of it unless it is reported as truncated; the counts are those of
  the computed operations.\<close>

theorem unifiedDiff_capped:
  assumes "unifiedDiff oldText newText maxBytes = (t, ad, rm, tr)" "0 < ad + rm"
    and "ops = diff_ops (splitDiffLines oldText) (splitDiffLines newText)"
  shows "length t \<le> maxBytes \<and> ad = added ops \<and> rm = removed ops \<and>
    (\<exists>rest. concat (concat (map (hunk_pieces ops) (hunks ops 0))) = t @ rest \<and> (\<not> tr \<longrightarrow> rest = []))"
proof -
  obtain x where "emit maxBytes [] (concat (map (hunk_pieces ops) (hunks ops 0))) = (x, tr) \<and>
      t = x \<and> ad = added ops \<and> rm = removed ops"
    using assms unfolding unifiedDiff_def by (auto simp: Let_def split: if_splits prod.splits)
  then show ?thesis using emit_capped [of "[]" maxBytes "concat (map (hunk_pieces ops) (hunks ops 0))" t tr] by simp
qed

theorem unifiedDiff_capped_witness:
  "unifiedDiff ''b'' ''c'' 100 = (''@@ -1,1 +1,1 @@'' @ [nl] @ ''-b'' @ [nl] @ ''+c'' @ [nl], 1, 1, False) \<and>
   added (diff_ops (splitDiffLines ''b'') (splitDiffLines ''c'')) = 1"
proof -
  have e: "unifiedDiff ''b'' ''c'' 100 = (''@@ -1,1 +1,1 @@'' @ [nl] @ ''-b'' @ [nl] @ ''+c'' @ [nl], 1, 1, False)"
  proof -
    have l: "splitDiffLines ''b'' = [''b'']" "splitDiffLines ''c'' = [''c'']" by code_simp+
    have c: "added (diff_ops [''b''] [''c'']) = 1" "removed (diff_ops [''b''] [''c'']) = 1"
      by (simp_all add: example_ops added_def removed_def)
    have p: "hunk_pieces (diff_ops [''b''] [''c'']) (0, 1) = [''@@ -1,1 +1,1 @@'' @ [nl], ''-b'' @ [nl], ''+c'' @ [nl]]"
      by (simp add: hunk_pieces_def example_ops nat_digits.simps char_of_def bit_0)
    show ?thesis
      unfolding unifiedDiff_def l Let_def example_hunks c by (simp add: p [simplified])
  qed
  from unifiedDiff_capped [OF e _ refl] e show ?thesis by simp
qed

end
