(* ===== verification/Base64.thy ===== *)
theory Base64
  imports Go_Prelude
begin

text \<open>
  \<open>encoding/base64\<close> with the standard alphabet and padding, as the upload and download tools use it.  The
  decoder skips newlines and carriage returns, and ignores the spare bits before the padding.
\<close>

section \<open>Definitions\<close>

definition b64_digit :: "nat \<Rightarrow> char" where
  "b64_digit n =
     (if n < 26 then char_of (65 + n)
      else if n < 52 then char_of (71 + n)
      else if n < 62 then char_of (n - 4)
      else if n = 62 then CHR ''+'' else CHR ''/'')"

definition b64_val :: "char \<Rightarrow> nat option" where
  "b64_val c =
     (let v = bval c in
      if 65 \<le> v \<and> v \<le> 90 then Some (v - 65)
      else if 97 \<le> v \<and> v \<le> 122 then Some (v - 71)
      else if 48 \<le> v \<and> v \<le> 57 then Some (v + 4)
      else if v = 43 then Some 62 else if v = 47 then Some 63 else None)"

abbreviation pad :: char where "pad \<equiv> CHR ''=''"

fun EncodeToString :: "bytes \<Rightarrow> gostring" where
  "EncodeToString [] = []"
| "EncodeToString [a] =
     (let n = bval a * 16 in [b64_digit (n div 64), b64_digit (n mod 64), pad, pad])"
| "EncodeToString [a, b] =
     (let n = (bval a * 256 + bval b) * 4
      in [b64_digit (n div 4096), b64_digit (n div 64 mod 64), b64_digit (n mod 64), pad])"
| "EncodeToString (a # b # c # r) =
     (let n = bval a * 65536 + bval b * 256 + bval c
      in b64_digit (n div 262144) # b64_digit (n div 4096 mod 64) # b64_digit (n div 64 mod 64)
         # b64_digit (n mod 64) # EncodeToString r)"

fun decode_quanta :: "gostring \<Rightarrow> bytes option" where
  "decode_quanta [] = Some []"
| "decode_quanta (a # b # c # d # r) =
     (case (b64_val a, b64_val b) of
        (Some va, Some vb) \<Rightarrow>
          (case b64_val c of
             None \<Rightarrow>
               if c = pad \<and> d = pad \<and> r = [] then Some [char_of ((va * 64 + vb) div 16)] else None
           | Some vc \<Rightarrow>
               (case b64_val d of
                  None \<Rightarrow>
                    if d = pad \<and> r = []
                    then (let n = (va * 64 + vb) * 64 + vc in Some [char_of (n div 1024), char_of (n div 4 mod 256)])
                    else None
                | Some vd \<Rightarrow>
                    (let n = ((va * 64 + vb) * 64 + vc) * 64 + vd
                     in map_option (\<lambda>bs. char_of (n div 65536) # char_of (n div 256 mod 256) # char_of (n mod 256) # bs)
                          (decode_quanta r))))
      | _ \<Rightarrow> None)"
| "decode_quanta _ = None"

definition DecodeString :: "gostring \<Rightarrow> bytes option" where
  "DecodeString s = decode_quanta (filter (\<lambda>c. c \<noteq> nl \<and> c \<noteq> cr) s)"

section \<open>Round trip\<close>

lemma bval_b64_digit:
  "n < 64 \<Longrightarrow> bval (b64_digit n) =
     (if n < 26 then 65 + n else if n < 52 then 71 + n else if n < 62 then n - 4 else if n = 62 then 43 else 47)"
  by (simp add: b64_digit_def bval_char_of) (simp add: bval_def)

lemma b64_val_digit [simp]: "n < 64 \<Longrightarrow> b64_val (b64_digit n) = Some n"
  by (auto simp: b64_val_def bval_b64_digit Let_def)

lemma b64_val_pad [simp]: "b64_val pad = None"
  by (simp add: b64_val_def bval_def)

lemma b64_digit_not_newline: "n < 64 \<Longrightarrow> b64_digit n \<noteq> nl \<and> b64_digit n \<noteq> cr"
  using bval_b64_digit [of n] by (auto simp: bval_def split: if_splits)

lemma char_of_bval [simp]: "char_of (bval c) = c"
  by (simp add: bval_def)

lemma divmod_join: "(q * 256 + r) div 256 = q \<and> (q * 256 + r) mod 256 = r" if "r < 256" for q r :: nat
  using that by simp

lemma encode_no_newline: "\<forall>c \<in> set (EncodeToString s). c \<noteq> nl \<and> c \<noteq> cr"
proof (induction s rule: EncodeToString.induct)
  case (2 a)
  have "bval a * 16 div 64 < 64" using bval_less [of a] by linarith
  then show ?case using b64_digit_not_newline by (auto simp: Let_def)
next
  case (3 a b)
  have "(bval a * 256 + bval b) * 4 div 4096 < 64"
    using bval_less [of a] bval_less [of b] by (intro less_mult_imp_div_less) presburger
  then show ?case using b64_digit_not_newline by (auto simp: Let_def)
next
  case (4 a b c r)
  have "(bval a * 65536 + bval b * 256 + bval c) div 262144 < 64"
    using bval_less [of a] bval_less [of b] bval_less [of c] by linarith
  then show ?case using 4 b64_digit_not_newline by (auto simp: Let_def)
qed simp

lemma digits4: "((n div 262144 * 64 + n div 4096 mod 64) * 64 + n div 64 mod 64) * 64 + n mod 64 = (n :: nat)"
proof -
  have "n div 4096 div 64 = n div 262144" "n div 64 div 64 = n div 4096" by (simp_all add: div_mult2_eq [symmetric])
  then show ?thesis by (metis div_mult_mod_eq mult.commute)
qed

lemma digits3: "(n div 4096 * 64 + n div 64 mod 64) * 64 + n mod 64 = (n :: nat)"
proof -
  have "n div 64 div 64 = n div 4096" by (simp add: div_mult2_eq [symmetric])
  then show ?thesis by (metis div_mult_mod_eq mult.commute)
qed

lemma decode_three:
  assumes "b64_val x = Some vx" "b64_val y = Some vy" "b64_val z = Some vz" "(vx * 64 + vy) * 64 + vz = n"
  shows "decode_quanta [x, y, z, pad] = Some [char_of (n div 1024), char_of (n div 4 mod 256)]"
  using assms by (simp only: decode_quanta.simps b64_val_pad) simp

lemma decode_four:
  assumes "b64_val x = Some vx" "b64_val y = Some vy" "b64_val z = Some vz" "b64_val w = Some vw"
    and "((vx * 64 + vy) * 64 + vz) * 64 + vw = n" "decode_quanta r = Some bs"
  shows "decode_quanta (x # y # z # w # r) =
    Some (char_of (n div 65536) # char_of (n div 256 mod 256) # char_of (n mod 256) # bs)"
  using assms by (simp only: decode_quanta.simps) simp

lemma decode_encode_quanta: "decode_quanta (EncodeToString s) = Some s"
proof (induction s rule: EncodeToString.induct)
  case (2 a)
  have l: "bval a * 16 div 64 < 64" using bval_less [of a] by linarith
  have "bval a * 16 div 64 * 64 + bval a * 16 mod 64 = bval a * 16" by (rule div_mult_mod_eq)
  with l show ?case by (simp add: Let_def)
next
  case (3 a b)
  define n where "n = (bval a * 256 + bval b) * 4"
  have "n < 64 * 4096" using bval_less [of a] bval_less [of b] unfolding n_def by presburger
  then have l1: "n div 4096 < 64" by (rule less_mult_imp_div_less)
  have "n div 4 = bval a * 256 + bval b" by (simp add: n_def)
  moreover have "n div 1024 = n div 4 div 256" by (simp add: div_mult2_eq [symmetric])
  ultimately have l: "n div 4096 < 64" "n div 1024 = bval a" "n div 4 mod 256 = bval b"
    using bval_less [of b] l1 by simp_all
  show ?case using l(1) unfolding EncodeToString.simps Let_def n_def [symmetric]
    using decode_three [OF _ _ _ digits3 [of n], of "b64_digit (n div 4096)" "b64_digit (n div 64 mod 64)" "b64_digit (n mod 64)"]
    unfolding l(2,3) char_of_bval by simp
next
  case (4 a b c r)
  define n where "n = bval a * 65536 + bval b * 256 + bval c"
  have "n \<le> 255 * 65536 + 255 * 256 + 255"
    unfolding n_def by (intro add_mono mult_right_mono) (use bval_less [of a] bval_less [of b] bval_less [of c] in linarith)+
  then have "n < 64 * 262144" by linarith
  then have l1: "n div 262144 < 64" by (rule less_mult_imp_div_less)
  have e: "n = (bval a * 256 + bval b) * 256 + bval c" by (simp add: n_def)
  have "n div 256 = bval a * 256 + bval b" "n mod 256 = bval c" unfolding e using divmod_join [OF bval_less] by blast+
  moreover have "n div 65536 = n div 256 div 256" by (simp add: div_mult2_eq [symmetric])
  ultimately have l: "n div 262144 < 64" "n div 65536 = bval a" "n div 256 mod 256 = bval b" "n mod 256 = bval c"
    using bval_less [of b] l1 by simp_all
  show ?case using l(1) unfolding EncodeToString.simps Let_def n_def [symmetric]
    using decode_four [OF _ _ _ _ digits4 [of n] 4, of "b64_digit (n div 262144)" "b64_digit (n div 4096 mod 64)"
        "b64_digit (n div 64 mod 64)" "b64_digit (n mod 64)"]
    unfolding l(2-4) char_of_bval by simp
qed simp

lemma base64_roundtrip: "DecodeString (EncodeToString s) = Some s"
proof -
  have "filter (\<lambda>c. c \<noteq> nl \<and> c \<noteq> cr) (EncodeToString s) = EncodeToString s"
    using encode_no_newline by (simp add: filter_id_conv)
  then show ?thesis using decode_encode_quanta by (simp add: DecodeString_def)
qed

end
