(* ===== verification/File_Ops.thy ===== *)
theory File_Ops
  imports Manage_Ops Text_Encoding Line_Diff Token_Auth Base64
begin

text \<open>
  Writing, previewing, editing, uploading and downloading files (\<open>fileops.go\<close>).  SHA-256, the lint
  commands and the regular expressions are parameters; the text codec is that of \<open>Text_Encoding\<close>.
\<close>

section \<open>Definitions\<close>

datatype file_error =
    FOp op_error
  | FEnc enc_error
  | FIsDirectory gostring
  | FNoParent gostring
  | FOldEmpty
  | FEditEmpty nat
  | FBadPattern nat
  | FPatternNotFound nat
  | FNotFound nat
  | FNotUnique nat nat
  | FBadBase64

subsection \<open>The syntax check after a write (\<open>lintops.go\<close>)\<close>

record LintResult =
  lnLang :: gostring
  lnOK :: bool
  lnSkipped :: bool
  lnOutput :: gostring

text \<open>Which programs are in the path, and what a command prints and reports within ten seconds.\<close>

record lint_host =
  lookPath :: "gostring \<Rightarrow> bool"
  combinedOutput :: "gostring \<Rightarrow> gostring list \<Rightarrow> bytes \<times> gostring option"

definition lintWith :: "lint_host \<Rightarrow> gostring \<Rightarrow> gostring \<Rightarrow> gostring list \<Rightarrow> LintResult" where
  "lintWith h lang bin args =
     (if \<not> lookPath h bin
      then \<lparr>lnLang = lang, lnOK = False, lnSkipped = True, lnOutput = bin @ '' not found in PATH''\<rparr>
      else
        (let (out, err) = combinedOutput h bin args in
         case err of
           None \<Rightarrow> \<lparr>lnLang = lang, lnOK = True, lnSkipped = False, lnOutput = []\<rparr>
         | Some e \<Rightarrow>
             (let s = (if TrimSpace out = [] then e else TrimSpace out)
              in \<lparr>lnLang = lang, lnOK = False, lnSkipped = False,
                  lnOutput = (if 2000 < length s then take 2000 s @ ''...'' else s)\<rparr>)))"

definition LintFile :: "lint_host \<Rightarrow> bool \<Rightarrow> gostring \<Rightarrow> gostring \<Rightarrow> LintResult" where
  "LintFile h latch absPath lang =
     (if latch
      then \<lparr>lnLang = lang, lnOK = False, lnSkipped = True, lnOutput = ''skipped: server is in read-only mode''\<rparr>
      else
        (let l = ToLower (TrimSpace lang) in
         if l = ''bash'' \<or> l = ''sh'' then lintWith h ''bash'' ''bash'' [''-n'', absPath]
         else if l = ''python'' \<or> l = ''py'' then
           lintWith h ''python'' (if lookPath h ''python3'' then ''python3'' else ''python'') [''-m'', ''py_compile'', absPath]
         else \<lparr>lnLang = lang, lnOK = False, lnSkipped = True, lnOutput = ''unsupported lint language''\<rparr>))"

subsection \<open>Writing\<close>

record WriteFileRequest =
  wfPath :: gostring
  wfContent :: gostring
  wfEncoding :: gostring
  wfAppend :: bool
  wfMakeDirs :: bool
  wfMode :: gostring
  wfLint :: gostring
  wfDryRun :: bool

record WritePreview =
  wpvUnchanged :: bool
  wpvAdded :: nat
  wpvRemoved :: nat
  wpvDiff :: gostring
  wpvTruncated :: bool
  wpvNote :: gostring

record WriteFileResult =
  wfrPath :: gostring
  wfrBytes :: nat
  wfrCreated :: bool
  wfrEncoding :: gostring
  wfrSHA256 :: gostring
  wfrMode :: gostring
  wfrLint :: "LintResult option"
  wfrDryRun :: bool
  wfrPreview :: "WritePreview option"

definition maxPreviewDiffBytes :: nat where [go_defs]: "maxPreviewDiffBytes = 65536"
definition maxPreviewFileBytes :: nat where [go_defs]: "maxPreviewFileBytes = 8388608"
definition defaultDownloadMaxBytes :: nat where [go_defs]: "defaultDownloadMaxBytes = 4194304"

definition make_parents :: "bool \<Rightarrow> filesys \<Rightarrow> loc \<Rightarrow> change" where
  "make_parents mk fs p = (if mk then MkdirAll fs (butlast p) 493 else (None, fs))"

text \<open>Whether the write creates the file: \<open>os.Stat\<close> fails with \<open>ErrNotExist\<close>; other failures stop the call.\<close>

definition created_by :: "filesys \<Rightarrow> loc \<Rightarrow> fs_error + bool" where
  "created_by fs p =
     (case Stat fs p of Inr x \<Rightarrow> Inr False | Inl e \<Rightarrow> if e = ENOENT then Inr True else Inl e)"

definition store :: "filesys \<Rightarrow> loc \<Rightarrow> bool \<Rightarrow> nat \<Rightarrow> bytes \<Rightarrow> change" where
  "store fs p append_mode m dat =
     (case open_write fs p append_mode m of
        (Inl e, fs1) \<Rightarrow> (Some e, fs1)
      | (Inr q, fs1) \<Rightarrow> (None, write_open q dat fs1))"

definition encodedResult :: "bytes \<Rightarrow> bytes \<Rightarrow> bool \<Rightarrow> bytes" where
  "encodedResult old dat append_mode = (if append_mode then old @ dat else dat)"

definition target_encoding :: "gostring \<Rightarrow> gostring" where
  "target_encoding e = (if e = [] then ''utf-8'' else e)"

definition empty_preview :: WritePreview where
  "empty_preview = \<lparr>wpvUnchanged = False, wpvAdded = 0, wpvRemoved = 0, wpvDiff = [], wpvTruncated = False, wpvNote = []\<rparr>"

text \<open>The end of the preview: the diff from the decoded old text to the new text.\<close>

definition preview_diff :: "WriteFileRequest \<Rightarrow> gostring \<Rightarrow> WritePreview \<Rightarrow> WritePreview" where
  "preview_diff req oldText pv =
     (let newText = (if wfAppend req then oldText @ wfContent req else wfContent req);
          pv1 = (if wfAppend req
                 then pv\<lparr>wpvNote := wpvNote pv @ ''append mode: the diff shows the file after appending.''\<rparr> else pv) in
      if maxPreviewFileBytes < length newText then pv1\<lparr>wpvNote := wpvNote pv1 @ ''new content too large to diff.''\<rparr>
      else
        (let (diff, ad, rm, trunc) = unifiedDiff oldText newText maxPreviewDiffBytes
         in pv1\<lparr>wpvDiff := diff, wpvAdded := ad, wpvRemoved := rm, wpvTruncated := trunc,
               wpvNote := TrimSpace (wpvNote pv1)\<rparr>))"

definition preview_old :: "codec \<Rightarrow> WriteFileRequest \<Rightarrow> bytes \<Rightarrow> bytes option \<Rightarrow> WritePreview \<Rightarrow> WritePreview" where
  "preview_old cd req dat old pv =
     (case old of
        None \<Rightarrow> preview_diff req [] pv
      | Some o' \<Rightarrow>
          if maxPreviewFileBytes < length o'
          then pv\<lparr>wpvNote := wpvNote pv @ ''existing file is '' @ nat_digits (length o') @ '' bytes: too large to diff.''\<rparr>
          else
            (let pv1 = pv\<lparr>wpvUnchanged := (o' = encodedResult o' dat (wfAppend req))\<rparr> in
             if looksBinary o' then pv1\<lparr>wpvNote := wpvNote pv1 @ ''existing file is binary: no diff.''\<rparr>
             else if o' = [] then preview_diff req [] pv1
             else
               (case decodeToUTF8 cd o' (detectEncoding o') of
                  Inl e \<Rightarrow> pv1\<lparr>wpvNote := wpvNote pv1 @ ''existing content could not be decoded: no diff.''\<rparr>
                | Inr t \<Rightarrow> preview_diff req t pv1)))"

definition previewWrite ::
  "codec \<Rightarrow> (bytes \<Rightarrow> bytes) \<Rightarrow> WriteFileRequest \<Rightarrow> gostring \<Rightarrow> nat \<Rightarrow> filesys \<Rightarrow> file_error + WriteFileResult" where
  "previewWrite cd sha req ap m fs =
     (let encoding = target_encoding (wfEncoding req); p = clean_comps ap in
      case encodeFromUTF8 cd (wfContent req) encoding of
        Inl e \<Rightarrow> Inl (FEnc e)
      | Inr dat \<Rightarrow>
          (let note = (if wfLint req \<noteq> [] \<and> wfLint req \<noteq> ''none'' then ''lint is not run in dry_run. '' else []);
               pv = empty_preview\<lparr>wpvNote := note\<rparr>;
               result = (\<lambda>created modeStr old.
                 \<lparr>wfrPath = ap, wfrBytes = length dat, wfrCreated = created, wfrEncoding = encoding,
                  wfrSHA256 = hexEncode (sha dat), wfrMode = modeStr, wfrLint = None, wfrDryRun = True,
                  wfrPreview = Some (preview_old cd req dat old pv)\<rparr>) in
           case Stat fs p of
             Inr (NDir _) \<Rightarrow> Inl (FIsDirectory ap)
           | Inr (NFile d pm) \<Rightarrow> Inr (result False (perm_string pm) (Some d))
           | Inr (NLink t) \<Rightarrow> Inl (FOp (OSys EINVAL))
           | Inl e \<Rightarrow>
               if e \<noteq> ENOENT then Inl (FOp (OSys e))
               else if \<not> wfMakeDirs req \<and> (case Stat fs (butlast p) of Inl _ \<Rightarrow> True | Inr _ \<Rightarrow> False)
               then Inl (FNoParent (path_of True (butlast p)))
               else Inr (result True (perm_string m) None)))"

definition WriteFileContent ::
  "codec \<Rightarrow> (bytes \<Rightarrow> bytes) \<Rightarrow> lint_host \<Rightarrow> bool \<Rightarrow> WriteFileRequest \<Rightarrow> gostring list \<Rightarrow>
   filesys \<Rightarrow> (file_error + WriteFileResult) \<times> filesys" where
  "WriteFileContent cd sha lint latch req roots fs =
     (case guardReadOnly latch ''write_file'' of
        Some e \<Rightarrow> (Inl (FOp (OReadOnly e)), fs)
      | None \<Rightarrow>
     (case validatePath fs (wfPath req) roots of
        Inl e \<Rightarrow> (Inl (FOp (OPath e)), fs)
      | Inr ap \<Rightarrow>
     (case parseMode (wfMode req) of
        Inl e \<Rightarrow> (Inl (FOp e), fs)
      | Inr m \<Rightarrow>
          if wfDryRun req then (previewWrite cd sha req ap m fs, fs)
          else
     (let p = clean_comps ap; encoding = target_encoding (wfEncoding req) in
      case make_parents (wfMakeDirs req) fs p of
        (Some e, fs1) \<Rightarrow> (Inl (FOp (OSys e)), fs1)
      | (None, fs1) \<Rightarrow>
     (case created_by fs1 p of
        Inl e \<Rightarrow> (Inl (FOp (OSys e)), fs1)
      | Inr created \<Rightarrow>
     (case encodeFromUTF8 cd (wfContent req) encoding of
        Inl e \<Rightarrow> (Inl (FEnc e), fs1)
      | Inr dat \<Rightarrow>
     (case store fs1 p (wfAppend req) m dat of
        (Some e, fs2) \<Rightarrow> (Inl (FOp (OSys e)), fs2)
      | (None, fs2) \<Rightarrow>
          (Inr \<lparr>wfrPath = ap, wfrBytes = length dat, wfrCreated = created, wfrEncoding = encoding,
                wfrSHA256 = hexEncode (sha dat), wfrMode = stat_mode fs2 p,
                wfrLint = (if wfLint req \<noteq> [] \<and> wfLint req \<noteq> ''none'' then Some (LintFile lint latch ap (wfLint req)) else None),
                wfrDryRun = False, wfrPreview = None\<rparr>, fs2))))))))"

subsection \<open>Editing\<close>

text \<open>\<open>strings.Index\<close>, \<open>strings.Count\<close> (occurrences that do not overlap), \<open>strings.Replace\<close> once and
  \<open>strings.ReplaceAll\<close>, for a non-empty substring.\<close>

fun Index :: "gostring \<Rightarrow> gostring \<Rightarrow> nat option" where
  "Index [] sub = (if sub = [] then Some 0 else None)"
| "Index (c # s) sub = (if HasPrefix (c # s) sub then Some 0 else map_option Suc (Index s sub))"

lemma Index_Some: "Index s sub = Some i \<Longrightarrow> s = take i s @ sub @ drop (i + length sub) s"
proof (induction s sub arbitrary: i rule: Index.induct)
  case (2 c s sub)
  show ?case
  proof (cases "HasPrefix (c # s) sub")
    case True
    then obtain r where "c # s = sub @ r" by (auto simp: HasPrefix_iff)
    moreover have "i = 0" using 2(2) True by simp
    ultimately show ?thesis by simp
  next
    case False
    with 2 show ?thesis by auto
  qed
qed (auto split: if_splits)

lemma Index_shorter: "Index s sub = Some i \<Longrightarrow> sub \<noteq> [] \<Longrightarrow> length (drop (i + length sub) s) < length s"
  using arg_cong [OF Index_Some [of s sub i], of length] by (cases sub) auto

function Count :: "gostring \<Rightarrow> gostring \<Rightarrow> nat" where
  "Count s sub =
     (if sub = [] then 0
      else case Index s sub of None \<Rightarrow> 0 | Some i \<Rightarrow> Suc (Count (drop (i + length sub) s) sub))"
  by pat_completeness auto
termination
  by (relation "measure (\<lambda>(s, sub). length s)") (use Index_shorter in auto)

function ReplaceAll :: "gostring \<Rightarrow> gostring \<Rightarrow> gostring \<Rightarrow> gostring" where
  "ReplaceAll s old new =
     (if old = [] then s
      else case Index s old of
             None \<Rightarrow> s
           | Some i \<Rightarrow> take i s @ new @ ReplaceAll (drop (i + length old) s) old new)"
  by pat_completeness auto
termination
  by (relation "measure (\<lambda>(s, old, new). length s)") (use Index_shorter in auto)

declare Count.simps [simp del] ReplaceAll.simps [simp del]

definition Replace_once :: "gostring \<Rightarrow> gostring \<Rightarrow> gostring \<Rightarrow> gostring" where
  "Replace_once s old new =
     (case Index s old of None \<Rightarrow> s | Some i \<Rightarrow> take i s @ new @ drop (i + length old) s)"

record EditPair =
  epOld :: gostring
  epNew :: gostring
  epAll :: bool

record EditChange =
  ecIndex :: nat
  ecOld :: gostring
  ecNew :: gostring
  ecReplacements :: nat

record EditFileRequest =
  efPath :: gostring
  efOld :: gostring
  efNew :: gostring
  efAll :: bool
  efEncoding :: gostring
  efEdits :: "EditPair list"
  efUseRegex :: bool
  efDryRun :: bool
  efLint :: gostring

record EditFileResult =
  efrPath :: gostring
  efrReplacements :: nat
  efrEncoding :: gostring
  efrDryRun :: bool
  efrChanges :: "EditChange list"
  efrSHA256 :: gostring
  efrMode :: gostring
  efrLint :: "LintResult option"

text \<open>The \<open>regexp\<close> package: whether a pattern compiles, how often it matches, and replacing all matches.\<close>

record edit_regexp =
  erCompiles :: "gostring \<Rightarrow> bool"
  erMatches :: "gostring \<Rightarrow> gostring \<Rightarrow> nat"
  erReplaceAll :: "gostring \<Rightarrow> gostring \<Rightarrow> gostring \<Rightarrow> gostring"

definition previewString :: "gostring \<Rightarrow> nat \<Rightarrow> gostring" where
  "previewString s lim = (if length s \<le> lim then s else take lim s @ ''...'')"

text \<open>One edit on the text so far; edits are numbered from 1.\<close>

definition apply_edit :: "edit_regexp \<Rightarrow> bool \<Rightarrow> nat \<Rightarrow> EditPair \<Rightarrow> gostring \<Rightarrow> file_error + (gostring \<times> EditChange)" where
  "apply_edit re useRegex i e t =
     (let change = (\<lambda>n. \<lparr>ecIndex = i, ecOld = previewString (epOld e) 200, ecNew = previewString (epNew e) 200,
                         ecReplacements = n\<rparr>) in
      if epOld e = [] then Inl (FEditEmpty i)
      else if useRegex then
        (if \<not> erCompiles re (epOld e) then Inl (FBadPattern i)
         else (let n = erMatches re (epOld e) t in
               if n = 0 then Inl (FPatternNotFound i)
               else Inr (erReplaceAll re (epOld e) t (epNew e), change n)))
      else
        (let n = Count t (epOld e) in
         if n = 0 then Inl (FNotFound i)
         else if \<not> epAll e \<and> 1 < n then Inl (FNotUnique i n)
         else if epAll e then Inr (ReplaceAll t (epOld e) (epNew e), change n)
         else Inr (Replace_once t (epOld e) (epNew e), change 1)))"

fun apply_edits :: "edit_regexp \<Rightarrow> bool \<Rightarrow> nat \<Rightarrow> EditPair list \<Rightarrow> gostring \<Rightarrow> file_error + (gostring \<times> EditChange list)" where
  "apply_edits re useRegex i [] t = Inr (t, [])"
| "apply_edits re useRegex i (e # es) t =
     (case apply_edit re useRegex i e t of
        Inl err \<Rightarrow> Inl err
      | Inr (t', c) \<Rightarrow>
          (case apply_edits re useRegex (Suc i) es t' of
             Inl err \<Rightarrow> Inl err
           | Inr (t'', cs) \<Rightarrow> Inr (t'', c # cs)))"

definition requested_edits :: "EditFileRequest \<Rightarrow> file_error + EditPair list" where
  "requested_edits req =
     (if efEdits req \<noteq> [] then Inr (efEdits req)
      else if efOld req = [] then Inl FOldEmpty
      else Inr [\<lparr>epOld = efOld req, epNew = efNew req, epAll = efAll req\<rparr>])"

text \<open>\<open>os.ReadFile\<close>.\<close>

definition ReadFile :: "filesys \<Rightarrow> loc \<Rightarrow> fs_error + bytes" where
  "ReadFile fs p =
     (case Stat fs p of Inl e \<Rightarrow> Inl e | Inr (NFile d m) \<Rightarrow> Inr d | Inr _ \<Rightarrow> Inl EISDIR)"

definition EditFileContent ::
  "codec \<Rightarrow> (bytes \<Rightarrow> bytes) \<Rightarrow> edit_regexp \<Rightarrow> lint_host \<Rightarrow> bool \<Rightarrow> EditFileRequest \<Rightarrow> gostring list \<Rightarrow>
   filesys \<Rightarrow> (file_error + EditFileResult) \<times> filesys" where
  "EditFileContent cd sha re lint latch req roots fs =
     (case guardReadOnly latch ''edit_file'' of
        Some e \<Rightarrow> (Inl (FOp (OReadOnly e)), fs)
      | None \<Rightarrow>
     (case validatePath fs (efPath req) roots of
        Inl e \<Rightarrow> (Inl (FOp (OPath e)), fs)
      | Inr ap \<Rightarrow>
     (case requested_edits req of
        Inl e \<Rightarrow> (Inl e, fs)
      | Inr edits \<Rightarrow>
     (let p = clean_comps ap in
      case ReadFile fs p of
        Inl e \<Rightarrow> (Inl (FOp (OSys e)), fs)
      | Inr dat \<Rightarrow>
     (let encoding = (if efEncoding req = [] then detectEncoding dat else efEncoding req) in
      case decodeToUTF8 cd dat encoding of
        Inl e \<Rightarrow> (Inl (FEnc e), fs)
      | Inr content \<Rightarrow>
     (case apply_edits re (efUseRegex req) 1 edits content of
        Inl e \<Rightarrow> (Inl e, fs)
      | Inr (updated, changes) \<Rightarrow>
     (let result = \<lparr>efrPath = ap, efrReplacements = sum_list (map ecReplacements changes), efrEncoding = encoding,
                    efrDryRun = efDryRun req, efrChanges = changes, efrSHA256 = [], efrMode = [], efrLint = None\<rparr> in
      if efDryRun req then (Inr result, fs)
      else
     (case encodeFromUTF8 cd updated encoding of
        Inl e \<Rightarrow> (Inl (FEnc e), fs)
      | Inr out \<Rightarrow>
     (let m = (case Stat fs p of Inr (NFile d pm) \<Rightarrow> pm | Inr (NDir pm) \<Rightarrow> pm | _ \<Rightarrow> 420) in
      case store fs p False m out of
        (Some e, fs1) \<Rightarrow> (Inl (FOp (OSys e)), fs1)
      | (None, fs1) \<Rightarrow>
          (Inr (result\<lparr>efrSHA256 := hexEncode (sha out), efrMode := perm_string m,
                      efrLint := (if efLint req \<noteq> [] \<and> efLint req \<noteq> ''none''
                                  then Some (LintFile lint latch ap (efLint req)) else None)\<rparr>), fs1))))))))))"

subsection \<open>Uploading and downloading\<close>

record UploadBase64Request =
  ubPath :: gostring
  ubData :: gostring
  ubAppend :: bool
  ubMakeDirs :: bool
  ubMode :: gostring

record UploadBase64Result =
  ubrPath :: gostring
  ubrBytes :: nat
  ubrCreated :: bool
  ubrSHA256 :: gostring
  ubrMode :: gostring

definition UploadBase64 ::
  "(bytes \<Rightarrow> bytes) \<Rightarrow> bool \<Rightarrow> UploadBase64Request \<Rightarrow> gostring list \<Rightarrow> filesys \<Rightarrow>
   (file_error + UploadBase64Result) \<times> filesys" where
  "UploadBase64 sha latch req roots fs =
     (case guardReadOnly latch ''upload_base64'' of
        Some e \<Rightarrow> (Inl (FOp (OReadOnly e)), fs)
      | None \<Rightarrow>
     (case validatePath fs (ubPath req) roots of
        Inl e \<Rightarrow> (Inl (FOp (OPath e)), fs)
      | Inr ap \<Rightarrow>
     (case DecodeString (ubData req) of
        None \<Rightarrow> (Inl FBadBase64, fs)
      | Some dat \<Rightarrow>
     (case parseMode (ubMode req) of
        Inl e \<Rightarrow> (Inl (FOp e), fs)
      | Inr m \<Rightarrow>
     (let p = clean_comps ap in
      case make_parents (ubMakeDirs req) fs p of
        (Some e, fs1) \<Rightarrow> (Inl (FOp (OSys e)), fs1)
      | (None, fs1) \<Rightarrow>
     (case created_by fs1 p of
        Inl e \<Rightarrow> (Inl (FOp (OSys e)), fs1)
      | Inr created \<Rightarrow>
     (case store fs1 p (ubAppend req) m dat of
        (Some e, fs2) \<Rightarrow> (Inl (FOp (OSys e)), fs2)
      | (None, fs2) \<Rightarrow>
          (Inr \<lparr>ubrPath = ap, ubrBytes = length dat, ubrCreated = created, ubrSHA256 = hexEncode (sha dat),
                ubrMode = stat_mode fs2 p\<rparr>, fs2))))))))"

record DownloadBase64Request =
  dbPath :: gostring
  dbOffset :: int
  dbMaxBytes :: int

record DownloadBase64Result =
  dbrPath :: gostring
  dbrBytes :: nat
  dbrOffset :: int
  dbrTotal :: nat
  dbrEOF :: bool
  dbrData :: gostring

definition DownloadBase64 :: "DownloadBase64Request \<Rightarrow> gostring list \<Rightarrow> filesys \<Rightarrow> file_error + DownloadBase64Result" where
  "DownloadBase64 req roots fs =
     (case validatePath fs (dbPath req) roots of
        Inl e \<Rightarrow> Inl (FOp (OPath e))
      | Inr ap \<Rightarrow>
          (case ReadFile fs (clean_comps ap) of
             Inl e \<Rightarrow> Inl (FOp (OSys e))
           | Inr d \<Rightarrow>
               (let off = max 0 (dbOffset req);
                    maxBytes = (if dbMaxBytes req \<le> 0 then defaultDownloadMaxBytes else nat (dbMaxBytes req));
                    buf = take maxBytes (drop (nat off) d)
                in Inr \<lparr>dbrPath = ap, dbrBytes = length buf, dbrOffset = off, dbrTotal = length d,
                        dbrEOF = (int (length d) \<le> off + int (length buf)), dbrData = EncodeToString buf\<rparr>)))"

section \<open>What a write leaves behind\<close>

lemma put_put [simp]: "put_node q x (put_node q y fs) = put_node q x fs"
  by (simp add: put_node_def)

definition kept_mode :: "filesys \<Rightarrow> loc \<Rightarrow> nat \<Rightarrow> nat" where
  "kept_mode fs q m = (case node_at fs q of Some (NFile _ pm) \<Rightarrow> pm | _ \<Rightarrow> masked fs m)"

lemma resolve_no_link: "resolve fs mk p = Inr q \<Longrightarrow> node_at fs q \<noteq> Some (NLink t)"
  using walks_no_link [of fs mk MAXSYMLINKS "[]" p q] by (simp add: resolve_def walk_iff)

text \<open>Storing succeeds exactly when the path leads to a file or to a free name, and then the one
  location it leads to holds the new content.\<close>

lemma store_eq:
  assumes "resolve fs True p = Inr q" "\<not> is_dir fs q"
  shows "store fs p append_mode m dat =
    (None, put_node q (NFile (encodedResult (file_bytes fs q) dat append_mode) (kept_mode fs q m)) fs)"
proof -
  have q: "q \<noteq> []" using assms(2) by (auto simp: is_dir_iff)
  show ?thesis
  proof (cases "node_at fs q")
    case None
    then show ?thesis using assms(1) q
      by (simp add: store_def open_write_def write_open_def node_at_put encodedResult_def file_bytes_def kept_mode_def)
  next
    case (Some x)
    then obtain d pm where "x = NFile d pm" using assms resolve_no_link [OF assms(1)] by (cases x) (auto simp: is_dir_iff)
    then show ?thesis using assms(1) q Some
      by (simp add: store_def open_write_def write_open_def node_at_put encodedResult_def file_bytes_def kept_mode_def)
  qed
qed

lemma store_None:
  assumes "store fs p append_mode m dat = (None, fs')"
  obtains q where "resolve fs True p = Inr q" "\<not> is_dir fs q"
    "fs' = put_node q (NFile (encodedResult (file_bytes fs q) dat append_mode) (kept_mode fs q m)) fs"
proof -
  from assms obtain q where q: "resolve fs True p = Inr q" "\<not> is_dir fs q"
    by (auto simp: store_def open_write_def is_dir_iff split: sum.splits option.splits node.splits if_splits)
  with store_eq [OF q] assms that show ?thesis by simp
qed

lemma store_Some: "store fs p append_mode m dat = (Some e, fs') \<Longrightarrow> fs' = fs"
  by (auto simp: store_def open_write_def split: sum.splits option.splits node.splits if_splits)


section \<open>The dry run of a write\<close>

lemma preview_diff_Unchanged [simp]: "wpvUnchanged (preview_diff req t pv) = wpvUnchanged pv"
  by (simp add: preview_diff_def Let_def split: prod.splits)

lemma preview_old_Unchanged:
  "wpvUnchanged (preview_old cd req dat old (empty_preview\<lparr>wpvNote := n\<rparr>)) \<Longrightarrow>
   \<exists>o'. old = Some o' \<and> o' = encodedResult o' dat (wfAppend req)"
  by (auto simp: preview_old_def Let_def empty_preview_def split: option.splits if_splits sum.splits)

lemma resolve_create: "resolve fs False p = Inr q \<Longrightarrow> resolve fs True p = Inr q"
  using walks_mk by (simp add: resolve_def walk_iff)

lemma Stat_file: "Stat fs p = Inr (NFile d pm) \<longleftrightarrow> (\<exists>q. resolve fs False p = Inr q \<and> node_at fs q = Some (NFile d pm))"
  by (auto simp: Stat_def split: sum.splits option.splits)

text \<open>A write that would leave the content as it is changes no node.\<close>

lemma store_unchanged:
  assumes "Stat fs p = Inr (NFile d pm)" "d = encodedResult d dat append_mode" "store fs p append_mode m dat = (None, fs')"
  shows "node_at fs' k = node_at fs k"
proof -
  obtain q where q: "resolve fs False p = Inr q" "node_at fs q = Some (NFile d pm)" using assms(1) Stat_file by blast
  then have "fs' = put_node q (NFile d pm) fs" "q \<noteq> []"
    using store_eq [OF resolve_create [OF q(1)], of append_mode m dat] assms(2,3)
    by (auto simp: is_dir_iff file_bytes_def kept_mode_def)
  then show ?thesis using q(2) by (simp add: node_at_put)
qed

lemma previewWrite_cases:
  assumes "previewWrite cd sha req ap m fs = Inr r"
    and "encodeFromUTF8 cd (wfContent req) (target_encoding (wfEncoding req)) = Inr dat" "p = clean_comps ap"
  shows "\<exists>c ms old n. r = \<lparr>wfrPath = ap, wfrBytes = length dat, wfrCreated = c, wfrEncoding = target_encoding (wfEncoding req),
        wfrSHA256 = hexEncode (sha dat), wfrMode = ms, wfrLint = None, wfrDryRun = True,
        wfrPreview = Some (preview_old cd req dat old (empty_preview\<lparr>wpvNote := n\<rparr>))\<rparr> \<and>
      (c \<longleftrightarrow> Stat fs p = Inl ENOENT) \<and> (old = None \<or> (\<exists>d pm. old = Some d \<and> Stat fs p = Inr (NFile d pm)))"
proof (cases "Stat fs p")
  case (Inl e)
  then show ?thesis using assms by (auto simp: previewWrite_def Let_def split: if_splits)
next
  case (Inr x)
  then show ?thesis using assms by (cases x) (auto simp: previewWrite_def Let_def)
qed

lemma WriteFile_dry:
  assumes "WriteFileContent cd sha lint latch (req\<lparr>wfDryRun := True\<rparr>) roots fs = (Inr r, fs1)"
  obtains ap m dat where "validatePath fs (wfPath req) roots = Inr ap" "parseMode (wfMode req) = Inr m" "fs1 = fs"
    "encodeFromUTF8 cd (wfContent req) (target_encoding (wfEncoding req)) = Inr dat"
    "wfrPath r = ap" "wfrBytes r = length dat" "wfrEncoding r = target_encoding (wfEncoding req)"
    "wfrSHA256 r = hexEncode (sha dat)" "wfrCreated r \<longleftrightarrow> Stat fs (clean_comps ap) = Inl ENOENT"
    "\<exists>pv. wfrPreview r = Some pv \<and> (wpvUnchanged pv \<longrightarrow>
       (\<exists>d pm. Stat fs (clean_comps ap) = Inr (NFile d pm) \<and> d = encodedResult d dat (wfAppend req)))"
proof -
  from assms obtain ap m where v: "validatePath fs (wfPath req) roots = Inr ap" "parseMode (wfMode req) = Inr m" "fs1 = fs"
    "previewWrite cd sha (req\<lparr>wfDryRun := True\<rparr>) ap m fs = Inr r"
    by (auto simp: WriteFileContent_def guardReadOnly_def split: option.splits sum.splits if_splits)
  from v(4) obtain dat where e: "encodeFromUTF8 cd (wfContent req) (target_encoding (wfEncoding req)) = Inr dat"
    by (auto simp: previewWrite_def Let_def split: sum.splits)
  have e': "encodeFromUTF8 cd (wfContent (req\<lparr>wfDryRun := True\<rparr>)) (target_encoding (wfEncoding (req\<lparr>wfDryRun := True\<rparr>))) = Inr dat"
    using e by simp
  from previewWrite_cases [OF v(4) e' refl] obtain c ms old n where
    r: "r = \<lparr>wfrPath = ap, wfrBytes = length dat, wfrCreated = c,
        wfrEncoding = target_encoding (wfEncoding (req\<lparr>wfDryRun := True\<rparr>)),
        wfrSHA256 = hexEncode (sha dat), wfrMode = ms, wfrLint = None, wfrDryRun = True,
        wfrPreview = Some (preview_old cd (req\<lparr>wfDryRun := True\<rparr>) dat old (empty_preview\<lparr>wpvNote := n\<rparr>))\<rparr>"
      "c \<longleftrightarrow> Stat fs (clean_comps ap) = Inl ENOENT"
      "old = None \<or> (\<exists>d pm. old = Some d \<and> Stat fs (clean_comps ap) = Inr (NFile d pm))"
    by blast
  show ?thesis
  proof (rule that [OF v(1-3) e])
    show "\<exists>pv. wfrPreview r = Some pv \<and> (wpvUnchanged pv \<longrightarrow>
       (\<exists>d pm. Stat fs (clean_comps ap) = Inr (NFile d pm) \<and> d = encodedResult d dat (wfAppend req)))"
      using r(1,3) preview_old_Unchanged [of cd "req\<lparr>wfDryRun := True\<rparr>" dat old n] by auto
  qed (simp_all add: r(1) r(2))
qed


end
