(* ===== verification/File_Edits.thy ===== *)
theory File_Edits
  imports File_Ops
begin

text \<open>
  Theorems on editing and on chunked transfer: what a text edit replaces, that a failed edit leaves the
  file alone, and that a file uploaded in chunks is downloaded unchanged.
\<close>

section \<open>Occurrences of a substring\<close>

definition occurs :: "gostring \<Rightarrow> gostring \<Rightarrow> bool" where
  "occurs sub s \<longleftrightarrow> (\<exists>a b. s = a @ sub @ b)"

lemma Index_None: "Index s sub = None \<Longrightarrow> s \<noteq> a @ sub @ b"
proof (induction s sub arbitrary: a rule: Index.induct)
  case (1 sub)
  then show ?case by (auto split: if_splits)
next
  case (2 c s sub)
  show ?case
  proof (cases a)
    case Nil
    then show ?thesis using 2(2) by (auto split: if_splits)
  next
    case (Cons x a')
    then show ?thesis using 2 by (auto split: if_splits)
  qed
qed

lemma Index_least: "Index s sub = Some i \<Longrightarrow> s = a @ sub @ b \<Longrightarrow> i \<le> length a"
proof (induction s sub arbitrary: a i rule: Index.induct)
  case (2 c s sub)
  show ?case
  proof (cases a)
    case Nil
    then have "HasPrefix (c # s) sub" using 2(3) by simp
    then show ?thesis using 2(2) by simp
  next
    case (Cons x a')
    then show ?thesis using 2 by (cases i) (auto split: if_splits)
  qed
qed (auto split: if_splits)

text \<open>The text before the first occurrence holds no occurrence.\<close>

lemma Index_before:
  assumes "Index s sub = Some i" "sub \<noteq> []" shows "\<not> occurs sub (take i s)"
proof
  assume "occurs sub (take i s)"
  then obtain a b where ab: "take i s = a @ sub @ b" by (auto simp: occurs_def)
  then have "s = a @ sub @ (b @ drop i s)" by (metis append.assoc append_take_drop_id)
  then have "i \<le> length a" by (rule Index_least [OF assms(1)])
  moreover have "length (take i s) = length a + length sub + length b" using ab by simp
  ultimately show False using assms(2) by (cases sub) (auto simp: min_def split: if_splits)
qed

text \<open>Replacing all occurrences: the text falls into pieces without an occurrence, and the pieces are
  rejoined with the replacement.\<close>

lemma ReplaceAll_pieces:
  assumes "old \<noteq> []"
  shows "\<exists>parts. length parts = Suc (Count s old) \<and> s = join old parts \<and> ReplaceAll s old new = join new parts \<and>
    (\<forall>x \<in> set parts. \<not> occurs old x)"
proof (induction "length s" arbitrary: s rule: less_induct)
  case less
  show ?case
  proof (cases "Index s old")
    case None
    then have "Count s old = 0" "ReplaceAll s old new = s" "\<not> occurs old s"
      using Index_None [OF None] by (simp_all add: Count.simps ReplaceAll.simps occurs_def)
    then show ?thesis by (intro exI [of _ "[s]"]) simp
  next
    case (Some i)
    define r where "r = drop (i + length old) s"
    have "length r < length s" unfolding r_def by (rule Index_shorter [OF Some assms])
    from less [OF this] obtain parts where p: "length parts = Suc (Count r old)" "r = join old parts"
      "ReplaceAll r old new = join new parts" "\<forall>x \<in> set parts. \<not> occurs old x" by blast
    have "s = take i s @ old @ r" unfolding r_def by (rule Index_Some [OF Some])
    moreover have "Count s old = Suc (Count r old)" using Some assms by (subst Count.simps) (simp add: r_def)
    moreover have "ReplaceAll s old new = take i s @ new @ ReplaceAll r old new"
      using Some assms by (subst ReplaceAll.simps) (simp add: r_def)
    ultimately show ?thesis
      using p Index_before [OF Some assms] by (intro exI [of _ "take i s # parts"]) (auto simp: join_Cons)
  qed
qed

lemma ReplaceAll_none: "old \<noteq> [] \<Longrightarrow> Count s old = 0 \<Longrightarrow> ReplaceAll s old new = s"
  by (subst ReplaceAll.simps, subst (asm) Count.simps) (auto split: option.splits)

lemma Replace_once_all:
  assumes "old \<noteq> []" "Count s old = 1" shows "Replace_once s old new = ReplaceAll s old new"
proof -
  obtain i where i: "Index s old = Some i" "Count (drop (i + length old) s) old = 0"
    using assms by (subst (asm) Count.simps) (auto split: option.splits)
  have "ReplaceAll s old new = take i s @ new @ ReplaceAll (drop (i + length old) s) old new"
    using assms(1) i(1) by (subst ReplaceAll.simps) simp
  then show ?thesis using i ReplaceAll_none [OF assms(1)] by (simp add: Replace_once_def)
qed

text \<open>a text edit replaces what it reports: the text falls into one more piece than there are
  replacements, none of which contains the old string, joined by the old string before and by the new
  string after; without \<open>replace_all\<close> there is exactly one replacement.\<close>

theorem edit_replaces:
  assumes "apply_edit re False i e t = Inr (t', c)"
  shows "\<exists>parts. length parts = Suc (ecReplacements c) \<and> t = join (epOld e) parts \<and> t' = join (epNew e) parts \<and>
    (\<forall>x \<in> set parts. \<not> occurs (epOld e) x) \<and> 0 < ecReplacements c \<and> (\<not> epAll e \<longrightarrow> ecReplacements c = 1)"
proof -
  have o: "epOld e \<noteq> []" and n: "ecReplacements c = Count t (epOld e)" "0 < Count t (epOld e)"
    "\<not> epAll e \<longrightarrow> Count t (epOld e) = 1"
    using assms by (auto simp: apply_edit_def Let_def split: if_splits)
  have "t' = ReplaceAll t (epOld e) (epNew e)"
    using assms Replace_once_all [OF o, of t "epNew e"] n(3) by (auto simp: apply_edit_def Let_def split: if_splits)
  with ReplaceAll_pieces [OF o, of t "epNew e"] n show ?thesis by auto
qed

section \<open>A failed edit changes nothing\<close>

text \<open>C26: edits are atomic: a call that fails at any of its edits, or is a dry run, leaves the file system as it
  was; a call that succeeds stores the encoding of the text after all edits, in order, at the one
  location it edits.\<close>

theorem edit_atomic:
  assumes "EditFileContent cd sha re lint latch req roots fs = (res, fs')"
  shows "((\<exists>err. res = Inl err) \<or> efDryRun req \<longrightarrow> fs' = fs) \<and>
    (\<forall>r. res = Inr r \<and> \<not> efDryRun req \<longrightarrow>
      (\<exists>ap q d pm edits t t' out. validatePath fs (efPath req) roots = Inr ap \<and> requested_edits req = Inr edits \<and>
         resolve fs False (clean_comps ap) = Inr q \<and> node_at fs q = Some (NFile d pm) \<and>
         decodeToUTF8 cd d (efrEncoding r) = Inr t \<and> apply_edits re (efUseRegex req) 1 edits t = Inr (t', efrChanges r) \<and>
         encodeFromUTF8 cd t' (efrEncoding r) = Inr out \<and>
         (\<forall>k. node_at fs' k = (if k = q then Some (NFile out pm) else node_at fs k))))"
proof -
  have "fs' = fs" if "(\<exists>err. res = Inl err) \<or> efDryRun req"
    using assms that store_Some
    by (auto simp: EditFileContent_def Let_def split: option.splits sum.splits if_splits prod.splits) 
  moreover have "\<exists>ap q d pm edits t t' out. validatePath fs (efPath req) roots = Inr ap \<and> requested_edits req = Inr edits \<and>
         resolve fs False (clean_comps ap) = Inr q \<and> node_at fs q = Some (NFile d pm) \<and>
         decodeToUTF8 cd d (efrEncoding r) = Inr t \<and> apply_edits re (efUseRegex req) 1 edits t = Inr (t', efrChanges r) \<and>
         encodeFromUTF8 cd t' (efrEncoding r) = Inr out \<and>
         (\<forall>k. node_at fs' k = (if k = q then Some (NFile out pm) else node_at fs k))"
    if r: "res = Inr r" "\<not> efDryRun req" for r
  proof -
    obtain ap edits d t t' out m where a: "validatePath fs (efPath req) roots = Inr ap" "requested_edits req = Inr edits"
      "ReadFile fs (clean_comps ap) = Inr d" "decodeToUTF8 cd d (efrEncoding r) = Inr t"
      "apply_edits re (efUseRegex req) 1 edits t = Inr (t', efrChanges r)" "encodeFromUTF8 cd t' (efrEncoding r) = Inr out"
      "store fs (clean_comps ap) False m out = (None, fs')"
      using assms r
      by (auto simp: EditFileContent_def Let_def split: option.splits sum.splits if_splits prod.splits)
    from a(3) obtain pm where "Stat fs (clean_comps ap) = Inr (NFile d pm)"
      by (auto simp: ReadFile_def split: sum.splits node.splits)
    then obtain q where q: "resolve fs False (clean_comps ap) = Inr q" "node_at fs q = Some (NFile d pm)"
      using Stat_file by blast
    then have "fs' = put_node q (NFile out pm) fs" "q \<noteq> []"
      using store_eq [OF resolve_create [OF q(1)], of False m out] a(7)
      by (auto simp: is_dir_iff kept_mode_def encodedResult_def)
    then show ?thesis using a q by (auto simp: node_at_put)
  qed
  ultimately show ?thesis by blast
qed

section \<open>Chunked transfer\<close>

text \<open>A client that uploads a file in chunks, the first one replacing and the others appending, and one that
  downloads it in pieces until the end of the file is reported.\<close>

definition upload_req :: "gostring \<Rightarrow> gostring \<Rightarrow> bool \<Rightarrow> bytes \<Rightarrow> UploadBase64Request" where
  "upload_req path mode a c =
     \<lparr>ubPath = path, ubData = EncodeToString c, ubAppend = a, ubMakeDirs = False, ubMode = mode\<rparr>"

fun upload_chunks ::
  "(bytes \<Rightarrow> bytes) \<Rightarrow> gostring \<Rightarrow> gostring \<Rightarrow> gostring list \<Rightarrow> bool \<Rightarrow> bytes list \<Rightarrow> filesys \<Rightarrow> filesys option" where
  "upload_chunks sha path mode roots a [] fs = Some fs"
| "upload_chunks sha path mode roots a (c # cs) fs =
     (case UploadBase64 sha False (upload_req path mode a c) roots fs of
        (Inr r, fs') \<Rightarrow> upload_chunks sha path mode roots True cs fs'
      | (Inl e, fs') \<Rightarrow> None)"

fun download_all :: "nat \<Rightarrow> gostring \<Rightarrow> int \<Rightarrow> gostring list \<Rightarrow> filesys \<Rightarrow> int \<Rightarrow> bytes option" where
  "download_all 0 path mb roots fs off = None"
| "download_all (Suc k) path mb roots fs off =
     (case DownloadBase64 \<lparr>dbPath = path, dbOffset = off, dbMaxBytes = mb\<rparr> roots fs of
        Inl e \<Rightarrow> None
      | Inr r \<Rightarrow>
          (case DecodeString (dbrData r) of
             None \<Rightarrow> None
           | Some b \<Rightarrow>
               if dbrEOF r then Some b
               else map_option ((@) b) (download_all k path mb roots fs (off + int (dbrBytes r)))))"

lemma download_all_file:
  assumes "validatePath fs path roots = Inr ap" "ReadFile fs (clean_comps ap) = Inr d" "0 < mb"
    and "off \<le> length d" "length d - off < k"
  shows "download_all k path mb roots fs (int off) = Some (drop off d)"
  using assms(4,5)
proof (induction k arbitrary: off)
  case (Suc k)
  define buf where "buf = take (nat mb) (drop off d)"
  have dl: "DownloadBase64 \<lparr>dbPath = path, dbOffset = int off, dbMaxBytes = mb\<rparr> roots fs =
      Inr \<lparr>dbrPath = ap, dbrBytes = length buf, dbrOffset = int off, dbrTotal = length d,
           dbrEOF = (length d \<le> off + length buf), dbrData = EncodeToString buf\<rparr>"
    using assms(1-3) by (simp add: DownloadBase64_def Let_def buf_def) linarith
  show ?case
  proof (cases "length d \<le> off + length buf")
    case True
    then have "buf = drop off d" using Suc.prems(1) by (auto simp: buf_def min_def split: if_splits)
    with dl True show ?thesis by (simp add: base64_roundtrip)
  next
    case False
    then have l: "length buf = nat mb" by (auto simp: buf_def min_def split: if_splits)
    have "download_all k path mb roots fs (int (off + length buf)) = Some (drop (off + length buf) d)"
      using False Suc.prems l assms(3) by (intro Suc.IH) auto
    moreover have "buf @ drop (off + length buf) d = drop off d"
      using l by (simp add: buf_def add.commute) (metis append_take_drop_id drop_drop add.commute)
    ultimately show ?thesis using dl False by (simp add: base64_roundtrip)
  qed
qed simp

lemma created_by_ok:
  assumes "resolve fs True p = Inr q" shows "\<exists>c. created_by fs p = Inr c"
proof -
  have "resolve fs False p = Inr q \<or> resolve fs False p = Inl ENOENT"
    using walk_create [of fs MAXSYMLINKS "[]" p q MAXSYMLINKS] assms by (simp add: resolve_def walk_iff)
  then show ?thesis by (auto simp: created_by_def Stat_def split: option.splits)
qed

lemma upload_one:
  assumes "validatePath fs path roots = Inr ap" "parseMode mode = Inr m"
    and "resolve fs True (clean_comps ap) = Inr q" "\<not> is_dir fs q"
  shows "\<exists>r pm. UploadBase64 sha False (upload_req path mode a c) roots fs =
    (Inr r, put_node q (NFile (encodedResult (file_bytes fs q) c a) pm) fs)"
proof -
  obtain b where "created_by fs (clean_comps ap) = Inr b" using created_by_ok [OF assms(3)] by blast
  then show ?thesis
    using assms(1,2) store_eq [OF assms(3,4), of a m c]
    by (auto simp: UploadBase64_def upload_req_def guardReadOnly_def base64_roundtrip make_parents_def Let_def)
qed

lemma upload_append:
  assumes v: "\<And>d pm. validatePath (put_node q (NFile d pm) fs) path roots = Inr ap" and "parseMode mode = Inr m"
    and "resolve fs True (clean_comps ap) = Inr q" "\<not> is_dir fs q" "q \<noteq> []"
  shows "\<exists>pm'. upload_chunks sha path mode roots True cs (put_node q (NFile d pm) fs) =
    Some (put_node q (NFile (d @ concat cs) pm') fs)"
proof (induction cs arbitrary: d pm)
  case (Cons c cs)
  let ?F = "put_node q (NFile d pm) fs"
  have r: "resolve ?F True (clean_comps ap) = Inr q" using resolve_create [OF resolve_put [OF assms(3,4)]] .
  have "\<not> is_dir ?F q" "file_bytes ?F q = d" using assms(5) by (simp_all add: is_dir_iff node_at_put file_bytes_def)
  then obtain res pm' where "UploadBase64 sha False (upload_req path mode True c) roots ?F =
      (Inr res, put_node q (NFile (d @ c) pm') fs)"
    using upload_one [OF v assms(2) r, of sha True c] by (auto simp: encodedResult_def)
  with Cons.IH [of "d @ c" pm'] show ?case by simp
qed auto


section \<open>Examples\<close>

definition no_codec :: codec where
  "no_codec = \<lparr>gbkDecode = (\<lambda>_. None), gbkEncode = (\<lambda>_. None), gb18030Decode = (\<lambda>_. None), gb18030Encode = (\<lambda>_. None)\<rparr>"

definition no_regexp :: edit_regexp where
  "no_regexp = \<lparr>erCompiles = (\<lambda>_. False), erMatches = (\<lambda>_ _. 0), erReplaceAll = (\<lambda>_ t _. t)\<rparr>"

definition no_lint :: lint_host where
  "no_lint = \<lparr>lookPath = (\<lambda>_. False), combinedOutput = (\<lambda>_ _. ([], None))\<rparr>"

definition example_edit :: EditFileRequest where
  "example_edit = \<lparr>efPath = ''/d/f'', efOld = ''at'', efNew = ''o'', efAll = False, efEncoding = ''utf-8'', efEdits = [],
     efUseRegex = False, efDryRun = False, efLint = []\<rparr>"

theorem edit_replaces_witness:
  "\<exists>parts. ''data'' = join ''at'' parts \<and> ''doa'' = join ''o'' parts \<and> length parts = 2"
proof -
  define e where "e = \<lparr>epOld = ''at'', epNew = ''o'', epAll = False\<rparr>"
  obtain c where "apply_edit no_regexp False 1 e ''data'' = Inr (''doa'', c)" "ecReplacements c = 1"
  proof (rule that)
    show "apply_edit no_regexp False 1 e ''data'' =
        Inr (''doa'', \<lparr>ecIndex = 1, ecOld = ''at'', ecNew = ''o'', ecReplacements = 1\<rparr>)"
      unfolding e_def by code_simp
  qed simp
  with edit_replaces [of no_regexp 1 e "''data''" "''doa''" c] show ?thesis by (auto simp: e_def)
qed

theorem edit_atomic_witness:
  "\<exists>r fs'. EditFileContent no_codec id no_regexp no_lint False example_edit [] small_fs = (Inr r, fs') \<and>
     (\<exists>ap q. validatePath small_fs ''/d/f'' [] = Inr ap \<and> resolve small_fs False (clean_comps ap) = Inr q)"
proof -
  obtain res fs' where e: "EditFileContent no_codec id no_regexp no_lint False example_edit [] small_fs = (res, fs')"
    by (cases "EditFileContent no_codec id no_regexp no_lint False example_edit [] small_fs")
  have "(case fst (EditFileContent no_codec id no_regexp no_lint False example_edit [] small_fs) of Inl _ \<Rightarrow> False | Inr _ \<Rightarrow> True)"
    by code_simp
  then obtain r where r: "res = Inr r" using e by (auto split: sum.splits)
  moreover have "\<not> efDryRun example_edit" "efPath example_edit = ''/d/f''" by (simp_all add: example_edit_def)
  ultimately show ?thesis using edit_atomic [OF e] e by auto
qed




end
