(* ===== verification/File_Service.thy ===== *)
theory File_Service
  imports File_Edits Manage_Ops Executor Jobs
begin

text \<open>
  The operations that change the host, put together: the calls of the file tools as one step of the
  file system, sequences of them, and what the read-only switch and the sandbox guarantee for every
  such sequence.
\<close>

section \<open>Definitions\<close>

datatype tool_call =
    CallWrite WriteFileRequest
  | CallEdit EditFileRequest
  | CallUpload UploadBase64Request
  | CallDelete DeleteFileRequest
  | CallMakeDir MakeDirRequest
  | CallMove MoveFileRequest
  | CallCopy CopyFileRequest

text \<open>What the operations take from outside the source.\<close>

record file_host =
  fhCodec :: codec
  fhSha :: "bytes \<Rightarrow> bytes"
  fhRegexp :: edit_regexp
  fhLint :: lint_host
  fhDevice :: "loc \<Rightarrow> nat"

text \<open>The file system after a call; a recursive copy that does not end within its fuel is \<open>None\<close>.\<close>

fun file_call :: "file_host \<Rightarrow> nat \<Rightarrow> bool \<Rightarrow> gostring list \<Rightarrow> tool_call \<Rightarrow> filesys \<Rightarrow> filesys option" where
  "file_call h fuel latch roots (CallWrite req) fs =
     Some (snd (WriteFileContent (fhCodec h) (fhSha h) (fhLint h) latch req roots fs))"
| "file_call h fuel latch roots (CallEdit req) fs =
     Some (snd (EditFileContent (fhCodec h) (fhSha h) (fhRegexp h) (fhLint h) latch req roots fs))"
| "file_call h fuel latch roots (CallUpload req) fs = Some (snd (UploadBase64 (fhSha h) latch req roots fs))"
| "file_call h fuel latch roots (CallDelete req) fs = Some (snd (DeleteFile latch req roots fs))"
| "file_call h fuel latch roots (CallMakeDir req) fs = Some (snd (MakeDir latch req roots fs))"
| "file_call h fuel latch roots (CallMove req) fs = map_option snd (MoveFile (fhDevice h) fuel latch req roots fs)"
| "file_call h fuel latch roots (CallCopy req) fs = map_option snd (CopyFile fuel latch req roots fs)"

fun file_calls :: "file_host \<Rightarrow> nat \<Rightarrow> bool \<Rightarrow> gostring list \<Rightarrow> tool_call list \<Rightarrow> filesys \<Rightarrow> filesys option" where
  "file_calls h fuel latch roots [] fs = Some fs"
| "file_calls h fuel latch roots (c # cs) fs =
     (case file_call h fuel latch roots c fs of
        None \<Rightarrow> None
      | Some fs' \<Rightarrow> file_calls h fuel latch roots cs fs')"

section \<open>Read-only mode\<close>

lemma file_call_read_only: "file_call h fuel True roots c fs = Some fs"
  by (cases c) (simp_all add: WriteFileContent_def EditFileContent_def UploadBase64_def DeleteFile_def MakeDir_def
      MoveFile_def CopyFile_def guardReadOnly_def)

lemma file_calls_read_only: "file_calls h fuel True roots cs fs = Some fs"
  by (induction cs) (simp_all add: file_call_read_only)

lemma execute_read_only:
  "\<exists>r. execute re cd h cfg True i req = Some (r, []) \<and> xNotStarted r \<and> xError r \<noteq> None"
  by (simp add: execute_def exec_guards_def guardReadOnly_def fail_result_def)

text \<open>C5: a server started with the read-only switch leaves the host as it found it: after any later
  configuration passes, whatever they ask for, every sequence of file calls leaves the file system
  unchanged (and always returns), every command comes back unstarted with an error, every request for
  a background job is refused, and the sweep deletes no job and no log.\<close>

theorem read_only_server:
  assumes "parseReadOnly (env ''SHELL_API_READONLY'')" "LoadConfig re tempDir env latch0 = Inr cl"
    "(cfg, latch) = config_passes bs cl"
  shows "file_calls h fuel latch roots calls fs = Some fs \<and>
    (\<exists>r. execute re cd eh cfg latch i req = Some (r, []) \<and> xNotStarted r \<and> xError r \<noteq> None) \<and>
    (\<exists>e. Spawn re sh cfg latch uuid sreq jm = (Inl e, jm)) \<and> sweep latch now jm = jm"
proof -
  have "latch = True" using latched_start(2) [OF assms(1,2), of bs] assms(3) by (metis snd_conv)
  moreover have "\<exists>e. Spawn re sh cfg True uuid sreq jm = (Inl e, jm)" "sweep True now jm = jm"
    by (simp_all add: Spawn_def spawn_guards_def sweep_def guardReadOnly_def)
  ultimately show ?thesis using file_calls_read_only execute_read_only by simp
qed

theorem read_only_server_witness:
  "\<exists>cfg latch. file_calls \<lparr>fhCodec = no_codec, fhSha = id, fhRegexp = no_regexp, fhLint = no_lint, fhDevice = \<lambda>_. 0\<rparr> 0 latch []
      [CallDelete \<lparr>dlPath = ''/f'', dlRecursive = True, dlConfirm = True, dlDryRun = False\<rparr>]
      small_fs = Some small_fs \<and> sweep latch 7 \<lparr>jobs = [], logs = [''/l'']\<rparr> = \<lparr>jobs = [], logs = [''/l'']\<rparr>"
proof -
  obtain cl where cl: "LoadConfig example_re ''/tmp'' example_env False = Inr cl" using example_load by blast
  obtain cfg latch where "(cfg, latch) = config_passes [False, True] cl" by (metis prod.exhaust)
  from read_only_server [OF example_read_only cl this] show ?thesis by blast
qed
end
