(* ===== verification/Globs.thy ===== *)
theory Globs
  imports Patterns Paths Utf8
begin

text \<open>
  Globs for the file searches (\<open>globs.go\<close>, lines 13 to 187): the translation of a glob into an anchored
  expression, and matching an entry by base name, relative path or absolute path.
\<close>

section \<open>Definitions\<close>

text \<open>\<open>regexp.QuoteMeta\<close>.\<close>

definition QuoteMeta :: "gostring \<Rightarrow> gostring" where
  "QuoteMeta s =
     concat (map (\<lambda>c. if c \<in> set (CHR 0x5C # ''.+*?()|[]{}^$'') then [CHR 0x5C, c] else [c]) s)"

datatype glob_error = UnclosedBracket | UnclosedBrace | BadExpression

text \<open>A bracket expression whose content starts at \<open>start\<close>: the index of its closing bracket; a closing
  bracket in first place is content.\<close>

definition bracket_end :: "gostring \<Rightarrow> nat \<Rightarrow> nat" where
  "bracket_end p start =
     (let j = (if start < length p \<and> p ! start = CHR '']'' then Suc start else start)
      in j + length (takeWhile (\<lambda>c. c \<noteq> CHR '']'') (drop j p)))"

lemma bracket_end_ge: "start \<le> bracket_end p start"
  by (simp add: bracket_end_def Let_def)

definition class_escape :: "gostring \<Rightarrow> gostring" where
  "class_escape s =
     concat (map (\<lambda>c. if c \<in> {CHR 0x5C, CHR ''['', CHR '']'', CHR ''^''} then [CHR 0x5C, c] else [c]) s)"

text \<open>The loop over the pattern from index \<open>i\<close>, with \<open>braces\<close> open braces and the expression \<open>b\<close> so far.\<close>

function glob_loop :: "gostring \<Rightarrow> nat \<Rightarrow> nat \<Rightarrow> gostring \<Rightarrow> glob_error + gostring" where
  "glob_loop p i braces b =
     (if length p \<le> i then (if 0 < braces then Inl UnclosedBrace else Inr (b @ ''$''))
      else
        (let c = p ! i in
         if c = CHR ''*'' then
           (if Suc i < length p \<and> p ! Suc i = CHR ''*'' then
              (let segStart = (i = 0 \<or> p ! (i - 1) = slash); j = i + 2 in
               if segStart \<and> j < length p \<and> p ! j = slash
               then glob_loop p (Suc j) braces (b @ ''(?:[^/]*/)*'')
               else if segStart \<and> j = length p then glob_loop p j braces (b @ ''.*'')
               else glob_loop p j braces (b @ ''[^/]*''))
            else glob_loop p (Suc i) braces (b @ ''[^/]*''))
         else if c = CHR ''?'' then glob_loop p (Suc i) braces (b @ ''[^/]'')
         else if c = CHR ''['' then
           (let neg = (Suc i < length p \<and> p ! Suc i \<in> {CHR ''!'', CHR ''^''});
                start = (if neg then i + 2 else Suc i);
                j = bracket_end p start
            in if length p \<le> j then Inl UnclosedBracket
               else glob_loop p (Suc j) braces
                      (b @ ''['' @ (if neg then ''^/'' else []) @ class_escape (take (j - start) (drop start p)) @ '']''))
         else if c = CHR ''{'' then glob_loop p (Suc i) (Suc braces) (b @ ''(?:'')
         else if c = CHR ''}'' then
           (if braces = 0 then glob_loop p (Suc i) 0 (b @ [CHR 0x5C, CHR ''}''])
            else glob_loop p (Suc i) (braces - 1) (b @ '')''))
         else if c = CHR '','' then glob_loop p (Suc i) braces (b @ (if 0 < braces then ''|'' else '',''))
         else if c = CHR 0x5C then
           (let k = (if Suc i < length p then Suc i else i) in glob_loop p (Suc k) braces (b @ QuoteMeta [p ! k]))
         else glob_loop p (Suc i) braces (b @ QuoteMeta [c])))"
  by pat_completeness auto

termination
  by (relation "measure (\<lambda>(p, i, _). length p - i)")
    (auto simp: bracket_end_ge le_SucI Suc_diff_Suc intro!: diff_less_mono2 le_less_trans [OF _ lessI] order.trans [OF _ bracket_end_ge])

declare glob_loop.simps [simp del]

definition globRegexp :: "compile \<Rightarrow> gostring \<Rightarrow> bool \<Rightarrow> glob_error + regexp" where
  "globRegexp rx p ignoreCase =
     (case glob_loop p 0 0 ((if ignoreCase then ''(?i)'' else []) @ ''^'') of
        Inl e \<Rightarrow> Inl e
      | Inr b \<Rightarrow> (case rx b of None \<Rightarrow> Inl BadExpression | Some re \<Rightarrow> Inr re))"

record globSet =
  gName :: "regexp list"
  gRel :: "regexp list"
  gAbs :: "regexp list"

definition empty_globs :: globSet where
  "empty_globs = \<lparr>gName = [], gRel = [], gAbs = []\<rparr>"

text \<open>\<open>filepath.ToSlash\<close> changes nothing on Unix.\<close>

definition glob_pattern :: "gostring \<Rightarrow> gostring" where
  "glob_pattern p = TrimPrefix (TrimSpace p) ''./''"

fun compile_globs :: "compile \<Rightarrow> bool \<Rightarrow> gostring list \<Rightarrow> globSet \<Rightarrow> (gostring \<times> glob_error) + globSet" where
  "compile_globs rx ic [] g = Inr g"
| "compile_globs rx ic (q # qs) g =
     (let p = glob_pattern q in
      if p = [] then compile_globs rx ic qs g
      else
        (case globRegexp rx p ic of
           Inl e \<Rightarrow> Inl (p, e)
         | Inr re \<Rightarrow>
             compile_globs rx ic qs
               (if HasPrefix p [slash] then g\<lparr>gAbs := gAbs g @ [re]\<rparr>
                else if slash \<in> set p then g\<lparr>gRel := gRel g @ [re]\<rparr>
                else g\<lparr>gName := gName g @ [re]\<rparr>)))"

definition compileGlobs :: "compile \<Rightarrow> gostring list \<Rightarrow> bool \<Rightarrow> (gostring \<times> glob_error) + globSet option" where
  "compileGlobs rx patterns ignoreCase =
     (case compile_globs rx ignoreCase patterns empty_globs of
        Inl e \<Rightarrow> Inl e
      | Inr g \<Rightarrow> Inr (if gName g = [] \<and> gRel g = [] \<and> gAbs g = [] then None else Some g))"

definition glob_match :: "globSet option \<Rightarrow> gostring \<Rightarrow> gostring \<Rightarrow> gostring \<Rightarrow> bool" where
  "glob_match g name rel ap =
     (case g of
        None \<Rightarrow> True
      | Some g \<Rightarrow>
          list_ex (\<lambda>re. MatchString re name) (gName g) \<or>
          list_ex (\<lambda>re. MatchString re rel) (gRel g) \<or>
          list_ex (\<lambda>re. MatchString re ap) (gAbs g))"

definition matchAny :: "globSet option \<Rightarrow> gostring \<Rightarrow> gostring \<Rightarrow> gostring \<Rightarrow> bool" where
  "matchAny g name rel ap \<longleftrightarrow> g \<noteq> None \<and> glob_match g name rel ap"

end
