(* ===== verification/Walk_Tree.thy ===== *)
theory Walk_Tree
  imports File_Changes "HOL-Library.Multiset"
begin

text \<open>
  Walking a directory tree (\<open>walkTree\<close> and \<open>relPath\<close> of \<open>globs.go\<close>, lines 185 to 208, over
  \<open>filepath.WalkDir\<close>): entries in lexical order, every directory before what it holds, symbolic links as
  entries.  The file system does not change during a walk.  The last section says which entries a walk
  visits.
\<close>

section \<open>Definitions\<close>

datatype walk_ctl = Continue | SkipDir | SkipAll

text \<open>How many nodes lie strictly below a location.\<close>

definition below :: "filesys \<Rightarrow> loc \<Rightarrow> nat" where
  "below fs p = card {q \<in> set (map fst (nodes fs)). strict_prefix p q}"

definition entries :: "filesys \<Rightarrow> loc \<Rightarrow> loc list" where
  "entries fs p = (if is_dir fs p then map (\<lambda>c. p @ [c]) (children fs p) else [])"

lemma entries_below: "q \<in> set (entries fs p) \<Longrightarrow> below fs q < below fs p"
proof -
  assume "q \<in> set (entries fs p)"
  then obtain c where q: "q = p @ [c]" "c \<in> set (children fs p)"
    by (auto simp: entries_def split: if_splits)
  then have mem: "q \<in> set (map fst (nodes fs))" by (auto simp: children_def) (metis append_butlast_last_id fst_conv image_eqI)
  have "{r \<in> set (map fst (nodes fs)). strict_prefix q r} \<subset> {r \<in> set (map fst (nodes fs)). strict_prefix p r}"
    using mem q(1) by (auto simp: strict_prefix_def prefix_def)
  then show ?thesis unfolding below_def by (intro psubset_card_mono) auto
qed

lemma add_smaller: "(\<And>x. x \<in># K \<Longrightarrow> x < a) \<Longrightarrow> (K + M, add_mset a M) \<in> mult {(x, y). x < (y :: nat)}"
  using one_step_implies_mult [of "{#a#}" K "{(x, y). x < y}" M] by (simp add: add.commute)

text \<open>\<open>fn\<close> is called with an entry, its node (not following a link), and the state.  The source returns
  \<open>SkipDir\<close> for directories only.\<close>

function walk_list :: "filesys \<Rightarrow> (loc \<Rightarrow> node \<Rightarrow> 's \<Rightarrow> walk_ctl \<times> 's) \<Rightarrow> loc list \<Rightarrow> 's \<Rightarrow> 's" where
  "walk_list fs fn [] s = s"
| "walk_list fs fn (p # ps) s =
     (case node_at fs p of
        None \<Rightarrow> walk_list fs fn ps s
      | Some x \<Rightarrow>
          (case fn p x s of
             (SkipAll, s') \<Rightarrow> s'
           | (SkipDir, s') \<Rightarrow> walk_list fs fn ps s'
           | (Continue, s') \<Rightarrow> walk_list fs fn (entries fs p @ ps) s'))"
  by pat_completeness auto
termination
proof (relation "inv_image (mult {(x, y :: nat). x < y}) (\<lambda>(fs, fn, ps, s). mset (map (below fs) ps))")
  show "wf (inv_image (mult {(x, y :: nat). x < y}) (\<lambda>(fs, fn, ps, s :: 's). mset (map (below fs) ps)))"
    using wf_less by (intro wf_inv_image wf_mult) simp
next
  fix fs and fn :: "loc \<Rightarrow> node \<Rightarrow> 's \<Rightarrow> walk_ctl \<times> 's" and p ps s
  show "((fs, fn, ps, s), fs, fn, p # ps, s) \<in> inv_image (mult {(x, y :: nat). x < y}) (\<lambda>(fs, fn, ps, s). mset (map (below fs) ps))"
    using add_smaller [of "{#}" "below fs p" "mset (map (below fs) ps)"] by simp
next
  fix fs and fn :: "loc \<Rightarrow> node \<Rightarrow> 's \<Rightarrow> walk_ctl \<times> 's" and p ps s x a s'
  show "((fs, fn, ps, s'), fs, fn, p # ps, s) \<in> inv_image (mult {(x, y :: nat). x < y}) (\<lambda>(fs, fn, ps, s). mset (map (below fs) ps))"
    using add_smaller [of "{#}" "below fs p" "mset (map (below fs) ps)"] by simp
  show "((fs, fn, entries fs p @ ps, s'), fs, fn, p # ps, s) \<in> inv_image (mult {(x, y :: nat). x < y}) (\<lambda>(fs, fn, ps, s). mset (map (below fs) ps))"
    using add_smaller [of "mset (map (below fs) (entries fs p))" "below fs p" "mset (map (below fs) ps)"] entries_below by auto
qed

declare walk_list.simps(2) [simp del]

text \<open>Where a walk starts and what it calls its entries: below a root that is a link to a directory the
  link's target is walked, and the length of the target's name is cut off the front of each path.\<close>

definition walk_root :: "filesys \<Rightarrow> gostring \<Rightarrow> (loc \<times> (loc \<Rightarrow> gostring)) option" where
  "walk_root fs root =
     (let rc = clean_comps root in
      case (Lstat fs rc, EvalSymlinks fs rc) of
        (Inr (NLink t), Inr real) \<Rightarrow>
          if is_dir fs real then Some (real, \<lambda>p. root @ drop (length (path_of True real)) (path_of True p)) else None
      | (Inr (NDir m), Inr real) \<Rightarrow> Some (real, \<lambda>p. path_of True (rc @ drop (length real) p))
      | _ \<Rightarrow> None)"

text \<open>An entry: its path as reported, and its name.\<close>

definition walkTree :: "filesys \<Rightarrow> gostring \<Rightarrow> (gostring \<Rightarrow> loc \<Rightarrow> node \<Rightarrow> 's \<Rightarrow> walk_ctl \<times> 's) \<Rightarrow> 's \<Rightarrow> 's" where
  "walkTree fs root fn s =
     (case walk_root fs root of
        None \<Rightarrow> s
      | Some (real, name) \<Rightarrow> walk_list fs (\<lambda>p. fn (name p) p) [real] s)"

text \<open>\<open>filepath.Rel\<close> of absolute paths.\<close>

definition Rel :: "gostring \<Rightarrow> gostring \<Rightarrow> gostring" where
  "Rel base targ =
     (let b = clean_comps base; t = clean_comps targ; k = length (longest_common_prefix b t)
      in if b = t then ''.'' else join [slash] (replicate (length b - k) ''..'' @ drop k t))"

definition relPath :: "gostring \<Rightarrow> gostring \<Rightarrow> gostring" where
  "relPath root p = Rel root p"


section \<open>Visited entries\<close>

text \<open>The entries a walk calls when nothing stops it; \<open>dec\<close> tells whether it goes on below an entry.\<close>

definition visits :: "filesys \<Rightarrow> (loc \<Rightarrow> node \<Rightarrow> bool) \<Rightarrow> loc list \<Rightarrow> loc list" where
  "visits fs dec ps = walk_list fs (\<lambda>p x acc. (if dec p x then Continue else SkipDir, acc @ [p])) ps []"

lemma walk_list_cases [case_names Nil None Some]:
  assumes "ps = [] \<Longrightarrow> P" "\<And>p ps'. ps = p # ps' \<Longrightarrow> node_at fs p = None \<Longrightarrow> P"
    "\<And>p ps' x. ps = p # ps' \<Longrightarrow> node_at fs p = Some x \<Longrightarrow> P"
  shows P
  using assms by (cases ps) auto

lemma walk_induct [case_names Nil None Some]:
  assumes "P []" "\<And>p ps. node_at fs p = None \<Longrightarrow> P ps \<Longrightarrow> P (p # ps)"
    "\<And>p ps x. node_at fs p = Some x \<Longrightarrow> P ps \<Longrightarrow> P (entries fs p @ ps) \<Longrightarrow> P (p # ps)"
  shows "P ps"
proof (rule wf_induct_rule [OF wf_inv_image [where f = "\<lambda>ps. mset (map (below fs) ps)", OF wf_mult [OF wf_less]]])
  fix ps
  assume IH: "\<And>qs. (qs, ps) \<in> inv_image (mult {(x, y). x < y}) (\<lambda>ps. mset (map (below fs) ps)) \<Longrightarrow> P qs"
  show "P ps"
  proof (cases rule: walk_list_cases [where ps = ps and fs = fs])
    case (None p ps')
    have "P ps'" by (rule IH) (use None add_smaller [of "{#}"] in simp)
    with None assms(2) show ?thesis by simp
  next
    case (Some p ps' x)
    have "P ps'" by (rule IH) (use Some add_smaller [of "{#}"] in simp)
    moreover have "P (entries fs p @ ps')"
      by (rule IH) (use Some in \<open>auto intro!: add_smaller entries_below\<close>)
    ultimately show ?thesis using Some assms(3) by simp
  qed (use assms(1) in simp)
qed

lemma walk_list_acc:
  fixes dec defines "fn \<equiv> \<lambda>p x acc. (if dec p x then Continue else SkipDir, acc @ [p])"
  shows "walk_list fs fn ps acc = acc @ walk_list fs fn ps []"
proof (induction ps arbitrary: acc rule: walk_induct [where fs = fs])
  case (None p ps)
  show ?case unfolding walk_list.simps(2) None.hyps option.case by (rule None.IH)
next
  case (Some p ps x)
  have "walk_list fs fn qs (acc @ [p]) = acc @ walk_list fs fn qs [p]"
    if "\<And>acc. walk_list fs fn qs acc = acc @ walk_list fs fn qs []" for qs
    using that [of "acc @ [p]"] that [of "[p]"] by simp
  from this [OF Some.IH(1)] this [OF Some.IH(2)] show ?case
    unfolding walk_list.simps(2) Some.hyps option.case fn_def by simp
qed simp

lemma visits_simps [simp]:
  "visits fs dec [] = []"
  "visits fs dec (p # ps) =
    (case node_at fs p of
       None \<Rightarrow> visits fs dec ps
     | Some x \<Rightarrow> p # visits fs dec ((if dec p x then entries fs p else []) @ ps))"
  using walk_list_acc [of fs dec _ "[p]"]
  by (simp_all add: visits_def walk_list.simps(2) split: option.split)

declare visits_simps(2) [simp del]

lemma visits_append: "visits fs dec (ps @ qs) = visits fs dec ps @ visits fs dec qs"
proof (induction ps rule: walk_induct [where fs = fs])
  case (Some p ps x)
  then show ?case by (simp add: visits_simps(2))
qed (simp_all add: visits_simps(2))

text \<open>A walk whose state only decides when to stop is a fold over the visited entries.\<close>

fun fold_until :: "('s \<Rightarrow> bool) \<Rightarrow> ('a \<Rightarrow> 's \<Rightarrow> 's) \<Rightarrow> 'a list \<Rightarrow> 's \<Rightarrow> 's" where
  "fold_until stop f [] s = s"
| "fold_until stop f (x # xs) s = (if stop s then s else fold_until stop f xs (f x s))"

lemma fold_until_stopped: "stop s \<Longrightarrow> fold_until stop f xs s = s"
  by (cases xs) auto

lemma fold_until_append: "fold_until stop f (xs @ ys) s = fold_until stop f ys (fold_until stop f xs s)"
  by (induction xs arbitrary: s) (auto simp: fold_until_stopped)

lemma walk_list_fold:
  assumes "\<And>p x s. node_at fs p = Some x \<Longrightarrow> fn p x s =
    (if stop s then (SkipAll, s) else (if dec p x then Continue else SkipDir, step p s))"
  shows "walk_list fs fn ps s = fold_until stop step (visits fs dec ps) s"
proof (induction ps arbitrary: s rule: walk_induct [where fs = fs])
  case (Some p ps x)
  then show ?case by (simp add: walk_list.simps(2) visits_simps(2) assms)
qed (simp_all add: walk_list.simps(2) visits_simps(2))

text \<open>Which entries are visited: those reached through directories that are not skipped.\<close>

inductive reach :: "filesys \<Rightarrow> (loc \<Rightarrow> node \<Rightarrow> bool) \<Rightarrow> loc \<Rightarrow> loc \<Rightarrow> bool" for fs dec where
  r_here: "node_at fs p \<noteq> None \<Longrightarrow> reach fs dec p p"
| r_below: "node_at fs p = Some x \<Longrightarrow> dec p x \<Longrightarrow> q \<in> set (entries fs p) \<Longrightarrow> reach fs dec q r \<Longrightarrow> reach fs dec p r"

inductive_simps reach_iff: "reach fs dec p r"

lemma mem_visits: "r \<in> set (visits fs dec ps) \<longleftrightarrow> (\<exists>p \<in> set ps. reach fs dec p r)"
proof (induction ps rule: walk_induct [where fs = fs])
  case (None p ps)
  have "\<not> reach fs dec p r" using None(1) by (subst reach_iff) auto
  with None show ?case by (simp add: visits_simps(2))
next
  case (Some p ps x)
  have "reach fs dec p r \<longleftrightarrow> r = p \<or> dec p x \<and> (\<exists>q \<in> set (entries fs p). reach fs dec q r)"
    using Some(1) by (subst reach_iff) auto
  with Some show ?case by (auto simp: visits_simps(2))
qed simp

lemma reach_prefix: "reach fs dec p r \<Longrightarrow> prefix p r \<and> node_at fs r \<noteq> None"
  by (induction rule: reach.induct) (auto simp: entries_def split: if_splits dest: append_prefixD)

text \<open>Every entry is visited once, in the lexical order of the paths.\<close>

definition lex_apart :: "loc \<Rightarrow> loc \<Rightarrow> bool" where
  "lex_apart p q \<longleftrightarrow> p < q \<and> \<not> prefix p q"

lemma lex_apart_Nil [simp]: "\<not> lex_apart [] q" "\<not> lex_apart p []"
  by (simp_all add: lex_apart_def)

lemma lex_apart_Cons [simp]: "lex_apart (a # p) (b # q) \<longleftrightarrow> a < b \<or> a = b \<and> lex_apart p q"
  unfolding lex_apart_def by auto

lemma lex_apart_append: "lex_apart p q \<Longrightarrow> lex_apart (p @ xs) (q @ ys)"
proof (induction p arbitrary: q)
  case (Cons a p)
  then show ?case by (cases q) auto
qed simp

lemma lex_apart_below: "lex_apart p q \<Longrightarrow> prefix p p' \<Longrightarrow> prefix q q' \<Longrightarrow> lex_apart p' q'"
  using lex_apart_append by (auto simp: prefix_def)

lemma lex_apart_snoc: "lex_apart (p @ [c]) (p @ [d]) \<longleftrightarrow> c < d"
  by (induction p) auto

lemma less_append: "(p :: loc) < p @ c # q"
  by (induction p) auto

lemma entries_lex_apart: "sorted_wrt lex_apart (entries fs p)"
proof -
  have "sorted_wrt (<) (children fs p)" by (simp add: children_def strict_sorted_iff)
  then have "sorted_wrt (\<lambda>c d. lex_apart (p @ [c]) (p @ [d])) (children fs p)"
    by (rule sorted_wrt_mono_rel [rotated]) (simp add: lex_apart_snoc)
  then show ?thesis by (simp add: entries_def sorted_wrt_map)
qed

lemma entry_lex_apart: "q \<in> set (entries fs p) \<Longrightarrow> lex_apart p r \<Longrightarrow> lex_apart q r"
  using lex_apart_append [of p r _ "[]"] by (auto simp: entries_def split: if_splits)

lemma visits_sorted: "sorted_wrt lex_apart ps \<Longrightarrow> sorted_wrt (<) (visits fs dec ps)"
proof (induction ps rule: walk_induct [where fs = fs])
  case (Some p ps x)
  let ?es = "if dec p x then entries fs p else []"
  have later: "\<forall>q \<in> set ps. lex_apart p q" using Some.prems by simp
  have "sorted_wrt lex_apart (entries fs p @ ps)"
    using Some.prems entries_lex_apart entry_lex_apart later by (simp add: sorted_wrt_append)
  then have "sorted_wrt (<) (visits fs dec (?es @ ps))" using Some.IH Some.prems by simp
  moreover have "p < r" if r: "r \<in> set (visits fs dec (?es @ ps))" for r
  proof -
    obtain q where "q \<in> set (?es @ ps)" "prefix q r" using r mem_visits reach_prefix by blast
    then have "(\<exists>c. q = p @ [c]) \<or> lex_apart p q" using later by (auto simp: entries_def split: if_splits)
    with \<open>prefix q r\<close> consider c where "prefix (p @ [c]) r" | "lex_apart p q" "prefix q r" by blast
    then show ?thesis
    proof cases
      case 1
      then show ?thesis using less_append by (auto simp: prefix_def)
    next
      case 2
      with lex_apart_below [of p q p r] show ?thesis by (simp add: lex_apart_def)
    qed
  qed
  ultimately show ?case using Some.hyps by (simp add: visits_simps(2))
qed (simp_all add: visits_simps(2))

lemma visits_distinct: "distinct (visits fs dec [p])"
  using visits_sorted [of "[p]" fs dec] by (simp add: strict_sorted_iff)


text \<open>The same for a callback that stops the walk by itself.\<close>

lemma walk_list_fold_after:
  assumes "\<And>p x s. node_at fs p = Some x \<Longrightarrow> \<not> stop s \<Longrightarrow> fn p x s =
    (if stop (step p s) then (SkipAll, step p s) else (if dec p x then Continue else SkipDir, step p s))" "\<not> stop s"
  shows "walk_list fs fn ps s = fold_until stop step (visits fs dec ps) s"
  using assms(2)
proof (induction ps arbitrary: s rule: walk_induct [where fs = fs])
  case (Some p ps x)
  then show ?case by (cases "stop (step p s)") (simp_all add: walk_list.simps(2) visits_simps(2) assms(1) fold_until_stopped)
qed (simp_all add: walk_list.simps(2) visits_simps(2))

end
