(* ===== verification/Search.thy ===== *)
theory Search
  imports Globs Walk_Tree Read_File
begin

text \<open>
  \<open>remote_search_content\<close> (\<open>searchops.go\<close>, lines 17 to 538): a pattern search over a file or a directory
  tree, in pages.  The clock is an oracle: \<open>late k\<close> tells whether the \<open>k\<close>-th look at it finds the deadline
  of the request passed.
\<close>

section \<open>Definitions\<close>

definition defaultSearchMaxResults :: nat where [go_defs]: "defaultSearchMaxResults = 200"
definition defaultSearchMaxFileSize :: nat where [go_defs]: "defaultSearchMaxFileSize = 268435456"
definition maxSearchResults :: nat where [go_defs]: "maxSearchResults = 5000"
definition maxSearchContext :: nat where [go_defs]: "maxSearchContext = 20"
definition maxSearchLineLen :: nat where [go_defs]: "maxSearchLineLen = 2000"
definition maxSearchOutputBytes :: nat where [go_defs]: "maxSearchOutputBytes = 65536"

datatype search_mode = SearchContentMode | SearchFilesMode | SearchCountMode

record SearchContentRequest =
  scPath :: gostring
  scPattern :: gostring
  scIncludeGlob :: "gostring list"
  scExcludeGlob :: "gostring list"
  scIgnoreCase :: bool
  scFixedStrings :: bool
  scOutputMode :: gostring
  scContextLines :: int
  scBeforeLines :: int
  scAfterLines :: int
  scMaxResults :: int
  scOffset :: int
  scMaxFileSize :: int
  scIncludeHidden :: bool
  scEncoding :: gostring

record SearchMatch =
  smFile :: gostring
  smLine :: nat
  smContent :: gostring
  smBefore :: "gostring list"
  smAfter :: "gostring list"

record SearchFile =
  sfFile :: gostring
  sfCount :: nat

datatype skip_reason = SkBinary | SkTooLarge | SkUnreadable | SkNotRegular | SkSymlinkDir | SkOutsideRoots | SkBrokenSymlink

record searchOpts =
  soPattern :: gostring
  soRe :: regexp
  soMode :: search_mode
  soInclude :: "globSet option"
  soExclude :: "globSet option"
  soBefore :: nat
  soAfter :: nat
  soMaxResults :: nat
  soSkip :: nat
  soMaxFileSize :: nat
  soEncoding :: gostring
  soHidden :: bool
  soRoots :: "gostring list"

datatype search_error =
    SPath path_error
  | SEmptyPattern
  | SBadPattern
  | SBadMode gostring
  | SIncludeGlob "gostring \<times> glob_error"
  | SExcludeGlob "gostring \<times> glob_error"
  | SEncoding enc_error
  | SSys fs_error

definition clampContext :: "int \<Rightarrow> nat" where
  "clampContext n = min (nat (max n 0)) maxSearchContext"

definition search_expr :: "SearchContentRequest \<Rightarrow> gostring" where
  "search_expr req =
     (let expr = (if scFixedStrings req then QuoteMeta (scPattern req) else scPattern req)
      in if scIgnoreCase req then ''(?i)'' @ expr else expr)"

definition output_mode :: "gostring \<Rightarrow> search_mode option" where
  "output_mode s =
     (if s = [] \<or> s = ''content'' then Some SearchContentMode
      else if s = ''files_with_matches'' then Some SearchFilesMode
      else if s = ''count'' then Some SearchCountMode else None)"

definition newSearchOpts ::
  "codec \<Rightarrow> compile \<Rightarrow> SearchContentRequest \<Rightarrow> gostring list \<Rightarrow> search_error + searchOpts" where
  "newSearchOpts cd rx req roots =
     (if TrimSpace (scPattern req) = [] then Inl SEmptyPattern
      else case rx (search_expr req) of
        None \<Rightarrow> Inl SBadPattern
      | Some re \<Rightarrow>
     (case output_mode (scOutputMode req) of
        None \<Rightarrow> Inl (SBadMode (scOutputMode req))
      | Some mode \<Rightarrow>
     (case compileGlobs rx (scIncludeGlob req) False of
        Inl e \<Rightarrow> Inl (SIncludeGlob e)
      | Inr inc \<Rightarrow>
     (case compileGlobs rx (scExcludeGlob req) False of
        Inl e \<Rightarrow> Inl (SExcludeGlob e)
      | Inr exc \<Rightarrow>
     (case (if scEncoding req = [] then Inr [] else decodeToUTF8 cd [] (scEncoding req)) of
        Inl e \<Rightarrow> Inl (SEncoding e)
      | Inr _ \<Rightarrow>
          Inr \<lparr>soPattern = scPattern req, soRe = re, soMode = mode, soInclude = inc, soExclude = exc,
            soBefore = clampContext (if 0 < scBeforeLines req then scBeforeLines req else scContextLines req),
            soAfter = clampContext (if 0 < scAfterLines req then scAfterLines req else scContextLines req),
            soMaxResults = min (if scMaxResults req \<le> 0 then defaultSearchMaxResults else nat (scMaxResults req)) maxSearchResults,
            soSkip = nat (max (scOffset req) 0),
            soMaxFileSize = (if scMaxFileSize req \<le> 0 then defaultSearchMaxFileSize else nat (scMaxFileSize req)),
            soEncoding = scEncoding req, soHidden = scIncludeHidden req, soRoots = roots\<rparr>)))))"

subsection \<open>The state of a search\<close>

datatype search_hint =
    TimeBudget nat
  | MoreResults nat
  | OutputCap
  | GnuPattern
  | NoGlobMatch
  | TooLargeSkipped nat nat
  | SymlinkDirsMet

record search_run =
  srSkipped :: nat
  srReturned :: nat
  srOut :: nat
  srStopped :: bool
  srTimedOut :: bool
  srTicks :: nat
  srTotal :: nat
  srFilesMatched :: nat
  srFilesSearched :: nat
  srFilesSkipped :: nat
  srReasons :: "skip_reason \<Rightarrow> nat"
  srSymlinkDirs :: "gostring list"
  srTruncated :: bool
  srNext :: nat
  srHints :: "search_hint list"
  srFiles :: "SearchFile list"
  srMatches :: "SearchMatch list"

definition new_search :: search_run where
  "new_search = \<lparr>srSkipped = 0, srReturned = 0, srOut = 0, srStopped = False, srTimedOut = False, srTicks = 0,
     srTotal = 0, srFilesMatched = 0, srFilesSearched = 0, srFilesSkipped = 0, srReasons = (\<lambda>_. 0),
     srSymlinkDirs = [], srTruncated = False, srNext = 0, srHints = [], srFiles = [], srMatches = []\<rparr>"

definition search_skip :: "skip_reason \<Rightarrow> search_run \<Rightarrow> search_run" where
  "search_skip r s = s\<lparr>srReasons := (srReasons s)(r := Suc (srReasons s r)), srFilesSkipped := Suc (srFilesSkipped s)\<rparr>"

definition full :: "searchOpts \<Rightarrow> search_run \<Rightarrow> bool" where
  "full opt s \<longleftrightarrow> soMaxResults opt \<le> srReturned s \<or> maxSearchOutputBytes \<le> srOut s"

definition search_stop :: "searchOpts \<Rightarrow> search_run \<Rightarrow> search_run" where
  "search_stop opt s = s\<lparr>srStopped := True, srTruncated := True, srNext := soSkip opt + srReturned s\<rparr>"

definition pastDeadline :: "(nat \<Rightarrow> bool) \<Rightarrow> search_run \<Rightarrow> bool \<times> search_run" where
  "pastDeadline late s =
     (let s' = s\<lparr>srTicks := Suc (srTicks s)\<rparr>
      in if late (srTicks s) then (True, s'\<lparr>srStopped := True, srTimedOut := True, srTruncated := True\<rparr>) else (False, s'))"

definition addFile :: "searchOpts \<Rightarrow> gostring \<Rightarrow> nat \<Rightarrow> search_run \<Rightarrow> search_run" where
  "addFile opt path cnt s =
     (if full opt s then search_stop opt s
      else
        (let s = s\<lparr>srFilesMatched := Suc (srFilesMatched s), srTotal := srTotal s + cnt\<rparr>
         in if srSkipped s < soSkip opt then s\<lparr>srSkipped := Suc (srSkipped s)\<rparr>
            else s\<lparr>srFiles := srFiles s @ [\<lparr>sfFile = path, sfCount = cnt\<rparr>], srOut := srOut s + length path + 16,
                    srReturned := Suc (srReturned s)\<rparr>))"

subsection \<open>One file\<close>

text \<open>The lines kept for context, the index of the match that collects lines after it, how many it still
  takes, the last line shown, and the matching lines so far.\<close>

record line_scan =
  lsRing :: "(nat \<times> gostring) list"
  lsCur :: "nat option"
  lsAfterLeft :: nat
  lsEmitted :: nat
  lsCount :: nat

datatype line_ctl = LineGo | LineBreak | LineReturn

definition search_excerpt :: "regexp option \<Rightarrow> gostring \<Rightarrow> gostring" where
  "search_excerpt re text =
     excerpt text (case re of None \<Rightarrow> None | Some r \<Rightarrow> map_option fst (r text)) maxSearchLineLen"

definition before_lines :: "searchOpts \<Rightarrow> nat \<Rightarrow> line_scan \<Rightarrow> gostring list" where
  "before_lines opt n l =
     map snd (filter (\<lambda>(k, t). lsEmitted l < k \<and> n - soBefore opt \<le> k) (lsRing l))"

definition take_match ::
  "searchOpts \<Rightarrow> gostring \<Rightarrow> nat \<Rightarrow> gostring \<Rightarrow> search_run \<Rightarrow> line_scan \<Rightarrow> search_run \<times> line_scan" where
  "take_match opt path n text s l =
     (let bs = before_lines opt n l;
          m = \<lparr>smFile = path, smLine = n, smContent = search_excerpt (Some (soRe opt)) text, smBefore = bs, smAfter = []\<rparr>
      in (s\<lparr>srMatches := srMatches s @ [m], srOut := srOut s + sum_list (map length bs) + length (smContent m),
            srReturned := Suc (srReturned s)\<rparr>,
          l\<lparr>lsCur := Some (length (srMatches s)), lsEmitted := n, lsAfterLeft := soAfter opt\<rparr>))"

text \<open>A line that matches.\<close>

definition match_line ::
  "searchOpts \<Rightarrow> gostring \<Rightarrow> nat \<Rightarrow> gostring \<Rightarrow> search_run \<Rightarrow> line_scan \<Rightarrow> line_ctl \<times> search_run \<times> line_scan" where
  "match_line opt path n text s l =
     (if soMode opt = SearchContentMode \<and> full opt s then (LineBreak, search_stop opt s, l)
      else
        (let l = l\<lparr>lsCount := Suc (lsCount l)\<rparr> in
         case soMode opt of
           SearchFilesMode \<Rightarrow> (LineReturn, addFile opt path 0 s, l)
         | SearchCountMode \<Rightarrow> (LineGo, s, l)
         | SearchContentMode \<Rightarrow>
             if srSkipped s < soSkip opt
             then (LineGo, s\<lparr>srSkipped := Suc (srSkipped s)\<rparr>, l\<lparr>lsAfterLeft := 0\<rparr>)
             else (LineGo, take_match opt path n text s l)))"

text \<open>A line that does not.\<close>

definition other_line :: "gostring \<Rightarrow> nat \<Rightarrow> search_run \<Rightarrow> line_scan \<Rightarrow> search_run \<times> line_scan" where
  "other_line text n s l =
     (case lsCur l of
        Some i \<Rightarrow>
          if 0 < lsAfterLeft l then
            (let c = search_excerpt None text
             in (s\<lparr>srMatches := (srMatches s)[i := (srMatches s ! i)\<lparr>smAfter := smAfter (srMatches s ! i) @ [c]\<rparr>],
                   srOut := srOut s + length c\<rparr>,
                 l\<lparr>lsEmitted := n, lsAfterLeft := lsAfterLeft l - 1\<rparr>))
          else (s, l)
      | None \<Rightarrow> (s, l))"

definition push_ring :: "searchOpts \<Rightarrow> nat \<Rightarrow> gostring \<Rightarrow> line_scan \<Rightarrow> line_scan" where
  "push_ring opt n text l =
     (if 0 < soBefore opt \<and> soMode opt = SearchContentMode
      then l\<lparr>lsRing := (if length (lsRing l) = soBefore opt then tl (lsRing l) else lsRing l) @ [(n, search_excerpt None text)]\<rparr>
      else l)"

definition search_line ::
  "searchOpts \<Rightarrow> gostring \<Rightarrow> nat \<Rightarrow> gostring \<Rightarrow> search_run \<Rightarrow> line_scan \<Rightarrow> line_ctl \<times> search_run \<times> line_scan" where
  "search_line opt path n text s l =
     (case (if MatchString (soRe opt) text then match_line opt path n text s l
            else case other_line text n s l of (s, l) \<Rightarrow> (LineGo, s, l)) of
        (ctl, s, l) \<Rightarrow> (ctl, s, if ctl = LineGo then push_ring opt n text l else l))"

lemma readCappedLine_more:
  assumes "readCappedLine rest = (line, used, rest', eof)" "\<not> eof"
  shows "length rest' < length rest"
proof -
  have "used \<noteq> 0"
    using assms raw_lines_not_Nil [of "hd (raw_lines rest)" rest]
    by (cases "raw_lines rest") (auto simp: readCappedLine_lines)
  with readCappedLine_shorter [OF assms(1)] show ?thesis by blast
qed

function search_lines ::
  "codec \<Rightarrow> (nat \<Rightarrow> bool) \<Rightarrow> searchOpts \<Rightarrow> gostring \<Rightarrow> gostring \<Rightarrow> bytes \<Rightarrow> nat \<Rightarrow> search_run \<Rightarrow> line_scan \<Rightarrow>
   bool \<times> search_run \<times> line_scan" where
  "search_lines cd late opt path enc rest n s l =
     (if srStopped s then (False, s, l)
      else
        (case readCappedLine rest of
           (line, used, rest', eof) \<Rightarrow>
             if used = 0 \<and> eof then (False, s, l)
             else
               (case (if n mod 4096 = 0 then pastDeadline late s else (False, s)) of
                  (True, s) \<Rightarrow> (False, s, l)
                | (False, s) \<Rightarrow>
                    (case search_line opt path n (decodeLine cd line enc (soEncoding opt)) s l of
                       (LineBreak, s, l) \<Rightarrow> (False, s, l)
                     | (LineReturn, s, l) \<Rightarrow> (True, s, l)
                     | (LineGo, s, l) \<Rightarrow>
                         if eof then (False, s, l)
                         else search_lines cd late opt path enc rest' (Suc n) s l))))"
  by pat_completeness auto
termination
  by (relation "measure (\<lambda>(cd, late, opt, path, enc, rest, _). length rest)")
    (auto dest: readCappedLine_more [OF sym])

declare search_lines.simps [simp del]

definition search_body ::
  "codec \<Rightarrow> (nat \<Rightarrow> bool) \<Rightarrow> searchOpts \<Rightarrow> gostring \<Rightarrow> gostring \<Rightarrow> bytes \<Rightarrow> search_run \<Rightarrow> search_run" where
  "search_body cd late opt path enc f s =
     (case search_lines cd late opt path enc f 1 (s\<lparr>srFilesSearched := Suc (srFilesSearched s)\<rparr>)
             \<lparr>lsRing = [], lsCur = None, lsAfterLeft = 0, lsEmitted = 0, lsCount = 0\<rparr> of
        (returned, s, l) \<Rightarrow>
          if returned \<or> lsCount l = 0 then s
          else (case soMode opt of
                  SearchCountMode \<Rightarrow> addFile opt path (lsCount l) s
                | SearchContentMode \<Rightarrow>
                    s\<lparr>srFilesMatched := Suc (srFilesMatched s), srTotal := srTotal s + lsCount l\<rparr>
                | SearchFilesMode \<Rightarrow> s))"

definition searchFile ::
  "codec \<Rightarrow> (nat \<Rightarrow> bool) \<Rightarrow> searchOpts \<Rightarrow> gostring \<Rightarrow> node \<Rightarrow> search_run \<Rightarrow> search_run" where
  "searchFile cd late opt path info s =
     (case info of
        NFile f m \<Rightarrow>
          if soMaxFileSize opt < length f then search_skip SkTooLarge s
          else
            (case pastDeadline late s of
               (True, s) \<Rightarrow> s
             | (False, s) \<Rightarrow>
                 (let head = take readerSize f in
                  if looksBinary head then search_skip SkBinary s
                  else search_body cd late opt path (if soEncoding opt = [] then detectEncoding head else soEncoding opt) f s))
      | _ \<Rightarrow> search_skip SkNotRegular s)"

subsection \<open>The tree\<close>

definition insideRoots :: "filesys \<Rightarrow> searchOpts \<Rightarrow> gostring \<Rightarrow> bool" where
  "insideRoots fs opt p = (case validatePath fs p (soRoots opt) of Inl _ \<Rightarrow> False | Inr _ \<Rightarrow> True)"

definition excluded :: "searchOpts \<Rightarrow> gostring \<Rightarrow> gostring \<Rightarrow> gostring \<Rightarrow> bool" where
  "excluded opt root p name \<longleftrightarrow>
     \<not> soHidden opt \<and> isHiddenName name \<or> matchAny (soExclude opt) name (relPath root p) p"

definition is_link :: "node \<Rightarrow> bool" where
  "is_link x = (case x of NLink _ \<Rightarrow> True | _ \<Rightarrow> False)"

definition dir_node :: "node \<Rightarrow> bool" where
  "dir_node x = (case x of NDir _ \<Rightarrow> True | _ \<Rightarrow> False)"

text \<open>An entry that is not a directory and not excluded.\<close>

definition search_entry ::
  "codec \<Rightarrow> (nat \<Rightarrow> bool) \<Rightarrow> filesys \<Rightarrow> searchOpts \<Rightarrow> gostring \<Rightarrow> gostring \<Rightarrow> gostring \<Rightarrow> bool \<Rightarrow> search_run \<Rightarrow> search_run" where
  "search_entry cd late fs opt root p name isLink s =
     (case Stat fs (clean_comps p) of
        Inr info \<Rightarrow>
          if isLink \<and> dir_node info then
            (if \<not> insideRoots fs opt p then search_skip SkOutsideRoots s
             else (let s = search_skip SkSymlinkDir s
                   in if length (srSymlinkDirs s) < 20 then s\<lparr>srSymlinkDirs := srSymlinkDirs s @ [p]\<rparr> else s))
          else if \<not> glob_match (soInclude opt) name (relPath root p) p then s
          else if isLink \<and> \<not> insideRoots fs opt p then search_skip SkOutsideRoots s
          else searchFile cd late opt p info s
      | Inl _ \<Rightarrow>
          if \<not> glob_match (soInclude opt) name (relPath root p) p then s
          else search_skip (if isLink then SkBrokenSymlink else SkUnreadable) s)"

definition search_visit ::
  "codec \<Rightarrow> (nat \<Rightarrow> bool) \<Rightarrow> filesys \<Rightarrow> searchOpts \<Rightarrow> gostring \<Rightarrow> gostring \<Rightarrow> loc \<Rightarrow> node \<Rightarrow> search_run \<Rightarrow>
   walk_ctl \<times> search_run" where
  "search_visit cd late fs opt root p q x s =
     (if srStopped s then (SkipAll, s)
      else if p = root then (Continue, s)
      else if excluded opt root p (last q) then (if dir_node x then SkipDir else Continue, s)
      else if dir_node x then (Continue, s)
      else (Continue, search_entry cd late fs opt root p (last q) (is_link x) s))"

definition search_walk ::
  "codec \<Rightarrow> (nat \<Rightarrow> bool) \<Rightarrow> filesys \<Rightarrow> searchOpts \<Rightarrow> gostring \<Rightarrow> search_run \<Rightarrow> search_run" where
  "search_walk cd late fs opt root s = walkTree fs root (search_visit cd late fs opt root) s"

definition search_finish :: "searchOpts \<Rightarrow> search_run \<Rightarrow> search_run" where
  "search_finish opt s =
     s\<lparr>srNext := (if srTimedOut s then 0 else srNext s),
       srHints :=
         (if srTimedOut s then [TimeBudget (srFilesSearched s)]
          else if srTruncated s then
            MoreResults (srNext s) # (if maxSearchOutputBytes \<le> srOut s then [OutputCap] else [])
          else if srFilesMatched s = 0 then
            (if patternHint (soPattern opt) then [GnuPattern] else []) @
            (if srFilesSearched s = 0 \<and> srFilesSkipped s = 0 \<and> (soInclude opt \<noteq> None \<or> soExclude opt \<noteq> None)
             then [NoGlobMatch] else [])
          else []) @
         (if 0 < srReasons s SkTooLarge then [TooLargeSkipped (srReasons s SkTooLarge) (soMaxFileSize opt)] else []) @
         (if srSymlinkDirs s \<noteq> [] then [SymlinkDirsMet] else [])\<rparr>"

definition SearchContent ::
  "codec \<Rightarrow> compile \<Rightarrow> (nat \<Rightarrow> bool) \<Rightarrow> SearchContentRequest \<Rightarrow> gostring list \<Rightarrow> filesys \<Rightarrow> search_error + search_run" where
  "SearchContent cd rx late req roots fs =
     (case validatePath fs (scPath req) roots of
        Inl e \<Rightarrow> Inl (SPath e)
      | Inr ap \<Rightarrow>
     (case newSearchOpts cd rx req roots of
        Inl e \<Rightarrow> Inl e
      | Inr opt \<Rightarrow>
     (case Stat fs (clean_comps ap) of
        Inl e \<Rightarrow> Inl (SSys e)
      | Inr info \<Rightarrow>
          Inr (search_finish opt
                (if dir_node info then search_walk cd late fs opt ap new_search
                 else searchFile cd late opt ap info new_search)))))"


section \<open>The lines of one file\<close>

lemma pastDeadline_never [simp]: "pastDeadline (\<lambda>_. False) s = (False, s\<lparr>srTicks := Suc (srTicks s)\<rparr>)"
  by (simp add: pastDeadline_def)

lemma search_lines_end [simp]: "search_lines cd late opt path enc [] n s l = (False, s, l)"
  by (subst search_lines.simps) (simp add: readCappedLine_lines)

lemma search_lines_stopped [simp]: "srStopped s \<Longrightarrow> search_lines cd late opt path enc rest n s l = (False, s, l)"
  by (subst search_lines.simps) simp

text \<open>Without a deadline the loop takes the lines of the file one by one.\<close>

lemma search_lines_Cons:
  assumes "raw_lines rest = x # xs" "\<not> srStopped s"
  shows "search_lines cd (\<lambda>_. False) opt path enc rest n s l =
    (case search_line opt path n (decodeLine cd (chop_line x) enc (soEncoding opt))
            (if n mod 4096 = 0 then s\<lparr>srTicks := Suc (srTicks s)\<rparr> else s) l of
       (LineBreak, s, l) \<Rightarrow> (False, s, l)
     | (LineReturn, s, l) \<Rightarrow> (True, s, l)
     | (LineGo, s, l) \<Rightarrow> search_lines cd (\<lambda>_. False) opt path enc (concat xs) (Suc n) s l)"
proof -
  have x: "length x \<noteq> 0" "last x \<noteq> nl \<Longrightarrow> concat xs = []"
    using raw_lines_tail(2,3) [OF assms(1)] by simp_all
  have read: "readCappedLine rest = (chop_line x, length x, concat xs, last x \<noteq> nl)"
    by (simp add: readCappedLine_lines assms(1))
  define s1 where "s1 = (if n mod 4096 = 0 then s\<lparr>srTicks := Suc (srTicks s)\<rparr> else s)"
  have past: "(if n mod 4096 = 0 then pastDeadline (\<lambda>_. False) s else (False, s)) = (False, s1)"
    by (simp add: s1_def)
  obtain ctl s' l' where line: "search_line opt path n (decodeLine cd (chop_line x) enc (soEncoding opt)) s1 l = (ctl, s', l')"
    by (metis prod_cases3)
  note step = search_lines.simps [of cd "\<lambda>_. False" opt path enc rest n s l, unfolded read prod.case past line]
  show ?thesis unfolding step s1_def [symmetric] line using assms(2) x by (cases ctl) (auto simp del: concat_eq_Nil_conv)
qed

section \<open>Results and pages\<close>

datatype search_result = ResultLine gostring nat gostring | ResultFile gostring nat

definition results :: "searchOpts \<Rightarrow> search_run \<Rightarrow> search_result list" where
  "results opt s =
     (if soMode opt = SearchContentMode
      then map (\<lambda>m. ResultLine (smFile m) (smLine m) (smContent m)) (srMatches s)
      else map (\<lambda>f. ResultFile (sfFile f) (sfCount f)) (srFiles s))"

text \<open>A page being filled, after the results \<open>R\<close> have been met, and a page that is full and knows of one
  more result.\<close>

definition page_ok :: "searchOpts \<Rightarrow> search_result list \<Rightarrow> search_run \<Rightarrow> bool" where
  "page_ok opt R s \<longleftrightarrow> \<not> srStopped s \<and> \<not> srTruncated s \<and> \<not> srTimedOut s \<and>
     results opt s = drop (soSkip opt) R \<and> srSkipped s = min (soSkip opt) (length R) \<and>
     srReturned s = length R - soSkip opt \<and> (0 < srOut s \<longrightarrow> 0 < srReturned s)"

definition page_full :: "searchOpts \<Rightarrow> search_result list \<Rightarrow> search_run \<Rightarrow> bool" where
  "page_full opt R s \<longleftrightarrow> srStopped s \<and> srTruncated s \<and> \<not> srTimedOut s \<and> 0 < srReturned s \<and>
     srNext s = soSkip opt + srReturned s \<and> srNext s < length R \<and>
     results opt s = take (srReturned s) (drop (soSkip opt) R)"

lemma page_full_more: "page_full opt R s \<Longrightarrow> page_full opt (R @ R') s"
  by (auto simp: page_full_def)

lemma search_stop_page:
  assumes "page_ok opt R s" "full opt s" "0 < soMaxResults opt"
  shows "page_full opt (R @ [r]) (search_stop opt s)"
proof -
  have "0 < srReturned s" using assms by (auto simp: full_def page_ok_def maxSearchOutputBytes_def)
  with assms(1) show ?thesis by (auto simp: page_full_def page_ok_def search_stop_def results_def)
qed

lemma addFile_page:
  assumes "page_ok opt R s" "0 < soMaxResults opt" "soMode opt \<noteq> SearchContentMode"
  shows "page_ok opt (R @ [ResultFile path cnt]) (addFile opt path cnt s) \<or>
    page_full opt (R @ [ResultFile path cnt]) (addFile opt path cnt s)"
proof (cases "full opt s")
  case True
  with search_stop_page [OF assms(1) True assms(2)] show ?thesis by (simp add: addFile_def)
next
  case False
  with assms show ?thesis by (auto simp: addFile_def page_ok_def results_def Let_def min_def)
qed

text \<open>The bookkeeping that does not touch the page.\<close>

lemma page_ok_frame [simp]:
  "page_ok opt R (s\<lparr>srTicks := t\<rparr>) = page_ok opt R s"
  "page_ok opt R (s\<lparr>srFilesSearched := a\<rparr>) = page_ok opt R s"
  "page_ok opt R (s\<lparr>srFilesMatched := a, srTotal := b\<rparr>) = page_ok opt R s"
  "page_full opt R (s\<lparr>srFilesMatched := a, srTotal := b\<rparr>) = page_full opt R s"
  "page_ok opt R (s\<lparr>srSymlinkDirs := c\<rparr>) = page_ok opt R s"
  "page_ok opt R (search_skip k s) = page_ok opt R s"
  by (simp_all add: page_ok_def page_full_def results_def search_skip_def)

definition line_texts :: "codec \<Rightarrow> gostring \<Rightarrow> gostring \<Rightarrow> bytes \<Rightarrow> gostring list" where
  "line_texts cd enc forced f = map (\<lambda>x. decodeLine cd (chop_line x) enc forced) (raw_lines f)"

definition hits :: "regexp \<Rightarrow> nat \<Rightarrow> gostring list \<Rightarrow> (nat \<times> gostring) list" where
  "hits re n ts = filter (\<lambda>(k, t). MatchString re t) (enumerate n ts)"

lemma hits_simps [simp]:
  "hits re n [] = []"
  "hits re n (t # ts) = (if MatchString re t then (n, t) # hits re (Suc n) ts else hits re (Suc n) ts)"
  by (simp_all add: hits_def)

definition line_result :: "searchOpts \<Rightarrow> gostring \<Rightarrow> nat \<times> gostring \<Rightarrow> search_result" where
  "line_result opt path = (\<lambda>(n, t). ResultLine path n (search_excerpt (Some (soRe opt)) t))"

lemma map_update_same:
  "(map (\<lambda>m. ResultLine (smFile m) (smLine m) (smContent m)) ms)
     [i := ResultLine (smFile (ms ! i)) (smLine (ms ! i)) (smContent (ms ! i))] =
   map (\<lambda>m. ResultLine (smFile m) (smLine m) (smContent m)) ms"
  using map_update [of "\<lambda>m. ResultLine (smFile m) (smLine m) (smContent m)" ms i "ms ! i"] by simp

text \<open>One line in content mode.\<close>

lemma search_line_content:
  assumes "soMode opt = SearchContentMode" "page_ok opt R s" "0 < soMaxResults opt" "lsCur l \<noteq> None \<longrightarrow> 0 < srReturned s"
    "search_line opt path n text s l = (ctl, s', l')"
    "R' = R @ (if MatchString (soRe opt) text then [line_result opt path (n, text)] else [])"
  shows "ctl = LineBreak \<and> page_full opt R' s' \<or> ctl = LineGo \<and> page_ok opt R' s' \<and> (lsCur l' \<noteq> None \<longrightarrow> 0 < srReturned s')"
proof (cases "MatchString (soRe opt) text")
  case True
  show ?thesis
  proof (cases "full opt s")
    case full: True
    with assms True search_stop_page [OF assms(2) full assms(3)] show ?thesis
      by (auto simp: search_line_def match_line_def)
  next
    case False
    show ?thesis
    proof (cases "srSkipped s < soSkip opt")
      case skip: True
      then have "ctl = LineGo" "s' = s\<lparr>srSkipped := Suc (srSkipped s)\<rparr>" "lsCur l' = lsCur l"
        using assms(1,5) True False by (auto simp: search_line_def match_line_def push_ring_def)
      with assms(2,4,6) True skip show ?thesis by (auto simp: page_ok_def results_def min_def)
    next
      case take: False
      let ?m = "\<lparr>smFile = path, smLine = n, smContent = search_excerpt (Some (soRe opt)) text,
        smBefore = before_lines opt n (l\<lparr>lsCount := Suc (lsCount l)\<rparr>), smAfter = []\<rparr>"
      have s': "ctl = LineGo" "srMatches s' = srMatches s @ [?m]" "srReturned s' = Suc (srReturned s)"
        "srStopped s' = srStopped s" "srTruncated s' = srTruncated s" "srTimedOut s' = srTimedOut s" "srSkipped s' = srSkipped s"
        using assms(1,5) True False take by (auto simp: search_line_def match_line_def take_match_def Let_def)
      with assms(1,2,6) True take show ?thesis
        by (auto simp: page_ok_def results_def line_result_def min_def split: if_splits)
    qed
  qed
next
  case False
  have s': "ctl = LineGo" "srReturned s' = srReturned s" "srStopped s' = srStopped s" "srTruncated s' = srTruncated s"
    "srTimedOut s' = srTimedOut s" "srSkipped s' = srSkipped s" "results opt s' = results opt s" "lsCur l' = lsCur l"
    "lsCur l = None \<longrightarrow> srOut s' = srOut s"
    using assms(1,5) False
    by (auto simp: search_line_def other_line_def push_ring_def results_def Let_def map_update map_update_same
        split: option.splits if_splits)
  with assms(2,4,6) False show ?thesis by (auto simp: page_ok_def)
qed


lemma search_lines_content:
  assumes "soMode opt = SearchContentMode" "0 < soMaxResults opt" "raw_lines rest = xs" "page_ok opt R s"
    "lsCur l \<noteq> None \<longrightarrow> 0 < srReturned s"
    "search_lines cd (\<lambda>_. False) opt path enc rest n s l = (ret, s', l')"
    "R' = R @ map (line_result opt path) (hits (soRe opt) n (map (\<lambda>x. decodeLine cd (chop_line x) enc (soEncoding opt)) xs))"
  shows "\<not> ret \<and> (page_ok opt R' s' \<or> page_full opt R' s')"
  using assms(3-7)
proof (induction xs arbitrary: rest R s l n)
  case (Cons x xs)
  let ?text = "decodeLine cd (chop_line x) enc (soEncoding opt)"
  define s1 where "s1 = (if n mod 4096 = 0 then s\<lparr>srTicks := Suc (srTicks s)\<rparr> else s)"
  define R1 where "R1 = R @ (if MatchString (soRe opt) ?text then [line_result opt path (n, ?text)] else [])"
  obtain ctl s2 l2 where line: "search_line opt path n ?text s1 l = (ctl, s2, l2)" by (metis prod_cases3)
  have s1: "page_ok opt R s1" "lsCur l \<noteq> None \<longrightarrow> 0 < srReturned s1" using Cons.prems(2,3) by (simp_all add: s1_def)
  have R': "R' = R1 @ map (line_result opt path)
      (hits (soRe opt) (Suc n) (map (\<lambda>x. decodeLine cd (chop_line x) enc (soEncoding opt)) xs))"
    using Cons.prems(5) by (simp add: R1_def)
  have run: "(ret, s', l') = (case (ctl, s2, l2) of
       (LineBreak, s, l) \<Rightarrow> (False, s, l)
     | (LineReturn, s, l) \<Rightarrow> (True, s, l)
     | (LineGo, s, l) \<Rightarrow> search_lines cd (\<lambda>_. False) opt path enc (concat xs) (Suc n) s l)"
    using search_lines_Cons [OF Cons.prems(1), of s cd opt path enc n l] Cons.prems(2,4) line
    by (simp add: page_ok_def s1_def)
  from search_line_content [OF assms(1) s1(1) assms(2) s1(2) line R1_def] show ?case
  proof (elim disjE conjE)
    assume "ctl = LineBreak" "page_full opt R1 s2"
    with run page_full_more R' show ?thesis by auto
  next
    assume "ctl = LineGo" and s2: "page_ok opt R1 s2" "lsCur l2 \<noteq> None \<longrightarrow> 0 < srReturned s2"
    with run have "search_lines cd (\<lambda>_. False) opt path enc (concat xs) (Suc n) s2 l2 = (ret, s', l')" by simp
    from Cons.IH [OF raw_lines_tail(1) [OF Cons.prems(1)] s2 this R'] show ?thesis .
  qed
qed auto

lemma search_lines_count:
  assumes "soMode opt = SearchCountMode" "raw_lines rest = xs" "page_ok opt R s" "lsCur l = None"
    "search_lines cd (\<lambda>_. False) opt path enc rest n s l = (ret, s', l')"
  shows "\<not> ret \<and> page_ok opt R s' \<and> lsCount l' =
    lsCount l + length (hits (soRe opt) n (map (\<lambda>x. decodeLine cd (chop_line x) enc (soEncoding opt)) xs))"
  using assms(2-5)
proof (induction xs arbitrary: rest s l n)
  case (Cons x xs)
  let ?text = "decodeLine cd (chop_line x) enc (soEncoding opt)"
  define s1 where "s1 = (if n mod 4096 = 0 then s\<lparr>srTicks := Suc (srTicks s)\<rparr> else s)"
  obtain ctl s2 l2 where line: "search_line opt path n ?text s1 l = (ctl, s2, l2)" by (metis prod_cases3)
  have s1: "page_ok opt R s1" using Cons.prems(2) by (simp add: s1_def)
  have l2: "ctl = LineGo" "lsCount l2 = (if MatchString (soRe opt) ?text then Suc (lsCount l) else lsCount l)"
    "page_ok opt R s2" "lsCur l2 = None"
    using line assms(1) s1 Cons.prems(3)
    by (auto simp: search_line_def match_line_def other_line_def push_ring_def Let_def page_ok_def results_def
        split: option.splits if_splits)
  have "search_lines cd (\<lambda>_. False) opt path enc (concat xs) (Suc n) s2 l2 = (ret, s', l')"
    using search_lines_Cons [OF Cons.prems(1), of s cd opt path enc n l] Cons.prems(2,4) line l2(1)
    by (simp add: page_ok_def s1_def)
  from Cons.IH [OF raw_lines_tail(1) [OF Cons.prems(1)] l2(3,4) this] l2(2) show ?case by simp
qed auto

lemma search_lines_files:
  assumes "soMode opt = SearchFilesMode" "raw_lines rest = xs" "page_ok opt R s" "lsCur l = None" "0 < soMaxResults opt"
    "search_lines cd (\<lambda>_. False) opt path enc rest n s l = (ret, s', l')"
    "found = (hits (soRe opt) n (map (\<lambda>x. decodeLine cd (chop_line x) enc (soEncoding opt)) xs) \<noteq> [])"
  shows "if found then ret \<and> (page_ok opt (R @ [ResultFile path 0]) s' \<or> page_full opt (R @ [ResultFile path 0]) s')
    else page_ok opt R s' \<and> \<not> ret \<and> lsCount l' = lsCount l"
  using assms(2,3,4,6,7)
proof (induction xs arbitrary: rest s l n)
  case (Cons x xs)
  let ?text = "decodeLine cd (chop_line x) enc (soEncoding opt)"
  define s1 where "s1 = (if n mod 4096 = 0 then s\<lparr>srTicks := Suc (srTicks s)\<rparr> else s)"
  obtain ctl s2 l2 where line: "search_line opt path n ?text s1 l = (ctl, s2, l2)" by (metis prod_cases3)
  have s1: "page_ok opt R s1" using Cons.prems(2) by (simp add: s1_def)
  note step = search_lines_Cons [OF Cons.prems(1), of s cd opt path enc n l, folded s1_def, unfolded line]
  have go: "\<not> srStopped s" using Cons.prems(2) by (simp add: page_ok_def)
  show ?case
  proof (cases "MatchString (soRe opt) ?text")
    case True
    then have "ctl = LineReturn" "s2 = addFile opt path 0 s1"
      using line assms(1) by (auto simp: search_line_def match_line_def Let_def)
    with True step go Cons.prems(4,5) addFile_page [OF s1 assms(5), of path 0] assms(1) show ?thesis by auto
  next
    case False
    have l2: "ctl = LineGo" "lsCount l2 = lsCount l" "page_ok opt R s2" "lsCur l2 = None"
      using line assms(1) s1 False Cons.prems(3)
      by (auto simp: search_line_def other_line_def push_ring_def Let_def page_ok_def results_def
          split: option.splits if_splits)
    have "search_lines cd (\<lambda>_. False) opt path enc (concat xs) (Suc n) s2 l2 = (ret, s', l')"
      using step go Cons.prems(4) l2(1) by simp
    from Cons.IH [OF raw_lines_tail(1) [OF Cons.prems(1)] l2(3,4) this] l2(2) False Cons.prems(5) show ?thesis by simp
  qed
qed auto

section \<open>What a search finds\<close>

definition file_results :: "searchOpts \<Rightarrow> gostring \<Rightarrow> gostring list \<Rightarrow> search_result list" where
  "file_results opt path ts =
     (let hs = hits (soRe opt) 1 ts in
      case soMode opt of
        SearchContentMode \<Rightarrow> map (line_result opt path) hs
      | SearchFilesMode \<Rightarrow> if hs = [] then [] else [ResultFile path 0]
      | SearchCountMode \<Rightarrow> if hs = [] then [] else [ResultFile path (length hs)])"

definition file_encoding :: "searchOpts \<Rightarrow> bytes \<Rightarrow> gostring" where
  "file_encoding opt f = (if soEncoding opt = [] then detectEncoding (take readerSize f) else soEncoding opt)"

definition file_found :: "codec \<Rightarrow> searchOpts \<Rightarrow> gostring \<Rightarrow> node \<Rightarrow> search_result list" where
  "file_found cd opt path info =
     (case info of
        NFile f m \<Rightarrow>
          if soMaxFileSize opt < length f \<or> looksBinary (take readerSize f) then []
          else file_results opt path (line_texts cd (file_encoding opt f) (soEncoding opt) f)
      | _ \<Rightarrow> [])"

lemma search_body_page:
  assumes "page_ok opt R s" "0 < soMaxResults opt"
    "R' = R @ file_results opt path (line_texts cd enc (soEncoding opt) f)"
    "s' = search_body cd (\<lambda>_. False) opt path enc f s"
  shows "page_ok opt R' s' \<or> page_full opt R' s'"
proof -
  let ?s = "s\<lparr>srFilesSearched := Suc (srFilesSearched s)\<rparr>"
  let ?l = "\<lparr>lsRing = [], lsCur = None, lsAfterLeft = 0, lsEmitted = 0, lsCount = 0\<rparr>"
  obtain ret s1 l1 where run: "search_lines cd (\<lambda>_. False) opt path enc f 1 ?s ?l = (ret, s1, l1)" by (metis prod_cases3)
  have s: "page_ok opt R ?s" using assms(1) by simp
  note out = assms(4) [unfolded search_body_def run prod.case]
  show ?thesis
  proof (cases "soMode opt")
    case SearchContentMode
    with search_lines_content [OF this assms(2) refl s _ run refl] out assms(3) show ?thesis
      by (auto simp: file_results_def line_texts_def)
  next
    case SearchCountMode
    from search_lines_count [OF this refl s _ run] have
      c: "\<not> ret" "page_ok opt R s1" "lsCount l1 = length (hits (soRe opt) 1 (line_texts cd enc (soEncoding opt) f))"
      by (simp_all add: line_texts_def)
    then show ?thesis using SearchCountMode out assms(3) addFile_page [OF c(2) assms(2), of path "lsCount l1"]
      by (auto simp: file_results_def Let_def)
  next
    case SearchFilesMode
    from search_lines_files [OF this refl s _ assms(2) run refl] SearchFilesMode out assms(3) show ?thesis
      by (auto simp: file_results_def line_texts_def Let_def split: if_splits)
  qed
qed

lemma searchFile_page:
  assumes "page_ok opt R s" "0 < soMaxResults opt" "R' = R @ file_found cd opt path info"
    "s' = searchFile cd (\<lambda>_. False) opt path info s"
  shows "page_ok opt R' s' \<or> page_full opt R' s'"
proof (cases info)
  case (NFile f m)
  have "page_ok opt R (s\<lparr>srTicks := Suc (srTicks s)\<rparr>)" using assms(1) by simp
  from search_body_page [OF this assms(2) refl refl] NFile assms show ?thesis
    by (simp add: searchFile_def file_found_def file_encoding_def Let_def)
qed (use assms in \<open>simp_all add: searchFile_def file_found_def\<close>)


definition entry_found ::
  "codec \<Rightarrow> filesys \<Rightarrow> searchOpts \<Rightarrow> gostring \<Rightarrow> gostring \<Rightarrow> gostring \<Rightarrow> bool \<Rightarrow> search_result list" where
  "entry_found cd fs opt root p name isLink =
     (case Stat fs (clean_comps p) of
        Inr info \<Rightarrow>
          if isLink \<and> (dir_node info \<or> \<not> insideRoots fs opt p) \<or> \<not> glob_match (soInclude opt) name (relPath root p) p
          then [] else file_found cd opt p info
      | Inl _ \<Rightarrow> [])"

definition visit_found ::
  "codec \<Rightarrow> filesys \<Rightarrow> searchOpts \<Rightarrow> gostring \<Rightarrow> (loc \<Rightarrow> gostring) \<Rightarrow> loc \<Rightarrow> search_result list" where
  "visit_found cd fs opt root nm q =
     (case node_at fs q of
        None \<Rightarrow> []
      | Some x \<Rightarrow>
          if nm q = root \<or> excluded opt root (nm q) (last q) \<or> dir_node x then []
          else entry_found cd fs opt root (nm q) (last q) (is_link x))"

text \<open>Whether the walk goes on below an entry.\<close>

definition search_enters :: "searchOpts \<Rightarrow> gostring \<Rightarrow> (loc \<Rightarrow> gostring) \<Rightarrow> loc \<Rightarrow> node \<Rightarrow> bool" where
  "search_enters opt root nm q x \<longleftrightarrow> nm q = root \<or> \<not> (excluded opt root (nm q) (last q) \<and> dir_node x)"

definition search_found :: "codec \<Rightarrow> filesys \<Rightarrow> searchOpts \<Rightarrow> gostring \<Rightarrow> node \<Rightarrow> search_result list" where
  "search_found cd fs opt ap info =
     (if dir_node info then
        (case walk_root fs ap of
           None \<Rightarrow> []
         | Some (real, nm) \<Rightarrow> concat (map (visit_found cd fs opt ap nm) (visits fs (search_enters opt ap nm) [real])))
      else file_found cd opt ap info)"

lemma search_entry_page:
  assumes "page_ok opt R s" "0 < soMaxResults opt" "R' = R @ entry_found cd fs opt root p name isLink"
    "s' = search_entry cd (\<lambda>_. False) fs opt root p name isLink s"
  shows "page_ok opt R' s' \<or> page_full opt R' s'"
proof (cases "Stat fs (clean_comps p)")
  case (Inr info)
  show ?thesis
  proof (cases "isLink \<and> (dir_node info \<or> \<not> insideRoots fs opt p) \<or> \<not> glob_match (soInclude opt) name (relPath root p) p")
    case True
    with Inr assms show ?thesis by (auto simp: search_entry_def entry_found_def Let_def)
  next
    case False
    with searchFile_page [OF assms(1,2) refl refl, of cd p info] Inr assms(3,4) show ?thesis
      by (auto simp: search_entry_def entry_found_def)
  qed
qed (use assms in \<open>auto simp: search_entry_def entry_found_def\<close>)

lemma search_visit_fold:
  "search_visit cd late fs opt root (nm q) q x s =
    (if srStopped s then (SkipAll, s)
     else (if search_enters opt root nm q x then Continue else SkipDir,
           if nm q = root \<or> excluded opt root (nm q) (last q) \<or> dir_node x then s
           else search_entry cd late fs opt root (nm q) (last q) (is_link x) s))"
  by (auto simp: search_visit_def search_enters_def)

lemma search_fold_page:
  assumes "page_ok opt R s \<or> page_full opt R s" "0 < soMaxResults opt"
    "s' = fold_until srStopped (\<lambda>q s. case node_at fs q of None \<Rightarrow> s | Some x \<Rightarrow>
        if nm q = root \<or> excluded opt root (nm q) (last q) \<or> dir_node x then s
        else search_entry cd (\<lambda>_. False) fs opt root (nm q) (last q) (is_link x) s) qs s"
    "R' = R @ concat (map (visit_found cd fs opt root nm) qs)"
  shows "page_ok opt R' s' \<or> page_full opt R' s'"
  using assms(1,3,4)
proof (induction qs arbitrary: R s)
  case (Cons q qs)
  show ?case
  proof (cases "page_full opt R s")
    case True
    then have "s' = s" using Cons.prems(2) by (simp add: page_full_def)
    with True page_full_more Cons.prems(3) show ?thesis by blast
  next
    case False
    then have ok: "page_ok opt R s" using Cons.prems(1) by blast
    define t where "t = (case node_at fs q of None \<Rightarrow> s | Some x \<Rightarrow>
        if nm q = root \<or> excluded opt root (nm q) (last q) \<or> dir_node x then s
        else search_entry cd (\<lambda>_. False) fs opt root (nm q) (last q) (is_link x) s)"
    have "page_ok opt (R @ visit_found cd fs opt root nm q) t \<or> page_full opt (R @ visit_found cd fs opt root nm q) t"
    proof (cases "node_at fs q")
      case (Some x)
      with ok search_entry_page [OF ok assms(2) refl refl, of cd fs root "nm q" "last q" "is_link x"] show ?thesis
        by (simp add: t_def visit_found_def)
    qed (use ok in \<open>simp add: t_def visit_found_def\<close>)
    moreover have "s' = fold_until srStopped (\<lambda>q s. case node_at fs q of None \<Rightarrow> s | Some x \<Rightarrow>
        if nm q = root \<or> excluded opt root (nm q) (last q) \<or> dir_node x then s
        else search_entry cd (\<lambda>_. False) fs opt root (nm q) (last q) (is_link x) s) qs t"
      using Cons.prems(2) ok by (simp add: page_ok_def t_def)
    ultimately show ?thesis using Cons.IH Cons.prems(3) by simp
  qed
qed auto

lemma search_walk_page:
  assumes "page_ok opt [] s" "0 < soMaxResults opt" "dir_node info"
    "s' = search_walk cd (\<lambda>_. False) fs opt root s" "R = search_found cd fs opt root info"
  shows "page_ok opt R s' \<or> page_full opt R s'"
proof (cases "walk_root fs root")
  case (Some w)
  obtain real nm where w: "w = (real, nm)" by fastforce
  define fn where "fn = (\<lambda>q. search_visit cd (\<lambda>_. False) fs opt root (nm q) q)"
  have "s' = walk_list fs fn [real] s" using assms(4) Some w by (simp add: search_walk_def walkTree_def fn_def)
  also have "\<dots> = fold_until srStopped (\<lambda>q s. case node_at fs q of None \<Rightarrow> s | Some x \<Rightarrow>
        if nm q = root \<or> excluded opt root (nm q) (last q) \<or> dir_node x then s
        else search_entry cd (\<lambda>_. False) fs opt root (nm q) (last q) (is_link x) s)
      (visits fs (search_enters opt root nm) [real]) s"
    by (rule walk_list_fold) (simp add: fn_def search_visit_fold)
  finally show ?thesis
    using search_fold_page [OF _ assms(2) _ refl, of "[]"] assms(1,3,5) Some w by (simp add: search_found_def)
qed (use assms in \<open>simp add: search_walk_def walkTree_def search_found_def\<close>)

lemma newSearchOpts_max: "newSearchOpts cd rx req roots = Inr opt \<Longrightarrow> 0 < soMaxResults opt"
  by (auto simp: newSearchOpts_def defaultSearchMaxResults_def maxSearchResults_def split: if_splits option.splits sum.splits)

lemma newSearchOpts_offset:
  "newSearchOpts cd rx (req\<lparr>scOffset := k\<rparr>) roots =
    (case newSearchOpts cd rx req roots of Inl e \<Rightarrow> Inl e | Inr opt \<Rightarrow> Inr (opt\<lparr>soSkip := nat (max k 0)\<rparr>))"
  by (simp add: newSearchOpts_def search_expr_def split: option.splits sum.splits)

lemma search_found_skip: "search_found cd fs (opt\<lparr>soSkip := k\<rparr>) ap info = search_found cd fs opt ap info"
proof -
  have l: "line_result (opt\<lparr>soSkip := k\<rparr>) = line_result opt" by (intro ext) (simp add: line_result_def)
  have r: "file_results (opt\<lparr>soSkip := k\<rparr>) = file_results opt" by (intro ext) (simp add: file_results_def l Let_def split: search_mode.split)
  have f: "file_found cd (opt\<lparr>soSkip := k\<rparr>) = file_found cd opt"
    by (intro ext) (simp add: file_found_def r file_encoding_def split: node.split)
  have e: "excluded (opt\<lparr>soSkip := k\<rparr>) = excluded opt" by (intro ext) (simp add: excluded_def)
  have "search_enters (opt\<lparr>soSkip := k\<rparr>) = search_enters opt" by (intro ext) (simp add: search_enters_def e)
  moreover have "visit_found cd fs (opt\<lparr>soSkip := k\<rparr>) = visit_found cd fs opt"
    by (intro ext) (simp add: visit_found_def entry_found_def e f insideRoots_def split: option.split sum.split)
  ultimately show ?thesis by (simp add: search_found_def f split: option.split)
qed

text \<open>One page: the results from the offset on, as many as fit.\<close>

lemma search_page:
  assumes "SearchContent cd rx (\<lambda>_. False) req roots fs = Inr r"
  shows "\<exists>ap opt info. validatePath fs (scPath req) roots = Inr ap \<and> newSearchOpts cd rx req roots = Inr opt \<and>
    Stat fs (clean_comps ap) = Inr info \<and>
    (let R = search_found cd fs opt ap info in
     results opt r = take (srReturned r) (drop (soSkip opt) R) \<and>
     (if srTruncated r then 0 < srReturned r \<and> srNext r = soSkip opt + srReturned r \<and> srNext r < length R
      else length R \<le> soSkip opt + srReturned r))"
proof -
  obtain ap opt info where o: "validatePath fs (scPath req) roots = Inr ap" "newSearchOpts cd rx req roots = Inr opt"
    "Stat fs (clean_comps ap) = Inr info"
    "r = search_finish opt (if dir_node info then search_walk cd (\<lambda>_. False) fs opt ap new_search
                 else searchFile cd (\<lambda>_. False) opt ap info new_search)"
    using assms by (auto simp: SearchContent_def split: sum.splits)
  define s where "s = (if dir_node info then search_walk cd (\<lambda>_. False) fs opt ap new_search
                 else searchFile cd (\<lambda>_. False) opt ap info new_search)"
  have new: "page_ok opt [] new_search" by (simp add: page_ok_def new_search_def results_def)
  note max = newSearchOpts_max [OF o(2)]
  have "page_ok opt (search_found cd fs opt ap info) s \<or> page_full opt (search_found cd fs opt ap info) s"
    using search_walk_page [OF new max _ refl refl] searchFile_page [OF new max refl refl]
    by (simp add: s_def search_found_def)
  moreover have "results opt r = results opt s" "srReturned r = srReturned s" "srTruncated r = srTruncated s"
    "srNext r = (if srTimedOut s then 0 else srNext s)"
    unfolding o(4) s_def [symmetric] by (simp_all add: search_finish_def results_def)
  ultimately show ?thesis using o(1-3) by (intro exI conjI) (auto simp: Let_def page_ok_def page_full_def)
qed


section \<open>Following the offset\<close>

text \<open>A client that calls again with \<open>offset = next_offset\<close> as long as a page says it is truncated.\<close>

fun search_pages ::
  "nat \<Rightarrow> codec \<Rightarrow> compile \<Rightarrow> SearchContentRequest \<Rightarrow> gostring list \<Rightarrow> filesys \<Rightarrow> nat \<Rightarrow> search_run list" where
  "search_pages 0 cd rx req roots fs off = []"
| "search_pages (Suc k) cd rx req roots fs off =
     (case SearchContent cd rx (\<lambda>_. False) (req\<lparr>scOffset := int off\<rparr>) roots fs of
        Inl e \<Rightarrow> []
      | Inr r \<Rightarrow> r # (if srTruncated r then search_pages k cd rx req roots fs (srNext r) else []))"




section \<open>A concrete search\<close>

definition search_fs :: filesys where
  "search_fs = \<lparr>nodes = [([''d''], NDir 493), ([''d'', ''f''], NFile [CHR ''a'', nl, CHR ''b''] 420)],
     workdir = ''/'', umask = 18\<rparr>"

definition finds_b :: compile where
  "finds_b e = (if e = ''b'' then Some (\<lambda>s. if CHR ''b'' \<in> set s then Some (0, 1) else None) else None)"

definition search_request :: "gostring \<Rightarrow> SearchContentRequest" where
  "search_request path = \<lparr>scPath = path, scPattern = ''b'', scIncludeGlob = [], scExcludeGlob = [], scIgnoreCase = False,
     scFixedStrings = False, scOutputMode = [], scContextLines = 0, scBeforeLines = 0, scAfterLines = 0,
     scMaxResults = 1, scOffset = 0, scMaxFileSize = 0, scIncludeHidden = False, scEncoding = []\<rparr>"

definition search_opts :: searchOpts where
  "search_opts = \<lparr>soPattern = ''b'', soRe = the (finds_b ''b''), soMode = SearchContentMode, soInclude = None, soExclude = None,
     soBefore = 0, soAfter = 0, soMaxResults = 1, soSkip = 0, soMaxFileSize = 268435456, soEncoding = [], soHidden = False,
     soRoots = []\<rparr>"

lemma search_request_opts: "newSearchOpts cd finds_b (search_request path) [] = Inr search_opts"
proof -
  have "TrimSpace ''b'' = ''b''" by (rule TrimSpace_ascii_word) (simp_all add: isASCII_def bval_def is_space_def)
  then show ?thesis
    by (simp add: newSearchOpts_def search_request_def search_expr_def finds_b_def output_mode_def compileGlobs_def
        empty_globs_def search_opts_def clampContext_def maxSearchResults_def defaultSearchMaxFileSize_def maxSearchContext_def)
qed

lemma search_fs_paths:
  "validatePath search_fs ''/d/f'' [] = Inr ''/d/f''"
  "Stat search_fs (clean_comps ''/d/f'') = Inr (NFile [CHR ''a'', nl, CHR ''b''] 420)"
  by code_simp+

lemma search_fs_lines:
  "line_texts cd enc [] [CHR ''a'', nl, CHR ''b''] = [''a'', ''b'']" "\<not> looksBinary (take readerSize [CHR ''a'', nl, CHR ''b''])"
proof -
  have "raw_lines [CHR ''a'', nl, CHR ''b''] = [[CHR ''a'', nl], [CHR ''b'']]" by code_simp
  then show "line_texts cd enc [] [CHR ''a'', nl, CHR ''b''] = [''a'', ''b'']"
    by (simp add: line_texts_def chop_line_def searchLineBuf_def TrimSuffix_single decodeLine_def isASCII_def bval_def)
  show "\<not> looksBinary (take readerSize [CHR ''a'', nl, CHR ''b''])"
    by (simp add: looksBinary_def readerSize_def binarySniffLen_def bval_def)
qed

lemma search_opts_excerpt: "search_excerpt r ''b'' = ''b''"
  by (simp add: search_excerpt_def excerpt_def maxSearchLineLen_def)

lemma search_fs_found: "search_found cd search_fs search_opts ''/d/f'' (NFile [CHR ''a'', nl, CHR ''b''] 420) =
    [ResultLine ''/d/f'' 2 ''b'']"
  by (simp add: search_found_def dir_node_def file_found_def search_fs_lines search_opts_def file_results_def Let_def
      line_result_def MatchString_def finds_b_def search_opts_excerpt [unfolded search_opts_def])



end
