(* ===== verification/Find_Files.thy ===== *)
theory Find_Files
  imports Globs Walk_Tree Sandbox
begin

text \<open>
  \<open>remote_find_files\<close> (\<open>searchops.go\<close>, lines 541 to 743): entries of a tree by name, type, depth, time and
  size.  What the model of the file tree does not hold is a parameter: modification times, the sizes of
  directories, and the \<open>time\<close> package's parsers and RFC 3339 format.
\<close>

section \<open>Definitions\<close>

definition defaultFindMaxResults :: nat where [go_defs]: "defaultFindMaxResults = 500"
definition maxFindResults :: nat where [go_defs]: "maxFindResults = 10000"
definition maxFindScanEntries :: nat where [go_defs]: "maxFindScanEntries = 100000"

record FindFilesRequest =
  ffPath :: gostring
  ffNameGlob :: "gostring list"
  ffExcludeGlob :: "gostring list"
  ffType :: gostring
  ffMaxDepth :: int
  ffMaxResults :: int
  ffIncludeHidden :: bool
  ffIgnoreCase :: bool
  ffNewerThan :: gostring
  ffOlderThan :: gostring
  ffMinSize :: int
  ffMaxSize :: int
  ffSortBy :: gostring

record FindFileEntry =
  feEPath :: gostring
  feType :: gostring
  feSize :: nat
  feModTime :: gostring
  feTarget :: gostring

datatype find_hint = FindNoHint | SortCovers nat | MaxResultsReached nat

record FindFilesResult =
  frPath :: gostring
  frCount :: nat
  frTruncated :: bool
  frHint :: find_hint
  frEntries :: "FindFileEntry list"

datatype find_error =
    FFPath path_error
  | FFSys fs_error
  | FFBadType gostring
  | FFBadSort gostring
  | FFNameGlob "gostring \<times> glob_error"
  | FFExcludeGlob "gostring \<times> glob_error"
  | FFNewer gostring
  | FFOlder gostring

text \<open>Times are nanoseconds since 1970; \<open>tpDays\<close> is the duration \<open>fmt.Sscanf\<close> reads with \<open>%gd\<close>.\<close>

record time_host =
  tpRFC3339 :: "gostring \<Rightarrow> int option"
  tpDays :: "gostring \<Rightarrow> int option"
  tpDuration :: "gostring \<Rightarrow> int option"
  tpFormat :: "int \<Rightarrow> gostring"
  tpModTime :: "loc \<Rightarrow> int"
  tpDirSize :: "loc \<Rightarrow> nat"

definition parseTimeBound :: "time_host \<Rightarrow> gostring \<Rightarrow> int \<Rightarrow> int option" where
  "parseTimeBound th s0 now =
     (let s = TrimSpace s0 in
      case tpRFC3339 th s of
        Some t \<Rightarrow> Some t
      | None \<Rightarrow>
          (case (if HasSuffix s ''d'' then tpDays th s else None) of
             Some d \<Rightarrow> if 0 \<le> d then Some (now - d)
                       else (case tpDuration th s of Some e \<Rightarrow> if 0 \<le> e then Some (now - e) else None | None \<Rightarrow> None)
           | None \<Rightarrow> (case tpDuration th s of Some e \<Rightarrow> if 0 \<le> e then Some (now - e) else None | None \<Rightarrow> None)))"

text \<open>Go's zero time, midnight of January 1 of the year 1: such a bound counts as none.\<close>

definition zeroTime :: int where [go_defs]: "zeroTime = -62135596800000000000"

definition time_bound :: "time_host \<Rightarrow> gostring \<Rightarrow> int \<Rightarrow> int option option" where
  "time_bound th s now =
     (if s = [] then Some None
      else map_option (\<lambda>t. if t = zeroTime then None else Some t) (parseTimeBound th s now))"

record find_opts =
  foType :: gostring
  foSort :: gostring
  foNames :: "globSet option"
  foExclude :: "globSet option"
  foNewer :: "int option"
  foOlder :: "int option"
  foMaxResults :: nat
  foCap :: nat

definition find_options :: "compile \<Rightarrow> time_host \<Rightarrow> int \<Rightarrow> FindFilesRequest \<Rightarrow> find_error + find_opts" where
  "find_options rx th now req =
     (let t = ToLower (TrimSpace (ffType req)); findType = (if t = [] then ''any'' else t);
          sortBy = ToLower (TrimSpace (ffSortBy req)) in
      if findType \<notin> {''file'', ''dir'', ''symlink'', ''any''} then Inl (FFBadType (ffType req))
      else if sortBy \<notin> {[], ''path'', ''mtime'', ''size''} then Inl (FFBadSort (ffSortBy req))
      else case compileGlobs rx (ffNameGlob req) (ffIgnoreCase req) of
        Inl e \<Rightarrow> Inl (FFNameGlob e)
      | Inr nameSet \<Rightarrow>
     (case compileGlobs rx (ffExcludeGlob req) (ffIgnoreCase req) of
        Inl e \<Rightarrow> Inl (FFExcludeGlob e)
      | Inr exclude \<Rightarrow>
     (case time_bound th (ffNewerThan req) now of
        None \<Rightarrow> Inl (FFNewer (ffNewerThan req))
      | Some newer \<Rightarrow>
     (case time_bound th (ffOlderThan req) now of
        None \<Rightarrow> Inl (FFOlder (ffOlderThan req))
      | Some older \<Rightarrow>
          (let maxResults = min (if ffMaxResults req \<le> 0 then defaultFindMaxResults else nat (ffMaxResults req)) maxFindResults
           in Inr \<lparr>foType = findType, foSort = sortBy, foNames = nameSet, foExclude = exclude, foNewer = newer,
                   foOlder = older, foMaxResults = maxResults,
                   foCap = (if sortBy \<in> {''mtime'', ''size''} then maxFindScanEntries else maxResults)\<rparr>)))))"

definition entry_type :: "node \<Rightarrow> gostring" where
  "entry_type x = (case x of NDir _ \<Rightarrow> ''dir'' | NLink _ \<Rightarrow> ''symlink'' | NFile _ _ \<Rightarrow> ''file'')"

definition entry_size :: "time_host \<Rightarrow> loc \<Rightarrow> node \<Rightarrow> nat" where
  "entry_size th q x = (case x of NFile d _ \<Rightarrow> length d | NLink t \<Rightarrow> length t | NDir _ \<Rightarrow> tpDirSize th q)"

definition find_depth :: "gostring \<Rightarrow> int" where
  "find_depth rel = int (count_list rel slash) + 1"

text \<open>Hidden, excluded or too deep: such a directory is not entered.\<close>

definition find_skips :: "FindFilesRequest \<Rightarrow> find_opts \<Rightarrow> gostring \<Rightarrow> gostring \<Rightarrow> gostring \<Rightarrow> bool" where
  "find_skips req opt root p name \<longleftrightarrow>
     (let rel = relPath root p in
      \<not> ffIncludeHidden req \<and> isHiddenName name \<or> matchAny (foExclude opt) name rel p \<or>
      0 < ffMaxDepth req \<and> ffMaxDepth req < find_depth rel)"

text \<open>The filters on the entry itself.\<close>

definition find_wants ::
  "time_host \<Rightarrow> FindFilesRequest \<Rightarrow> find_opts \<Rightarrow> gostring \<Rightarrow> gostring \<Rightarrow> loc \<Rightarrow> node \<Rightarrow> bool" where
  "find_wants th req opt root p q x \<longleftrightarrow>
     glob_match (foNames opt) (last q) (relPath root p) p \<and>
     (foType opt = ''any'' \<or> entry_type x = foType opt) \<and>
     (case foNewer opt of None \<Rightarrow> True | Some t \<Rightarrow> t < tpModTime th q) \<and>
     (case foOlder opt of None \<Rightarrow> True | Some t \<Rightarrow> tpModTime th q < t) \<and>
     (0 < ffMinSize req \<or> 0 < ffMaxSize req \<longrightarrow>
        entry_type x = ''file'' \<and> ffMinSize req \<le> int (entry_size th q x) \<and>
        (0 < ffMaxSize req \<longrightarrow> int (entry_size th q x) \<le> ffMaxSize req))"

definition find_entry :: "filesys \<Rightarrow> time_host \<Rightarrow> gostring \<Rightarrow> loc \<Rightarrow> node \<Rightarrow> FindFileEntry" where
  "find_entry fs th p q x =
     \<lparr>feEPath = p, feType = entry_type x, feSize = entry_size th q x, feModTime = tpFormat th (tpModTime th q),
      feTarget = (case x of NLink _ \<Rightarrow> (case Readlink fs (clean_comps p) of Inr t \<Rightarrow> t | Inl _ \<Rightarrow> []) | _ \<Rightarrow> [])\<rparr>"

record find_run =
  fnMatched :: nat
  fnTruncated :: bool
  fnEntries :: "FindFileEntry list"

definition find_visit ::
  "filesys \<Rightarrow> time_host \<Rightarrow> FindFilesRequest \<Rightarrow> find_opts \<Rightarrow> gostring \<Rightarrow> gostring \<Rightarrow> loc \<Rightarrow> node \<Rightarrow> find_run \<Rightarrow> walk_ctl \<times> find_run" where
  "find_visit fs th req opt root p q x s =
     (if p = root then (Continue, s)
      else if find_skips req opt root p (last q) then (if entry_type x = ''dir'' then SkipDir else Continue, s)
      else if \<not> find_wants th req opt root p q x then (Continue, s)
      else
        (let s = s\<lparr>fnMatched := Suc (fnMatched s)\<rparr> in
         if foCap opt \<le> length (fnEntries s) then (SkipAll, s\<lparr>fnTruncated := True\<rparr>)
         else (Continue, s\<lparr>fnEntries := fnEntries s @ [find_entry fs th p q x]\<rparr>)))"

text \<open>\<open>sort.SliceStable\<close>: \<open>before\<close> is its \<open>less\<close>.\<close>

fun stable_insert :: "('a \<Rightarrow> 'a \<Rightarrow> bool) \<Rightarrow> 'a \<Rightarrow> 'a list \<Rightarrow> 'a list" where
  "stable_insert bef x [] = [x]"
| "stable_insert bef x (y # ys) = (if bef y x then y # stable_insert bef x ys else x # y # ys)"

definition SliceStable :: "('a \<Rightarrow> 'a \<Rightarrow> bool) \<Rightarrow> 'a list \<Rightarrow> 'a list" where
  "SliceStable bef xs = foldr (stable_insert bef) xs []"

definition find_sort :: "gostring \<Rightarrow> FindFileEntry list \<Rightarrow> FindFileEntry list" where
  "find_sort by es =
     (if by = ''mtime'' then SliceStable (\<lambda>a b. feModTime b < feModTime a) es
      else if by = ''size'' then SliceStable (\<lambda>a b. feSize b < feSize a) es
      else es)"

definition find_finish :: "gostring \<Rightarrow> find_opts \<Rightarrow> find_run \<Rightarrow> FindFilesResult" where
  "find_finish ap opt s =
     (let es = find_sort (foSort opt) (fnEntries s);
          cut = (foMaxResults opt < length es);
          es = (if cut then take (foMaxResults opt) es else es);
          truncated = (fnTruncated s \<or> cut)
      in \<lparr>frPath = ap, frCount = length es, frTruncated = truncated,
          frHint = (if \<not> truncated then FindNoHint
                    else if foSort opt \<in> {''mtime'', ''size''} \<and> maxFindScanEntries < fnMatched s
                    then SortCovers maxFindScanEntries
                    else MaxResultsReached (foMaxResults opt)),
          frEntries = es\<rparr>)"

definition FindFiles ::
  "compile \<Rightarrow> time_host \<Rightarrow> int \<Rightarrow> FindFilesRequest \<Rightarrow> gostring list \<Rightarrow> filesys \<Rightarrow> find_error + FindFilesResult" where
  "FindFiles rx th now req roots fs =
     (case validatePath fs (ffPath req) roots of
        Inl e \<Rightarrow> Inl (FFPath e)
      | Inr ap \<Rightarrow>
     (case Stat fs (clean_comps ap) of
        Inl e \<Rightarrow> Inl (FFSys e)
      | Inr _ \<Rightarrow>
     (case find_options rx th now req of
        Inl e \<Rightarrow> Inl e
      | Inr opt \<Rightarrow>
          Inr (find_finish ap opt
            (walkTree fs ap (find_visit fs th req opt ap) \<lparr>fnMatched = 0, fnTruncated = False, fnEntries = []\<rparr>)))))"


section \<open>Stable sorting\<close>

lemma mset_stable_insert [simp]: "mset (stable_insert bef x ys) = add_mset x (mset ys)"
  by (induction ys) auto

lemma set_stable_insert [simp]: "set (stable_insert bef x ys) = insert x (set ys)"
  using mset_stable_insert by (metis set_mset_add_mset_insert set_mset_mset)

lemma mset_SliceStable [simp]: "mset (SliceStable bef xs) = mset xs"
  by (induction xs) (simp_all add: SliceStable_def)

lemma length_SliceStable [simp]: "length (SliceStable bef xs) = length xs"
  by (metis mset_SliceStable size_mset)

text \<open>For a comparison by a key: sorted, and elements with the same key stay in order.\<close>

lemma sorted_stable_insert:
  fixes k :: "'a \<Rightarrow> 'b :: linorder"
  shows "sorted_wrt (\<lambda>a b. k b \<le> k a) ys \<Longrightarrow> sorted_wrt (\<lambda>a b. k b \<le> k a) (stable_insert (\<lambda>a b. k b < k a) x ys)"
  by (induction ys) (auto simp: not_less)

lemma sorted_SliceStable:
  fixes k :: "'a \<Rightarrow> 'b :: linorder"
  shows "sorted_wrt (\<lambda>a b. k b \<le> k a) (SliceStable (\<lambda>a b. k b < k a) xs)"
  by (induction xs) (simp_all add: SliceStable_def sorted_stable_insert)

lemma filter_stable_insert:
  fixes k :: "'a \<Rightarrow> 'b :: linorder"
  shows "sorted_wrt (\<lambda>a b. k b \<le> k a) ys \<Longrightarrow>
    filter (\<lambda>y. k y = v) (stable_insert (\<lambda>a b. k b < k a) x ys) = (if k x = v then [x] else []) @ filter (\<lambda>y. k y = v) ys"
  by (induction ys) (auto simp: filter_empty_conv)

lemma stable_SliceStable:
  fixes k :: "'a \<Rightarrow> 'b :: linorder"
  shows "filter (\<lambda>y. k y = v) (SliceStable (\<lambda>a b. k b < k a) xs) = filter (\<lambda>y. k y = v) xs"
proof (induction xs)
  case (Cons x xs)
  have "SliceStable (\<lambda>a b. k b < k a) (x # xs) = stable_insert (\<lambda>a b. k b < k a) x (SliceStable (\<lambda>a b. k b < k a) xs)"
    by (simp add: SliceStable_def)
  with Cons show ?case by (simp add: filter_stable_insert [OF sorted_SliceStable])
qed (simp add: SliceStable_def)

lemma length_find_sort [simp]: "length (find_sort by es) = length es"
  by (simp add: find_sort_def)

section \<open>What a search finds\<close>

definition find_picks :: "time_host \<Rightarrow> FindFilesRequest \<Rightarrow> find_opts \<Rightarrow> gostring \<Rightarrow> gostring \<Rightarrow> loc \<Rightarrow> node \<Rightarrow> bool" where
  "find_picks th req opt root p q x \<longleftrightarrow>
     p \<noteq> root \<and> \<not> find_skips req opt root p (last q) \<and> find_wants th req opt root p q x"

definition find_enters :: "FindFilesRequest \<Rightarrow> find_opts \<Rightarrow> gostring \<Rightarrow> (loc \<Rightarrow> gostring) \<Rightarrow> loc \<Rightarrow> node \<Rightarrow> bool" where
  "find_enters req opt root nm q x \<longleftrightarrow> nm q = root \<or> \<not> (find_skips req opt root (nm q) (last q) \<and> entry_type x = ''dir'')"

text \<open>All entries that pass the filters, in the order of the walk.\<close>

definition find_all :: "time_host \<Rightarrow> FindFilesRequest \<Rightarrow> find_opts \<Rightarrow> gostring \<Rightarrow> filesys \<Rightarrow> FindFileEntry list" where
  "find_all th req opt root fs =
     (case walk_root fs root of
        None \<Rightarrow> []
      | Some (real, nm) \<Rightarrow>
          concat (map (\<lambda>q. case node_at fs q of
                             None \<Rightarrow> []
                           | Some x \<Rightarrow> if find_picks th req opt root (nm q) q x then [find_entry fs th (nm q) q x] else [])
            (visits fs (find_enters req opt root nm) [real])))"

definition find_step :: "time_host \<Rightarrow> FindFilesRequest \<Rightarrow> find_opts \<Rightarrow> gostring \<Rightarrow> (loc \<Rightarrow> gostring) \<Rightarrow> filesys \<Rightarrow>
    loc \<Rightarrow> find_run \<Rightarrow> find_run" where
  "find_step th req opt root nm fs q s =
     (case node_at fs q of
        None \<Rightarrow> s
      | Some x \<Rightarrow> if find_picks th req opt root (nm q) q x then snd (find_visit fs th req opt root (nm q) q x s) else s)"

lemma find_visit_step:
  assumes "node_at fs q = Some x" "\<not> fnTruncated s"
  shows "find_visit fs th req opt root (nm q) q x s =
    (if fnTruncated (find_step th req opt root nm fs q s) then (SkipAll, find_step th req opt root nm fs q s)
     else (if find_enters req opt root nm q x then Continue else SkipDir, find_step th req opt root nm fs q s))"
  using assms by (auto simp: find_step_def find_visit_def find_picks_def find_enters_def Let_def)

text \<open>The first \<open>foCap\<close> of them are collected.\<close>

lemma find_fold:
  assumes "\<not> fnTruncated s" "length (fnEntries s) \<le> foCap opt"
    "s' = fold_until fnTruncated (find_step th req opt root nm fs) qs s"
    "new = concat (map (\<lambda>q. case node_at fs q of
                             None \<Rightarrow> []
                           | Some x \<Rightarrow> if find_picks th req opt root (nm q) q x then [find_entry fs th (nm q) q x] else []) qs)"
  shows "fnEntries s' = take (foCap opt) (fnEntries s @ new) \<and>
    (fnTruncated s' \<longleftrightarrow> foCap opt < length (fnEntries s @ new))"
  using assms
proof (induction qs arbitrary: s new)
  case (Cons q qs)
  let ?new = "case node_at fs q of None \<Rightarrow> []
    | Some x \<Rightarrow> if find_picks th req opt root (nm q) q x then [find_entry fs th (nm q) q x] else []"
  let ?t = "find_step th req opt root nm fs q s"
  consider (no) "?new = []" "?t = s"
    | (full) e where "?new = [e]" "foCap opt = length (fnEntries s)" "fnTruncated ?t" "fnEntries ?t = fnEntries s"
    | (more) e where "?new = [e]" "length (fnEntries s) < foCap opt" "\<not> fnTruncated ?t" "fnEntries ?t = fnEntries s @ [e]"
  proof (cases "node_at fs q")
    case (Some x)
    with Cons.prems(1,2) that show ?thesis
      by (cases "find_picks th req opt root (nm q) q x"; cases "foCap opt \<le> length (fnEntries s)")
        (auto simp: find_step_def find_visit_def find_picks_def Let_def)
  qed (use that in \<open>simp add: find_step_def\<close>)
  then show ?case
  proof cases
    case no
    with Cons.IH [OF Cons.prems(1,2) _ refl] Cons.prems(1,3,4) show ?thesis by simp
  next
    case full
    with Cons.prems(1,3,4) show ?thesis by (simp add: fold_until_stopped)
  next
    case more
    with Cons.IH [OF more(3) _ _ refl] Cons.prems(1,3,4) show ?thesis by simp
  qed
qed simp

text \<open>C15: \<open>FindFiles\<close> returns exactly the entries that pass its filters: all of them in the order of the
  walk, or the first \<open>max_results\<close> with the result marked truncated; with \<open>sort_by\<close>, as long as the
  tree holds no more than 100000 such entries, the first of all of them in descending order of size or
  formatted time, entries that compare equal in the order of the walk.\<close>

theorem find_exact:
  assumes "FindFiles rx th now req roots fs = Inr r" "validatePath fs (ffPath req) roots = Inr ap"
    "find_options rx th now req = Inr opt" "es = find_all th req opt ap fs"
    "foSort opt \<in> {''mtime'', ''size''} \<longrightarrow> length es \<le> maxFindScanEntries"
  shows "frEntries r = take (foMaxResults opt) (find_sort (foSort opt) es) \<and>
    (frTruncated r \<longleftrightarrow> foMaxResults opt < length es) \<and> frCount r = length (frEntries r) \<and>
    (foSort opt = ''size'' \<longrightarrow> sorted_wrt (\<lambda>a b. feSize b \<le> feSize a) (frEntries r)) \<and>
    (foSort opt = ''mtime'' \<longrightarrow> sorted_wrt (\<lambda>a b. feModTime b \<le> feModTime a) (frEntries r))"
proof -
  define s where "s = walkTree fs ap (find_visit fs th req opt ap) \<lparr>fnMatched = 0, fnTruncated = False, fnEntries = []\<rparr>"
  have r: "r = find_finish ap opt s"
    using assms(1-3) by (auto simp: FindFiles_def s_def split: sum.splits)
  have s: "fnEntries s = take (foCap opt) es \<and> (fnTruncated s \<longleftrightarrow> foCap opt < length es)"
  proof (cases "walk_root fs ap")
    case (Some w)
    obtain real nm where w: "w = (real, nm)" by fastforce
    let ?s = "\<lparr>fnMatched = 0, fnTruncated = False, fnEntries = []\<rparr>"
    have "s = walk_list fs (\<lambda>q. find_visit fs th req opt ap (nm q) q) [real] ?s"
      unfolding s_def walkTree_def Some w by simp
    also have "\<dots> = fold_until fnTruncated (find_step th req opt ap nm fs) (visits fs (find_enters req opt ap nm) [real]) ?s"
      by (rule walk_list_fold_after) (simp_all add: find_visit_step)
    finally show ?thesis
      using find_fold [OF _ _ _ refl, of ?s opt s th req ap nm fs] assms(4) Some w by (simp add: find_all_def)
  qed (use assms(4) in \<open>simp add: s_def walkTree_def find_all_def\<close>)
  have cap: "foCap opt = (if foSort opt \<in> {''mtime'', ''size''} then maxFindScanEntries else foMaxResults opt)"
    using assms(3) by (auto simp: find_options_def Let_def split: if_splits sum.splits option.splits)
  have out: "frEntries r = take (foMaxResults opt) (find_sort (foSort opt) es) \<and>
    (frTruncated r \<longleftrightarrow> foMaxResults opt < length es) \<and> frCount r = length (frEntries r)"
  proof (cases "foSort opt \<in> {''mtime'', ''size''}")
    case True
    then have "fnEntries s = es" "\<not> fnTruncated s" using s cap assms(5) by simp_all
    then show ?thesis by (simp add: r find_finish_def Let_def)
  next
    case False
    then have "find_sort (foSort opt) xs = xs" for xs by (auto simp: find_sort_def)
    with s cap False show ?thesis by (auto simp: r find_finish_def Let_def)
  qed
  then show ?thesis
    using sorted_SliceStable [of feSize es] sorted_SliceStable [of feModTime es]
    by (simp add: find_sort_def sorted_wrt_take)
qed


section \<open>A concrete search\<close>

definition find_fs :: filesys where
  "find_fs = \<lparr>nodes = [([''d''], NDir 493), ([''d'', ''a''], NFile ''x'' 420), ([''d'', ''b''], NFile ''yz'' 420)],
     workdir = ''/'', umask = 18\<rparr>"

definition no_times :: time_host where
  "no_times = \<lparr>tpRFC3339 = (\<lambda>_. None), tpDays = (\<lambda>_. None), tpDuration = (\<lambda>_. None), tpFormat = (\<lambda>_. []),
     tpModTime = (\<lambda>_. 0), tpDirSize = (\<lambda>_. 0)\<rparr>"

definition find_request :: FindFilesRequest where
  "find_request = \<lparr>ffPath = ''/d'', ffNameGlob = [], ffExcludeGlob = [], ffType = [], ffMaxDepth = 0, ffMaxResults = 1,
     ffIncludeHidden = False, ffIgnoreCase = False, ffNewerThan = [], ffOlderThan = [], ffMinSize = 0, ffMaxSize = 0,
     ffSortBy = ''size''\<rparr>"

definition find_request_opts :: find_opts where
  "find_request_opts = \<lparr>foType = ''any'', foSort = ''size'', foNames = None, foExclude = None, foNewer = None, foOlder = None,
     foMaxResults = 1, foCap = maxFindScanEntries\<rparr>"

lemma find_request_options: "find_options rx no_times now find_request = Inr find_request_opts"
proof -
  have "TrimSpace ''size'' = ''size''" "TrimSpace [] = []"
    by (rule TrimSpace_ascii_word, simp_all add: isASCII_def bval_def is_space_def) (simp add: TrimSpace_def)
  then show ?thesis
    by (simp add: find_options_def find_request_def compileGlobs_def empty_globs_def time_bound_def find_request_opts_def
        maxFindResults_def lower_char_def bval_def Let_def)
qed

lemma find_fs_walk:
  "Lstat find_fs [''d''] = Inr (NDir 493)" "EvalSymlinks find_fs [''d''] = Inr [''d'']"
  "clean_comps ''/d'' = [''d'']" "relPath ''/d'' ''/d/a'' = ''a''" "relPath ''/d'' ''/d/b'' = ''b''"
  "entries find_fs [''d''] = [[''d'', ''a''], [''d'', ''b'']]" "entries find_fs [''d'', ''a''] = []" "entries find_fs [''d'', ''b''] = []"
  "node_at find_fs [''d''] = Some (NDir 493)" "node_at find_fs [''d'', ''a''] = Some (NFile ''x'' 420)"
  "node_at find_fs [''d'', ''b''] = Some (NFile ''yz'' 420)"
  by code_simp+

lemma find_fs_root: "walk_root find_fs ''/d'' = Some ([''d''], \<lambda>p. path_of True ([''d''] @ drop (length [''d'']) p))"
  by (simp add: walk_root_def find_fs_walk Let_def)

lemma find_fs_all: "find_all no_times find_request find_request_opts ''/d'' find_fs =
    [\<lparr>feEPath = ''/d/a'', feType = ''file'', feSize = 1, feModTime = [], feTarget = []\<rparr>,
     \<lparr>feEPath = ''/d/b'', feType = ''file'', feSize = 2, feModTime = [], feTarget = []\<rparr>]"
  by (simp add: find_all_def find_fs_root find_fs_walk path_of_def visits_simps(2) Let_def find_picks_def find_skips_def
      find_wants_def find_enters_def find_entry_def entry_type_def entry_size_def no_times_def find_request_def find_request_opts_def
      isHiddenName_def HasPrefix_def matchAny_def glob_match_def)

theorem find_exact_witness:
  "\<exists>r. FindFiles (\<lambda>_. None) no_times 0 find_request [] find_fs = Inr r \<and> map feEPath (frEntries r) = [''/d/b''] \<and> frTruncated r"
proof -
  have v: "validatePath find_fs (ffPath find_request) [] = Inr ''/d''"
    "Stat find_fs (clean_comps ''/d'') = Inr (NDir 493)" by code_simp+
  then obtain r where r: "FindFiles (\<lambda>_. None) no_times 0 find_request [] find_fs = Inr r"
    by (simp add: FindFiles_def find_request_options)
  from find_exact [OF r v(1) find_request_options find_fs_all [symmetric]] r show ?thesis
    by (simp add: find_request_opts_def find_sort_def SliceStable_def maxFindScanEntries_def)
qed

end
