(* ===== verification/Diff_Files.thy ===== *)
theory Diff_Files
  imports Globs Walk_Tree Sandbox Line_Diff Text_Encoding Read_File "HOL-Library.AList"
begin

text \<open>
  \<open>remote_diff\<close> (\<open>diffops.go\<close>): two files by their unified diff, or two directory trees by the lists of
  entries added, removed and changed.  SHA-256 is a parameter; the clock is an oracle, \<open>late k\<close> for its
  \<open>k\<close>-th look at the deadline.
\<close>

section \<open>Definitions\<close>

definition defaultDiffMaxBytes :: nat where [go_defs]: "defaultDiffMaxBytes = 65536"
definition maxDiffFileBytes :: nat where [go_defs]: "maxDiffFileBytes = 8388608"
definition maxDiffTreeEntries :: nat where [go_defs]: "maxDiffTreeEntries = 20000"
definition maxDiffListed :: nat where [go_defs]: "maxDiffListed = 500"
definition maxTreeDiffs :: nat where [go_defs]: "maxTreeDiffs = 20"

record DiffRequest =
  dqLeft :: gostring
  dqRight :: gostring
  dqIgnoreSpace :: bool
  dqExcludeGlob :: "gostring list"
  dqIncludeHidden :: bool
  dqMaxBytes :: int
  dqShowDiffs :: bool

text \<open>A changed entry is listed by its name, or with the error that kept it from being read.\<close>

datatype changed_entry = ChangedName gostring | ChangedUnreadable gostring fs_error

datatype diff_note = ComparedByContent | BinaryDiffers | OnlyWhitespace | DiffCut nat | OnlyEncoding

record FileDiff =
  fdPath :: gostring
  fdDiff :: gostring

datatype tree_hint = TreeTooLarge | ListCut | NotCompared nat | DiffsShown nat nat

record DiffResult =
  dfLeft :: gostring
  dfRight :: gostring
  dfTree :: bool
  dfIdentical :: bool
  dfEncoding :: gostring
  dfLinesAdded :: nat
  dfLinesRemoved :: nat
  dfAdded :: "gostring list"
  dfRemoved :: "gostring list"
  dfChanged :: "changed_entry list"
  dfTypeChanged :: "(gostring \<times> gostring \<times> gostring) list"
  dfSameCount :: nat
  dfTruncated :: bool
  dfNote :: "diff_note option"
  dfHints :: "tree_hint list"
  dfDiffs :: "FileDiff list"
  dfDiff :: gostring

datatype diff_error =
    DLeft path_error
  | DRight path_error
  | DLeftStat fs_error
  | DRightStat fs_error
  | DKindsDiffer
  | DRead fs_error
  | DExclude "gostring \<times> glob_error"

definition empty_diff :: "gostring \<Rightarrow> gostring \<Rightarrow> DiffResult" where
  "empty_diff l r = \<lparr>dfLeft = l, dfRight = r, dfTree = False, dfIdentical = False, dfEncoding = [], dfLinesAdded = 0,
     dfLinesRemoved = 0, dfAdded = [], dfRemoved = [], dfChanged = [], dfTypeChanged = [], dfSameCount = 0,
     dfTruncated = False, dfNote = None, dfHints = [], dfDiffs = [], dfDiff = []\<rparr>"

subsection \<open>Files\<close>

definition squeezeSpace :: "gostring \<Rightarrow> gostring" where
  "squeezeSpace s = join [nl] (map (\<lambda>l. join '' '' (Fields l)) (split_on nl s))"

text \<open>\<open>os.read_path\<close> of a path.\<close>

definition read_path :: "filesys \<Rightarrow> gostring \<Rightarrow> fs_error + bytes" where
  "read_path fs p =
     (case Stat fs (clean_comps p) of
        Inl e \<Rightarrow> Inl e
      | Inr (NFile d m) \<Rightarrow> Inr d
      | Inr _ \<Rightarrow> Inl EISDIR)"

definition fileDigest :: "(bytes \<Rightarrow> bytes) \<Rightarrow> filesys \<Rightarrow> gostring \<Rightarrow> fs_error + bytes" where
  "fileDigest sha fs p = map_sum id sha (read_path fs p)"

definition sameContent ::
  "(bytes \<Rightarrow> bytes) \<Rightarrow> filesys \<Rightarrow> gostring \<Rightarrow> gostring \<Rightarrow> nat \<Rightarrow> nat \<Rightarrow> fs_error + bool" where
  "sameContent sha fs l r lsize rsize =
     (if lsize \<noteq> rsize then Inr False
      else
        (case fileDigest sha fs l of
           Inl e \<Rightarrow> Inl e
         | Inr hl \<Rightarrow> (case fileDigest sha fs r of Inl e \<Rightarrow> Inl e | Inr hr \<Rightarrow> Inr (hl = hr))))"

record file_diff =
  fiDiff :: gostring
  fiAdded :: nat
  fiRemoved :: nat
  fiSame :: bool
  fiEncoding :: gostring
  fiNote :: "diff_note option"
  fiTruncated :: bool

definition no_diff :: "bool \<Rightarrow> diff_note option \<Rightarrow> gostring \<Rightarrow> file_diff" where
  "no_diff same note enc = \<lparr>fiDiff = [], fiAdded = 0, fiRemoved = 0, fiSame = same, fiEncoding = enc, fiNote = note, fiTruncated = False\<rparr>"

definition decoded :: "codec \<Rightarrow> bytes \<Rightarrow> gostring" where
  "decoded cd a = (case decodeText cd a (detectEncoding a) [] of Inr s \<Rightarrow> s | Inl _ \<Rightarrow> [])"

definition diffTexts :: "gostring \<Rightarrow> gostring \<Rightarrow> gostring \<Rightarrow> nat \<Rightarrow> file_diff" where
  "diffTexts enc ta tb maxBytes =
     (case unifiedDiff ta tb maxBytes of
        (diff, ad, rm, truncated) \<Rightarrow>
          \<lparr>fiDiff = diff, fiAdded = ad, fiRemoved = rm, fiSame = False, fiEncoding = enc,
           fiNote = (if enc \<noteq> [] \<and> ad + rm = 0 then Some OnlyEncoding
                     else if truncated then Some (DiffCut maxBytes) else None),
           fiTruncated = truncated\<rparr>)"

definition diffFiles ::
  "codec \<Rightarrow> (bytes \<Rightarrow> bytes) \<Rightarrow> filesys \<Rightarrow> gostring \<Rightarrow> gostring \<Rightarrow> nat \<Rightarrow> nat \<Rightarrow> bool \<Rightarrow> nat \<Rightarrow> fs_error + file_diff" where
  "diffFiles cd sha fs l r lsize rsize ignoreSpace maxBytes =
     (if maxDiffFileBytes < lsize \<or> maxDiffFileBytes < rsize then
        (case sameContent sha fs l r lsize rsize of
           Inl e \<Rightarrow> Inl e
         | Inr same \<Rightarrow> Inr (no_diff same (Some ComparedByContent) []))
      else case read_path fs l of
        Inl e \<Rightarrow> Inl e
      | Inr a \<Rightarrow>
     (case read_path fs r of
        Inl e \<Rightarrow> Inl e
      | Inr b \<Rightarrow>
          if a = b then Inr (no_diff True None [])
          else if looksBinary a \<or> looksBinary b then Inr (no_diff False (Some BinaryDiffers) [])
          else
            (let ea = detectEncoding a; eb = detectEncoding b;
                 enc = (if ea \<noteq> eb then ea @ ''/'' @ eb else []);
                 ta = decoded cd a; tb = decoded cd b
             in if ignoreSpace then
                  (let ta = squeezeSpace ta; tb = squeezeSpace tb
                   in if ta = tb then Inr (no_diff True (Some OnlyWhitespace) enc) else Inr (diffTexts enc ta tb maxBytes))
                else Inr (diffTexts enc ta tb maxBytes))))"

subsection \<open>Trees\<close>

record treeEntry =
  teKind :: gostring
  teSize :: nat
  teLink :: gostring

text \<open>The map the walk fills, as an association list with distinct keys; a full map stops the walk.\<close>

record tree_map =
  tmEntries :: "(gostring \<times> treeEntry) list"
  tmCapped :: bool

definition tree_entry :: "filesys \<Rightarrow> gostring \<Rightarrow> node \<Rightarrow> treeEntry" where
  "tree_entry fs p x =
     (case x of
        NDir _ \<Rightarrow> \<lparr>teKind = ''dir'', teSize = 0, teLink = []\<rparr>
      | NLink _ \<Rightarrow> \<lparr>teKind = ''symlink'', teSize = 0,
                    teLink = (case Readlink fs (clean_comps p) of Inr t \<Rightarrow> t | Inl _ \<Rightarrow> [])\<rparr>
      | NFile d _ \<Rightarrow> \<lparr>teKind = ''file'', teSize = length d, teLink = []\<rparr>)"

definition tree_skips :: "DiffRequest \<Rightarrow> globSet option \<Rightarrow> gostring \<Rightarrow> gostring \<Rightarrow> gostring \<Rightarrow> bool" where
  "tree_skips req exclude root p name \<longleftrightarrow>
     \<not> dqIncludeHidden req \<and> isHiddenName name \<or> matchAny exclude name (relPath root p) p"

definition tree_visit ::
  "filesys \<Rightarrow> DiffRequest \<Rightarrow> globSet option \<Rightarrow> gostring \<Rightarrow> gostring \<Rightarrow> loc \<Rightarrow> node \<Rightarrow> tree_map \<Rightarrow> walk_ctl \<times> tree_map" where
  "tree_visit fs req exclude root p q x s =
     (if p = root then (Continue, s)
      else if tree_skips req exclude root p (last q) then (case x of NDir _ \<Rightarrow> SkipDir | _ \<Rightarrow> Continue, s)
      else if maxDiffTreeEntries \<le> length (tmEntries s) then (SkipAll, s\<lparr>tmCapped := True\<rparr>)
      else (Continue, s\<lparr>tmEntries := AList.update (relPath root p) (tree_entry fs p x) (tmEntries s)\<rparr>))"

definition walkForDiff :: "filesys \<Rightarrow> gostring \<Rightarrow> DiffRequest \<Rightarrow> globSet option \<Rightarrow> tree_map" where
  "walkForDiff fs root req exclude =
     walkTree fs root (tree_visit fs req exclude root) \<lparr>tmEntries = [], tmCapped = False\<rparr>"

record tree_diff =
  tdAdded :: "gostring list"
  tdRemoved :: "gostring list"
  tdChanged :: "changed_entry list"
  tdTypeChanged :: "(gostring \<times> gostring \<times> gostring) list"
  tdSame :: nat
  tdUnchecked :: nat
  tdTicks :: nat
  tdDiffs :: "FileDiff list"
  tdDiffBytes :: nat

text \<open>The text a file's diff adds to the result: \<open>(no line diff)\<close> or the note in parentheses when there is none.\<close>

definition note_text :: "diff_note option \<Rightarrow> gostring" where
  "note_text n =
     (case n of
        None \<Rightarrow> ''no line diff''
      | Some ComparedByContent \<Rightarrow> ''files over 8 MB are compared by content only (no line diff)''
      | Some BinaryDiffers \<Rightarrow> ''binary content differs (no line diff)''
      | Some OnlyWhitespace \<Rightarrow> ''the files differ only in whitespace''
      | Some (DiffCut m) \<Rightarrow> ''diff cut at max_bytes='' @ Itoa (int m)
      | Some OnlyEncoding \<Rightarrow> ''the files differ only in encoding: the decoded text is the same'')"

definition shown_diff :: "file_diff \<Rightarrow> gostring" where
  "shown_diff d = (if fiDiff d = [] then ''('' @ note_text (fiNote d) @ '')'' else fiDiff d)"

definition compare_files ::
  "codec \<Rightarrow> (bytes \<Rightarrow> bytes) \<Rightarrow> (nat \<Rightarrow> bool) \<Rightarrow> filesys \<Rightarrow> DiffRequest \<Rightarrow> nat \<Rightarrow> gostring \<Rightarrow> gostring \<Rightarrow>
   gostring \<Rightarrow> treeEntry \<Rightarrow> treeEntry \<Rightarrow> tree_diff \<Rightarrow> tree_diff" where
  "compare_files cd sha late fs req maxBytes left right n l r s =
     (let late_now = (0 < tdUnchecked s \<or> late (tdTicks s));
          s = (if tdUnchecked s = 0 then s\<lparr>tdTicks := Suc (tdTicks s)\<rparr> else s) in
      if late_now then s\<lparr>tdUnchecked := Suc (tdUnchecked s)\<rparr>
      else
        (let lp = Join [left, n]; rp = Join [right, n] in
         case sameContent sha fs lp rp (teSize l) (teSize r) of
           Inl e \<Rightarrow> s\<lparr>tdChanged := tdChanged s @ [ChangedUnreadable n e]\<rparr>
         | Inr True \<Rightarrow> s\<lparr>tdSame := Suc (tdSame s)\<rparr>
         | Inr False \<Rightarrow>
             (let s = s\<lparr>tdChanged := tdChanged s @ [ChangedName n]\<rparr> in
              if dqShowDiffs req \<and> length (tdDiffs s) < maxTreeDiffs \<and> tdDiffBytes s < maxBytes then
                (case diffFiles cd sha fs lp rp (teSize l) (teSize r) (dqIgnoreSpace req) (maxBytes - tdDiffBytes s) of
                   Inl _ \<Rightarrow> s
                 | Inr d \<Rightarrow> s\<lparr>tdDiffs := tdDiffs s @ [\<lparr>fdPath = n, fdDiff = shown_diff d\<rparr>],
                              tdDiffBytes := tdDiffBytes s + length (shown_diff d)\<rparr>)
              else s)))"

definition compare_entry ::
  "codec \<Rightarrow> (bytes \<Rightarrow> bytes) \<Rightarrow> (nat \<Rightarrow> bool) \<Rightarrow> filesys \<Rightarrow> DiffRequest \<Rightarrow> nat \<Rightarrow> gostring \<Rightarrow> gostring \<Rightarrow>
   (gostring \<rightharpoonup> treeEntry) \<Rightarrow> (gostring \<rightharpoonup> treeEntry) \<Rightarrow> gostring \<Rightarrow> tree_diff \<Rightarrow> tree_diff" where
  "compare_entry cd sha late fs req maxBytes left right L R n s =
     (case (L n, R n) of
        (_, None) \<Rightarrow> s\<lparr>tdRemoved := tdRemoved s @ [n]\<rparr>
      | (None, Some _) \<Rightarrow> s\<lparr>tdAdded := tdAdded s @ [n]\<rparr>
      | (Some l, Some r) \<Rightarrow>
          if teKind l \<noteq> teKind r then s\<lparr>tdTypeChanged := tdTypeChanged s @ [(n, teKind l, teKind r)]\<rparr>
          else if teKind l = ''symlink'' then
            (if teLink l \<noteq> teLink r then s\<lparr>tdChanged := tdChanged s @ [ChangedName n]\<rparr> else s\<lparr>tdSame := Suc (tdSame s)\<rparr>)
          else if teKind l = ''file'' then compare_files cd sha late fs req maxBytes left right n l r s
          else s\<lparr>tdSame := Suc (tdSame s)\<rparr>)"

definition tree_names :: "tree_map \<Rightarrow> tree_map \<Rightarrow> gostring list" where
  "tree_names l r =
     sort (map fst (tmEntries l) @ filter (\<lambda>n. map_of (tmEntries l) n = None) (map fst (tmEntries r)))"

text \<open>The end of \<open>diffTrees\<close>: the lists are cut, and the comparison is said to be truncated if anything was left out.\<close>

definition tree_result :: "DiffRequest \<Rightarrow> bool \<Rightarrow> tree_diff \<Rightarrow> DiffResult \<Rightarrow> DiffResult" where
  "tree_result req capped s res =
     (let cuts = filter (\<lambda>k. maxDiffListed < k)
                   [length (tdAdded s), length (tdRemoved s), length (tdChanged s), length (tdTypeChanged s)];
          changed = take maxDiffListed (tdChanged s);
          truncated = (capped \<or> cuts \<noteq> [] \<or> 0 < tdUnchecked s)
      in res\<lparr>dfTree := True, dfAdded := take maxDiffListed (tdAdded s), dfRemoved := take maxDiffListed (tdRemoved s),
           dfChanged := changed, dfTypeChanged := take maxDiffListed (tdTypeChanged s), dfSameCount := tdSame s,
           dfDiffs := tdDiffs s, dfTruncated := truncated,
           dfHints := (if capped then [TreeTooLarge] else []) @ map (\<lambda>_. ListCut) cuts @
              (if 0 < tdUnchecked s then [NotCompared (tdUnchecked s)] else []) @
              (if dqShowDiffs req \<and> length (tdDiffs s) < length changed
               then [DiffsShown (length (tdDiffs s)) (length changed)] else []),
           dfIdentical := tdAdded s = [] \<and> tdRemoved s = [] \<and> tdChanged s = [] \<and> tdTypeChanged s = [] \<and> \<not> truncated\<rparr>)"

definition new_tree_diff :: tree_diff where
  "new_tree_diff = \<lparr>tdAdded = [], tdRemoved = [], tdChanged = [], tdTypeChanged = [], tdSame = 0, tdUnchecked = 0,
     tdTicks = 0, tdDiffs = [], tdDiffBytes = 0\<rparr>"

definition diffTrees ::
  "codec \<Rightarrow> compile \<Rightarrow> (bytes \<Rightarrow> bytes) \<Rightarrow> (nat \<Rightarrow> bool) \<Rightarrow> filesys \<Rightarrow> DiffRequest \<Rightarrow> nat \<Rightarrow> DiffResult \<Rightarrow> diff_error + DiffResult" where
  "diffTrees cd rx sha late fs req maxBytes res =
     (case compileGlobs rx (dqExcludeGlob req) False of
        Inl e \<Rightarrow> Inl (DExclude e)
      | Inr exclude \<Rightarrow>
          (let l = walkForDiff fs (dfLeft res) req exclude; r = walkForDiff fs (dfRight res) req exclude
           in Inr (tree_result req (tmCapped l \<or> tmCapped r)
                (fold (compare_entry cd sha late fs req maxBytes (dfLeft res) (dfRight res)
                   (map_of (tmEntries l)) (map_of (tmEntries r))) (tree_names l r) new_tree_diff) res)))"

definition Diff ::
  "codec \<Rightarrow> compile \<Rightarrow> (bytes \<Rightarrow> bytes) \<Rightarrow> (nat \<Rightarrow> bool) \<Rightarrow> DiffRequest \<Rightarrow> gostring list \<Rightarrow> filesys \<Rightarrow> diff_error + DiffResult" where
  "Diff cd rx sha late req roots fs =
     (case validatePath fs (dqLeft req) roots of
        Inl e \<Rightarrow> Inl (DLeft e)
      | Inr left \<Rightarrow>
     (case validatePath fs (dqRight req) roots of
        Inl e \<Rightarrow> Inl (DRight e)
      | Inr right \<Rightarrow>
     (case Stat fs (clean_comps left) of
        Inl e \<Rightarrow> Inl (DLeftStat e)
      | Inr li \<Rightarrow>
     (case Stat fs (clean_comps right) of
        Inl e \<Rightarrow> Inl (DRightStat e)
      | Inr ri \<Rightarrow>
          (let maxBytes = min (if dqMaxBytes req \<le> 0 then defaultDiffMaxBytes else nat (dqMaxBytes req)) maxReadMaxBytes in
           case (li, ri) of
             (NDir _, NDir _) \<Rightarrow> diffTrees cd rx sha late fs req maxBytes (empty_diff left right)
           | (NFile a _, NFile b _) \<Rightarrow>
               (case diffFiles cd sha fs left right (length a) (length b) (dqIgnoreSpace req) maxBytes of
                  Inl e \<Rightarrow> Inl (DRead e)
                | Inr d \<Rightarrow>
                    Inr ((empty_diff left right)\<lparr>dfIdentical := fiSame d, dfDiff := fiDiff d, dfLinesAdded := fiAdded d,
                      dfLinesRemoved := fiRemoved d, dfTruncated := fiTruncated d, dfEncoding := fiEncoding d,
                      dfNote := fiNote d\<rparr>))
           | _ \<Rightarrow> Inl DKindsDiffer)))))"


section \<open>Comparing trees\<close>

text \<open>What the comparison says about one name.\<close>

datatype entry_status =
    StRemoved | StAdded | StTypeChanged gostring gostring | StChanged | StUnreadable fs_error | StSame

definition entry_status ::
  "(bytes \<Rightarrow> bytes) \<Rightarrow> filesys \<Rightarrow> gostring \<Rightarrow> gostring \<Rightarrow> (gostring \<rightharpoonup> treeEntry) \<Rightarrow> (gostring \<rightharpoonup> treeEntry) \<Rightarrow>
   gostring \<Rightarrow> entry_status" where
  "entry_status sha fs left right L R n =
     (case (L n, R n) of
        (_, None) \<Rightarrow> StRemoved
      | (None, Some _) \<Rightarrow> StAdded
      | (Some l, Some r) \<Rightarrow>
          if teKind l \<noteq> teKind r then StTypeChanged (teKind l) (teKind r)
          else if teKind l = ''symlink'' then (if teLink l \<noteq> teLink r then StChanged else StSame)
          else if teKind l = ''file'' then
            (case sameContent sha fs (Join [left, n]) (Join [right, n]) (teSize l) (teSize r) of
               Inl e \<Rightarrow> StUnreadable e
             | Inr True \<Rightarrow> StSame
             | Inr False \<Rightarrow> StChanged)
          else StSame)"

definition changed_of :: "gostring \<Rightarrow> entry_status \<Rightarrow> changed_entry list" where
  "changed_of n st = (case st of StChanged \<Rightarrow> [ChangedName n] | StUnreadable e \<Rightarrow> [ChangedUnreadable n e] | _ \<Rightarrow> [])"

definition type_change_of :: "gostring \<Rightarrow> entry_status \<Rightarrow> (gostring \<times> gostring \<times> gostring) list" where
  "type_change_of n st = (case st of StTypeChanged a b \<Rightarrow> [(n, a, b)] | _ \<Rightarrow> [])"

lemma compare_files_step:
  assumes "st = (case sameContent sha fs (Join [left, n]) (Join [right, n]) (teSize l) (teSize r) of
               Inl e \<Rightarrow> StUnreadable e | Inr True \<Rightarrow> StSame | Inr False \<Rightarrow> StChanged)"
    "t = compare_files cd sha late fs req maxBytes left right n l r s"
  shows "tdUnchecked t = 0 \<longrightarrow> tdUnchecked s = 0 \<and> tdRemoved t = tdRemoved s \<and> tdAdded t = tdAdded s \<and>
    tdTypeChanged t = tdTypeChanged s \<and> tdChanged t = tdChanged s @ changed_of n st \<and>
    tdSame t = tdSame s + (if st = StSame then 1 else 0)"
proof -
  consider (late) "0 < tdUnchecked s \<or> late (tdTicks s)" | (now) "tdUnchecked s = 0" "\<not> late (tdTicks s)" by auto
  then show ?thesis
  proof cases
    case late
    then have "tdUnchecked t \<noteq> 0" using assms(2) by (simp add: compare_files_def Let_def)
    then show ?thesis by simp
  next
    case now
    show ?thesis
    proof (cases "sameContent sha fs (Join [left, n]) (Join [right, n]) (teSize l) (teSize r)")
      case (Inl e)
      with now assms show ?thesis by (simp add: compare_files_def changed_of_def)
    next
      case (Inr b)
      with now assms show ?thesis
        by (cases b) (auto simp: compare_files_def changed_of_def Let_def split: sum.splits)
    qed
  qed
qed

lemma compare_entry_step:
  assumes "st = entry_status sha fs left right L R n" "t = compare_entry cd sha late fs req maxBytes left right L R n s"
  shows "tdUnchecked t = 0 \<longrightarrow> tdUnchecked s = 0 \<and>
    tdRemoved t = tdRemoved s @ (if st = StRemoved then [n] else []) \<and>
    tdAdded t = tdAdded s @ (if st = StAdded then [n] else []) \<and>
    tdTypeChanged t = tdTypeChanged s @ type_change_of n st \<and> tdChanged t = tdChanged s @ changed_of n st \<and>
    tdSame t = tdSame s + (if st = StSame then 1 else 0)"
proof (cases "L n")
  case None
  with assms show ?thesis
    by (cases "R n") (simp_all add: entry_status_def compare_entry_def changed_of_def type_change_of_def)
next
  case L: (Some l)
  show ?thesis
  proof (cases "R n")
    case None
    with L assms show ?thesis by (simp add: entry_status_def compare_entry_def changed_of_def type_change_of_def)
  next
    case R: (Some r)
    show ?thesis
    proof (cases "teKind l = teKind r \<and> teKind l = ''file''")
      case True
      then have k: "teKind l = ''file''" "teKind r = ''file''" by auto
      then have st: "st = (case sameContent sha fs (Join [left, n]) (Join [right, n]) (teSize l) (teSize r) of
               Inl e \<Rightarrow> StUnreadable e | Inr True \<Rightarrow> StSame | Inr False \<Rightarrow> StChanged)"
        and t: "t = compare_files cd sha late fs req maxBytes left right n l r s"
        unfolding assms using L R k by (simp_all add: entry_status_def compare_entry_def)
      from st have "st \<noteq> StRemoved" "st \<noteq> StAdded" "type_change_of n st = []"
        by (auto simp: type_change_of_def split: sum.splits bool.splits)
      with compare_files_step [OF st t] show ?thesis by simp
    next
      case False
      with L R assms show ?thesis
        by (auto simp: entry_status_def compare_entry_def changed_of_def type_change_of_def)
    qed
  qed
qed

lemma compare_fold:
  assumes "s' = fold (compare_entry cd sha late fs req maxBytes left right L R) ns s" "tdUnchecked s' = 0"
  shows "tdUnchecked s = 0 \<and>
    tdRemoved s' = tdRemoved s @ filter (\<lambda>n. entry_status sha fs left right L R n = StRemoved) ns \<and>
    tdAdded s' = tdAdded s @ filter (\<lambda>n. entry_status sha fs left right L R n = StAdded) ns \<and>
    tdTypeChanged s' = tdTypeChanged s @ concat (map (\<lambda>n. type_change_of n (entry_status sha fs left right L R n)) ns) \<and>
    tdChanged s' = tdChanged s @ concat (map (\<lambda>n. changed_of n (entry_status sha fs left right L R n)) ns) \<and>
    tdSame s' = tdSame s + length (filter (\<lambda>n. entry_status sha fs left right L R n = StSame) ns)"
  using assms
proof (induction ns arbitrary: s)
  case (Cons n ns)
  let ?t = "compare_entry cd sha late fs req maxBytes left right L R n s"
  have s': "s' = fold (compare_entry cd sha late fs req maxBytes left right L R) ns ?t" using Cons.prems(1) by simp
  note t = Cons.IH [OF s' Cons.prems(2)]
  with compare_entry_step [OF refl refl, of cd sha late fs req maxBytes left right L R n s] show ?case by simp
qed simp

lemma compare_fold_same:
  assumes "s' = fold (compare_entry cd sha late fs req maxBytes left right L R) ns s" "tdUnchecked s' = 0"
    "tdRemoved s' = []" "tdAdded s' = []" "tdTypeChanged s' = []" "tdChanged s' = []" "n \<in> set ns"
  shows "entry_status sha fs left right L R n = StSame"
proof -
  note f = compare_fold [OF assms(1,2)]
  have "entry_status sha fs left right L R n \<noteq> StRemoved" "entry_status sha fs left right L R n \<noteq> StAdded"
    using f assms(3,4,7) by (auto simp: filter_empty_conv)
  moreover have "type_change_of n (entry_status sha fs left right L R n) = []"
    "changed_of n (entry_status sha fs left right L R n) = []"
    using f assms(5,6,7) by auto
  ultimately show ?thesis
    by (cases "entry_status sha fs left right L R n") (auto simp: type_change_of_def changed_of_def)
qed

lemma set_tree_names: "set (tree_names l r) = dom (map_of (tmEntries l)) \<union> dom (map_of (tmEntries r))"
  by (auto simp: tree_names_def dom_map_of_conv_image_fst map_of_eq_None_iff)

lemma tree_result_sel:
  "dfTree (tree_result req capped s res)" "dfLeft (tree_result req capped s res) = dfLeft res" "dfRight (tree_result req capped s res) = dfRight res"
  "dfIdentical (tree_result req capped s res) \<longleftrightarrow> tdAdded s = [] \<and> tdRemoved s = [] \<and> tdChanged s = [] \<and>
     tdTypeChanged s = [] \<and> \<not> dfTruncated (tree_result req capped s res)"
  by (simp_all add: tree_result_def Let_def)

lemma tree_result_whole:
  assumes "\<not> dfTruncated (tree_result req capped s res)"
  shows "\<not> capped \<and> tdUnchecked s = 0 \<and> dfAdded (tree_result req capped s res) = tdAdded s \<and>
    dfRemoved (tree_result req capped s res) = tdRemoved s \<and> dfChanged (tree_result req capped s res) = tdChanged s \<and>
    dfTypeChanged (tree_result req capped s res) = tdTypeChanged s \<and>
    dfSameCount (tree_result req capped s res) = tdSame s"
  using assms by (auto simp: tree_result_def Let_def split: if_splits)

lemma diffTrees_tree: "diffTrees cd rx sha late fs req maxBytes res = Inr r \<Longrightarrow> dfTree r"
  by (auto simp: diffTrees_def Let_def tree_result_sel split: sum.splits)

lemma diffTrees_cases:
  assumes "diffTrees cd rx sha late fs req maxBytes res = Inr r" "compileGlobs rx (dqExcludeGlob req) False = Inr exclude"
  shows "dfLeft r = dfLeft res \<and> dfRight r = dfRight res \<and>
    (let l = walkForDiff fs (dfLeft r) req exclude; t = walkForDiff fs (dfRight r) req exclude
     in r = tree_result req (tmCapped l \<or> tmCapped t)
              (fold (compare_entry cd sha late fs req maxBytes (dfLeft r) (dfRight r)
                 (map_of (tmEntries l)) (map_of (tmEntries t))) (tree_names l t) new_tree_diff) res)"
  using assms tree_result_sel unfolding diffTrees_def Let_def by auto

lemma Diff_tree:
  assumes "Diff cd rx sha late req roots fs = Inr r" "dfTree r"
  obtains left right maxBytes where "diffTrees cd rx sha late fs req maxBytes (empty_diff left right) = Inr r"
proof -
  obtain left right li ri where v: "validatePath fs (dqLeft req) roots = Inr left" "validatePath fs (dqRight req) roots = Inr right"
    "Stat fs (clean_comps left) = Inr li" "Stat fs (clean_comps right) = Inr ri"
    using assms(1) unfolding Diff_def by (auto split: sum.splits)
  note d = assms(1) [unfolded Diff_def v sum.case Let_def]
  show thesis
  proof (cases li)
    case (NFile a m)
    with d assms(2) show thesis by (cases ri) (auto simp: empty_diff_def split: sum.splits)
  next
    case (NDir m)
    with d that show thesis by (cases ri) simp_all
  qed (use d in simp)
qed


section \<open>What the walk lists\<close>

text \<open>The relative paths of the entries below a root that are not skipped, and not below a skipped directory.\<close>

definition tree_enters :: "DiffRequest \<Rightarrow> globSet option \<Rightarrow> gostring \<Rightarrow> (loc \<Rightarrow> gostring) \<Rightarrow> loc \<Rightarrow> node \<Rightarrow> bool" where
  "tree_enters req exclude root nm q x \<longleftrightarrow> nm q = root \<or> \<not> tree_skips req exclude root (nm q) (last q) \<or> (case x of NDir _ \<Rightarrow> False | _ \<Rightarrow> True)"

definition tree_lists :: "DiffRequest \<Rightarrow> globSet option \<Rightarrow> gostring \<Rightarrow> (loc \<Rightarrow> gostring) \<Rightarrow> loc \<Rightarrow> bool" where
  "tree_lists req exclude root nm q \<longleftrightarrow> nm q \<noteq> root \<and> \<not> tree_skips req exclude root (nm q) (last q)"

definition tree_seen :: "filesys \<Rightarrow> gostring \<Rightarrow> DiffRequest \<Rightarrow> globSet option \<Rightarrow> gostring set" where
  "tree_seen fs root req exclude =
     (case walk_root fs root of
        None \<Rightarrow> {}
      | Some (real, nm) \<Rightarrow>
          {relPath root (nm q) |q. reach fs (tree_enters req exclude root nm) real q \<and> tree_lists req exclude root nm q})"

definition tree_step ::
  "filesys \<Rightarrow> DiffRequest \<Rightarrow> globSet option \<Rightarrow> gostring \<Rightarrow> (loc \<Rightarrow> gostring) \<Rightarrow> loc \<Rightarrow> tree_map \<Rightarrow> tree_map" where
  "tree_step fs req exclude root nm q s =
     (case node_at fs q of None \<Rightarrow> s | Some x \<Rightarrow> snd (tree_visit fs req exclude root (nm q) q x s))"

lemma tree_step_dom:
  assumes "\<not> tmCapped (tree_step fs req exclude root nm q s)"
  shows "\<not> tmCapped s \<and> dom (map_of (tmEntries (tree_step fs req exclude root nm q s))) =
    dom (map_of (tmEntries s)) \<union>
    (if node_at fs q \<noteq> None \<and> tree_lists req exclude root nm q then {relPath root (nm q)} else {})"
  using assms by (auto simp: tree_step_def tree_visit_def tree_lists_def update_conv' split: option.splits if_splits)

lemma tree_fold_dom:
  assumes "s' = fold_until tmCapped (tree_step fs req exclude root nm) qs s" "\<not> tmCapped s'"
  shows "dom (map_of (tmEntries s')) = dom (map_of (tmEntries s)) \<union>
    {relPath root (nm q) |q. q \<in> set qs \<and> node_at fs q \<noteq> None \<and> tree_lists req exclude root nm q}"
  using assms
proof (induction qs arbitrary: s)
  case (Cons q qs)
  let ?t = "tree_step fs req exclude root nm q s"
  have "\<not> tmCapped s" using Cons.prems by (auto simp: fold_until_stopped)
  then have s': "s' = fold_until tmCapped (tree_step fs req exclude root nm) qs ?t" using Cons.prems(1) by simp
  then have "\<not> tmCapped ?t" using Cons.prems(2) by (auto simp: fold_until_stopped)
  from Cons.IH [OF s' Cons.prems(2)] tree_step_dom [OF this] show ?case by auto
qed simp

lemma tree_visit_fold:
  assumes "node_at fs q = Some x" "\<not> tmCapped s"
  shows "tree_visit fs req exclude root (nm q) q x s =
    (if tmCapped (tree_step fs req exclude root nm q s) then (SkipAll, tree_step fs req exclude root nm q s)
     else (if tree_enters req exclude root nm q x then Continue else SkipDir, tree_step fs req exclude root nm q s))"
  using assms by (cases x) (simp_all add: tree_step_def tree_visit_def tree_enters_def)

lemma walkForDiff_seen:
  assumes "\<not> tmCapped (walkForDiff fs root req exclude)"
  shows "dom (map_of (tmEntries (walkForDiff fs root req exclude))) = tree_seen fs root req exclude"
proof (cases "walk_root fs root")
  case None
  then show ?thesis by (simp add: walkForDiff_def walkTree_def tree_seen_def)
next
  case (Some rn)
  then obtain real nm where w: "walk_root fs root = Some (real, nm)" by (cases rn) auto
  let ?qs = "visits fs (tree_enters req exclude root nm) [real]"
  have "walkForDiff fs root req exclude =
      walk_list fs (\<lambda>p. tree_visit fs req exclude root (nm p) p) [real] \<lparr>tmEntries = [], tmCapped = False\<rparr>"
    by (simp add: walkForDiff_def walkTree_def w)
  also have "\<dots> = fold_until tmCapped (tree_step fs req exclude root nm) ?qs \<lparr>tmEntries = [], tmCapped = False\<rparr>"
    by (rule walk_list_fold_after, rule tree_visit_fold) simp_all
  finally show ?thesis
    using tree_fold_dom [OF _ assms] reach_prefix by (fastforce simp: tree_seen_def w mem_visits)
qed

text \<open>The names of both trees, in order and once each.\<close>

lemma distinct_walkForDiff: "distinct (map fst (tmEntries (walkForDiff fs root req exclude)))"
proof (cases "walk_root fs root")
  case None
  then show ?thesis by (simp add: walkForDiff_def walkTree_def)
next
  case (Some rn)
  have *: "distinct (map fst (tmEntries s)) \<Longrightarrow> distinct (map fst (tmEntries (walk_list fs (\<lambda>p. tree_visit fs req exclude root (nm p) p) ps s)))"
    for nm ps s
  proof (induction ps arbitrary: s rule: walk_induct [where fs = fs])
    case (Some p ps x)
    have "distinct (map fst (tmEntries (snd (tree_visit fs req exclude root (nm p) p x s))))"
      using Some.prems by (simp add: tree_visit_def distinct_update)
    with Some show ?case by (auto simp: walk_list.simps(2) split: prod.splits walk_ctl.splits)
  qed (simp_all add: walk_list.simps(2))
  show ?thesis using * [of "\<lparr>tmEntries = [], tmCapped = False\<rparr>"] Some
    by (auto simp: walkForDiff_def walkTree_def split: prod.splits)
qed

lemma tree_names_sorted:
  assumes "l = walkForDiff fs left req exclude" "t = walkForDiff fs right req exclude"
  shows "sorted (tree_names l t) \<and> distinct (tree_names l t)"
proof -
  have "map_of (tmEntries l) n = None \<longleftrightarrow> n \<notin> set (map fst (tmEntries l))" for n by (simp add: map_of_eq_None_iff)
  then show ?thesis using distinct_walkForDiff assms by (auto simp: tree_names_def)
qed

lemma sorted_filter_set:
  fixes ns :: "'a :: linorder list"
  assumes "sorted ns \<and> distinct ns" shows "filter P ns = sorted_list_of_set {n \<in> set ns. P n}"
proof -
  have "sorted (filter P ns)" "distinct (filter P ns)" using assms sorted_filter [of "\<lambda>x. x" ns P] by simp_all
  from sorted_list_of_set.idem_if_sorted_distinct [OF this] show ?thesis by (simp add: Collect_conj_eq Int_commute)
qed

lemma statuses_counted:
  "length (filter (\<lambda>n. st n = StSame) ns) + length (concat (map (\<lambda>n. changed_of n (st n)) ns)) +
     length (concat (map (\<lambda>n. type_change_of n (st n)) ns)) =
   length (filter (\<lambda>n. st n \<noteq> StRemoved \<and> st n \<noteq> StAdded) ns)"
proof (induction ns)
  case (Cons n ns)
  then show ?case by (cases "st n") (simp_all add: changed_of_def type_change_of_def)
qed simp

text \<open>C16: two trees reported as identical are identical: every entry the walk sees on one side is on the
  other, of the same kind; links have the same target, and files the same bytes.  This holds as long as
  SHA-256 does not collide on the files of the host, and it covers every entry, because a truncated
  comparison is never reported as identical.\<close>

theorem identical_trees:
  assumes "Diff cd rx sha late req roots fs = Inr r" "dfTree r" "dfIdentical r"
    "inj_on sha {d. \<exists>q m. node_at fs q = Some (NFile d m)}" "compileGlobs rx (dqExcludeGlob req) False = Inr exclude"
    "l = walkForDiff fs (dfLeft r) req exclude" "t = walkForDiff fs (dfRight r) req exclude"
  shows "\<not> tmCapped l \<and> \<not> tmCapped t \<and> 
    tree_seen fs (dfLeft r) req exclude = tree_seen fs (dfRight r) req exclude \<and>
    (\<forall>n a b. map_of (tmEntries l) n = Some a \<longrightarrow> map_of (tmEntries t) n = Some b \<longrightarrow>
       teKind a = teKind b \<and> (teKind a = ''symlink'' \<longrightarrow> teLink a = teLink b) \<and>
       (teKind a = ''file'' \<longrightarrow> (\<exists>d. read_path fs (Join [dfLeft r, n]) = Inr d \<and> read_path fs (Join [dfRight r, n]) = Inr d)))"
proof -
  let ?L = "map_of (tmEntries l)" and ?R = "map_of (tmEntries t)"
  obtain left right maxBytes where "diffTrees cd rx sha late fs req maxBytes (empty_diff left right) = Inr r"
    using Diff_tree [OF assms(1,2)] .
  note r = diffTrees_cases [OF this assms(5), unfolded Let_def, folded assms(6,7)]
  define s where "s = fold (compare_entry cd sha late fs req maxBytes (dfLeft r) (dfRight r) ?L ?R) (tree_names l t) new_tree_diff"
  have r: "r = tree_result req (tmCapped l \<or> tmCapped t) s (empty_diff left right)" using r unfolding s_def by (elim conjE)
  then have same: "tdAdded s = []" "tdRemoved s = []" "tdChanged s = []" "tdTypeChanged s = []" "\<not> dfTruncated r"
    using assms(3) tree_result_sel(4) by metis+
  then have whole: "\<not> tmCapped l \<and> \<not> tmCapped t" "tdUnchecked s = 0" using r tree_result_whole by metis+
  have st: "entry_status sha fs (dfLeft r) (dfRight r) ?L ?R n = StSame" if "n \<in> dom ?L \<union> dom ?R" for n
    using compare_fold_same [OF s_def whole(2) same(2,1,4,3)] that unfolding set_tree_names by blast
  have doms: "dom ?L = dom ?R"
  proof (intro set_eqI iffI)
    fix n assume "n \<in> dom ?L"
    then show "n \<in> dom ?R" using st [of n] by (auto simp: entry_status_def split: option.splits)
  next
    fix n assume "n \<in> dom ?R"
    then show "n \<in> dom ?L" using st [of n] by (auto simp: entry_status_def split: option.splits)
  qed
  have "tree_seen fs (dfLeft r) req exclude = tree_seen fs (dfRight r) req exclude"
    using doms whole(1) walkForDiff_seen [of fs "dfLeft r" req exclude, folded assms(6)]
      walkForDiff_seen [of fs "dfRight r" req exclude, folded assms(7)] by simp
  moreover have "teKind a = teKind b \<and> (teKind a = ''symlink'' \<longrightarrow> teLink a = teLink b) \<and>
       (teKind a = ''file'' \<longrightarrow> (\<exists>d. read_path fs (Join [dfLeft r, n]) = Inr d \<and> read_path fs (Join [dfRight r, n]) = Inr d))"
    if e: "?L n = Some a" "?R n = Some b" for n a b
  proof -
    have n: "entry_status sha fs (dfLeft r) (dfRight r) ?L ?R n = StSame" using st e by blast
    have "\<exists>d. read_path fs (Join [dfLeft r, n]) = Inr d \<and> read_path fs (Join [dfRight r, n]) = Inr d" if "teKind a = ''file''"
    proof -
      have "sameContent sha fs (Join [dfLeft r, n]) (Join [dfRight r, n]) (teSize a) (teSize b) = Inr True"
        using n e that by (auto simp: entry_status_def split: sum.splits bool.splits if_splits)
      then obtain d d' where d: "read_path fs (Join [dfLeft r, n]) = Inr d" "read_path fs (Join [dfRight r, n]) = Inr d'" "sha d = sha d'"
        by (auto simp: sameContent_def fileDigest_def map_sum_def split: sum.splits if_splits)
      have "read_path fs p = Inr x \<Longrightarrow> \<exists>q m. node_at fs q = Some (NFile x m)" for p x
        by (auto simp: read_path_def Stat_def split: sum.splits option.splits node.splits)
      with d have "d = d'" using inj_onD [OF assms(4) d(3)] by blast
      with d show ?thesis by blast
    qed
    moreover have "teKind a = teKind b" "teKind a = ''symlink'' \<longrightarrow> teLink a = teLink b"
      using n e by (auto simp: entry_status_def split: if_splits sum.splits bool.splits)
    ultimately show ?thesis by blast
  qed
  ultimately show ?thesis using whole(1) by blast
qed


text \<open>C17: a tree comparison that is not marked as truncated is complete and exact: the removed and added
  entries are the sorted differences of what a walk reaches on the two sides, and every entry on both
  sides is counted once, as changed, of changed type, or the same.\<close>

theorem tree_diff_exact:
  assumes "Diff cd rx sha late req roots fs = Inr r" "dfTree r" "\<not> dfTruncated r"
    "compileGlobs rx (dqExcludeGlob req) False = Inr exclude"
    "L = tree_seen fs (dfLeft r) req exclude" "R = tree_seen fs (dfRight r) req exclude"
  shows "dfRemoved r = sorted_list_of_set (L - R) \<and> dfAdded r = sorted_list_of_set (R - L) \<and>
    dfSameCount r + length (dfChanged r) + length (dfTypeChanged r) = card (L \<inter> R) \<and>
    (dfIdentical r \<longleftrightarrow> L = R \<and> dfSameCount r = card L)"
proof -
  define l t where w: "l = walkForDiff fs (dfLeft r) req exclude" "t = walkForDiff fs (dfRight r) req exclude"
  let ?st = "entry_status sha fs (dfLeft r) (dfRight r) (map_of (tmEntries l)) (map_of (tmEntries t))"
  obtain left right maxBytes where "diffTrees cd rx sha late fs req maxBytes (empty_diff left right) = Inr r"
    using Diff_tree [OF assms(1,2)] .
  note r = diffTrees_cases [OF this assms(4), unfolded Let_def, folded w]
  define s where "s = fold (compare_entry cd sha late fs req maxBytes (dfLeft r) (dfRight r) (map_of (tmEntries l)) (map_of (tmEntries t)))
    (tree_names l t) new_tree_diff"
  have r: "r = tree_result req (tmCapped l \<or> tmCapped t) s (empty_diff left right)" using r unfolding s_def by (elim conjE)
  then have whole: "\<not> tmCapped l" "\<not> tmCapped t" "tdUnchecked s = 0" "dfAdded r = tdAdded s" "dfRemoved r = tdRemoved s"
    "dfChanged r = tdChanged s" "dfTypeChanged r = tdTypeChanged s" "dfSameCount r = tdSame s"
    using assms(3) tree_result_whole by (metis, metis, metis, metis, metis, metis, metis, metis)
  have dom: "dom (map_of (tmEntries l)) = L" "dom (map_of (tmEntries t)) = R"
    using walkForDiff_seen whole(1,2) unfolding w assms(5,6) by blast+
  have names: "set (tree_names l t) = L \<union> R" by (simp add: set_tree_names dom)
  note sorted = tree_names_sorted [OF w]
  note f = compare_fold [OF s_def whole(3)]
  have st: "?st n = StRemoved \<longleftrightarrow> n \<notin> R" "?st n = StAdded \<longleftrightarrow> n \<in> R \<and> n \<notin> L" for n
    unfolding dom [symmetric] by (auto simp: entry_status_def split: option.splits sum.splits bool.splits)
  have sets: "{n \<in> set (tree_names l t). ?st n = StRemoved} = L - R" "{n \<in> set (tree_names l t). ?st n = StAdded} = R - L"
    "{n \<in> set (tree_names l t). ?st n \<noteq> StRemoved \<and> ?st n \<noteq> StAdded} = L \<inter> R"
    unfolding st names by blast+
  have lists: "tdRemoved s = filter (\<lambda>n. ?st n = StRemoved) (tree_names l t)" "tdAdded s = filter (\<lambda>n. ?st n = StAdded) (tree_names l t)"
    "tdSame s + length (tdChanged s) + length (tdTypeChanged s) =
      length (filter (\<lambda>n. ?st n \<noteq> StRemoved \<and> ?st n \<noteq> StAdded) (tree_names l t))"
    using f statuses_counted [of ?st "tree_names l t"] by (simp_all add: new_tree_diff_def)
  have removed: "dfRemoved r = sorted_list_of_set (L - R)"
    unfolding whole(5) lists sorted_filter_set [OF sorted] sets ..
  have added: "dfAdded r = sorted_list_of_set (R - L)"
    unfolding whole(4) lists sorted_filter_set [OF sorted] sets ..
  have count: "dfSameCount r + length (dfChanged r) + length (dfTypeChanged r) = card (L \<inter> R)"
  proof -
    have "dfSameCount r + length (dfChanged r) + length (dfTypeChanged r) =
        card {n \<in> set (tree_names l t). ?st n \<noteq> StRemoved \<and> ?st n \<noteq> StAdded}"
      unfolding whole lists using sorted by (simp add: distinct_length_filter Int_def conj_commute)
    also have "\<dots> = card (L \<inter> R)" unfolding sets ..
    finally show ?thesis .
  qed
  have "dfIdentical r \<longleftrightarrow> L = R \<and> dfSameCount r = card L"
  proof -
    have fin: "finite L" "finite R" using dom finite_dom_map_of by metis+
    have "dfIdentical r \<longleftrightarrow> dfAdded r = [] \<and> dfRemoved r = [] \<and> dfChanged r = [] \<and> dfTypeChanged r = []"
      using tree_result_sel(4) r assms(3) whole(4-7) by metis
    moreover have "dfAdded r = [] \<and> dfRemoved r = [] \<longleftrightarrow> L = R"
      unfolding removed added using fin by (auto simp: sorted_list_of_set_eq_Nil_iff)
    ultimately show ?thesis using count by auto
  qed
  with removed added count show ?thesis by blast
qed


section \<open>The words of a line\<close>

lemma squeezeSpace_eq:
  "squeezeSpace s = squeezeSpace t \<longleftrightarrow> map Fields (split_on nl s) = map Fields (split_on nl t)"
proof
  assume eq: "squeezeSpace s = squeezeSpace t"
  have no_nl: "nl \<notin> set (join '' '' (Fields l))" for l
    using join_set [of nl "'' ''" "Fields l"] Fields_no_space [of _ l nl] by (auto simp: bval_def is_space_def)
  have parts: "split_on nl (squeezeSpace x) = map (\<lambda>l. join '' '' (Fields l)) (split_on nl x)" for x
    unfolding squeezeSpace_def using no_nl split_on_not_Nil by (intro split_on_join) auto
  have lines: "map (\<lambda>l. join '' '' (Fields l)) (split_on nl s) = map (\<lambda>l. join '' '' (Fields l)) (split_on nl t)"
    using parts [of s] parts [of t] eq by argo
  have words: "Fields k = Fields l" if "join '' '' (Fields k) = join '' '' (Fields l)" for k l
    using that Fields_nonempty Fields_no_space [of _ _ "CHR '' ''"]
    by (intro join_words_inj [of "CHR '' ''"]) (auto simp: bval_def is_space_def)
  show "map Fields (split_on nl s) = map Fields (split_on nl t)"
    using lines words by (auto simp: list_eq_iff_nth_eq)
next
  assume eq: "map Fields (split_on nl s) = map Fields (split_on nl t)"
  have "squeezeSpace x = join [nl] (map (join '' '') (map Fields (split_on nl x)))" for x
    by (simp add: squeezeSpace_def comp_def)
  then show "squeezeSpace s = squeezeSpace t" using eq by metis
qed

section \<open>Comparing files\<close>

lemma read_path_Stat: "Stat fs (clean_comps p) = Inr (NFile d m) \<Longrightarrow> read_path fs p = Inr d"
  by (simp add: read_path_def)

lemma decoded_valid: "Valid a \<Longrightarrow> decoded cd a = a"
  using detectEncoding_window [of a "length a" 0] by (simp add: decoded_def decodeText_def utf8_name)

lemma diffFiles_same:
  assumes "read_path fs l = Inr a" "read_path fs r = Inr b" "sha a = sha b \<longrightarrow> a = b"
    "diffFiles cd sha fs l r (length a) (length b) sp mb = Inr d"
  shows "fiSame d \<longleftrightarrow> a = b \<or> sp \<and> length a \<le> maxDiffFileBytes \<and> length b \<le> maxDiffFileBytes \<and>
    \<not> looksBinary a \<and> \<not> looksBinary b \<and> squeezeSpace (decoded cd a) = squeezeSpace (decoded cd b)"
proof -
  consider (big) "maxDiffFileBytes < length a \<or> maxDiffFileBytes < length b"
    | (small) "length a \<le> maxDiffFileBytes" "length b \<le> maxDiffFileBytes" by linarith
  then show ?thesis
  proof cases
    case big
    with assms show ?thesis
      by (auto simp: diffFiles_def sameContent_def fileDigest_def no_diff_def split: if_splits)
  next
    case small
    then have "\<not> (maxDiffFileBytes < length a \<or> maxDiffFileBytes < length b)" by simp
    then have d: "(if a = b then Inr (no_diff True None [])
          else if looksBinary a \<or> looksBinary b then Inr (no_diff False (Some BinaryDiffers) [])
          else
            (let ea = detectEncoding a; eb = detectEncoding b;
                 enc = (if ea \<noteq> eb then ea @ ''/'' @ eb else []);
                 ta = decoded cd a; tb = decoded cd b
             in if sp then
                  (let ta = squeezeSpace ta; tb = squeezeSpace tb
                   in if ta = tb then Inr (no_diff True (Some OnlyWhitespace) enc) else Inr (diffTexts enc ta tb mb))
                else Inr (diffTexts enc ta tb mb))) = (Inr d :: fs_error + file_diff)"
      using assms(4) unfolding diffFiles_def assms(1,2) sum.case by (simp only: if_False)
    have t: "\<not> fiSame (diffTexts enc x y mb)" for enc x y by (simp add: diffTexts_def split: prod.splits)
    show ?thesis
    proof (cases "a = b \<or> looksBinary a \<or> looksBinary b")
      case True
      with d small show ?thesis by (auto simp: no_diff_def split: if_splits)
    next
      case False
      with d have "d = (let enc = (if detectEncoding a \<noteq> detectEncoding b then detectEncoding a @ ''/'' @ detectEncoding b else []);
          ta = decoded cd a; tb = decoded cd b
        in if sp then (if squeezeSpace ta = squeezeSpace tb then no_diff True (Some OnlyWhitespace) enc
             else diffTexts enc (squeezeSpace ta) (squeezeSpace tb) mb) else diffTexts enc ta tb mb)"
        by (simp add: Let_def split: if_splits)
      with False small t show ?thesis by (simp add: Let_def no_diff_def)
    qed
  qed
qed

text \<open>C18: comparing two files tells the truth about their bytes: without \<open>ignore_space\<close> they are reported as
  identical exactly if they are equal (files over 8 MB as long as SHA-256 tells them apart).  With it,
  text files of at most 8 MB count as identical as soon as their lines have the same words in the same
  order: the words are what \<open>strings.Fields\<close> leaves, so a change of indentation does not count.\<close>

theorem file_diff_exact:
  assumes "Diff cd rx sha late req roots fs = Inr r" "\<not> dfTree r"
    "Stat fs (clean_comps (dfLeft r)) = Inr (NFile a ma)" "Stat fs (clean_comps (dfRight r)) = Inr (NFile b mb)"
    "sha a = sha b \<longrightarrow> a = b"
  shows "dfIdentical r \<longleftrightarrow> a = b \<or> dqIgnoreSpace req \<and> length a \<le> maxDiffFileBytes \<and> length b \<le> maxDiffFileBytes \<and>
    \<not> looksBinary a \<and> \<not> looksBinary b \<and>
    map Fields (split_on nl (decoded cd a)) = map Fields (split_on nl (decoded cd b))"
proof -
  obtain left right li ri where v: "validatePath fs (dqLeft req) roots = Inr left" "validatePath fs (dqRight req) roots = Inr right"
    "Stat fs (clean_comps left) = Inr li" "Stat fs (clean_comps right) = Inr ri"
    using assms(1) unfolding Diff_def by (auto split: sum.splits)
  note d = assms(1) [unfolded Diff_def v sum.case Let_def]
  obtain x mx y my where n: "li = NFile x mx" "ri = NFile y my"
  proof (cases li)
    case (NFile x mx)
    with d that show thesis by (cases ri) simp_all
  next
    case (NDir m)
    with d assms(2) show thesis using diffTrees_tree by (cases ri) auto
  qed (use d in simp)
  obtain fd maxBytes where fd: "diffFiles cd sha fs left right (length x) (length y) (dqIgnoreSpace req) maxBytes = Inr fd"
    "dfLeft r = left" "dfRight r = right" "dfIdentical r = fiSame fd"
    using d unfolding n by (auto simp: empty_diff_def split: sum.splits)
  then have "x = a" "y = b" using v(3,4) n assms(3,4) by simp_all
  then show ?thesis
    using diffFiles_same [OF read_path_Stat read_path_Stat, of fs left x mx right y my sha cd "dqIgnoreSpace req" maxBytes fd]
      v(3,4) n fd assms(5) squeezeSpace_eq by simp
qed

section \<open>Witnesses\<close>

definition diff_fs :: filesys where
  "diff_fs = \<lparr>nodes = [([''a''], NDir 493), ([''a'', ''f''], NFile ''x'' 420), ([''b''], NDir 493), ([''b'', ''f''], NFile ''x'' 420),
     ([''b'', ''g''], NFile ''y'' 420)], workdir = ''/'', umask = 18\<rparr>"

definition diff_request :: "gostring \<Rightarrow> gostring \<Rightarrow> gostring list \<Rightarrow> DiffRequest" where
  "diff_request l r ex = \<lparr>dqLeft = l, dqRight = r, dqIgnoreSpace = True, dqExcludeGlob = ex, dqIncludeHidden = False,
     dqMaxBytes = 0, dqShowDiffs = False\<rparr>"

lemma diff_fs_walk:
  "validatePath diff_fs ''/a'' [] = Inr ''/a''" "validatePath diff_fs ''/b'' [] = Inr ''/b''"
  "Stat diff_fs (clean_comps ''/a'') = Inr (NDir 493)" "Stat diff_fs (clean_comps ''/b'') = Inr (NDir 493)"
  "Lstat diff_fs [''a''] = Inr (NDir 493)" "EvalSymlinks diff_fs [''a''] = Inr [''a'']"
  "Lstat diff_fs [''b''] = Inr (NDir 493)" "EvalSymlinks diff_fs [''b''] = Inr [''b'']"
  "clean_comps ''/a'' = [''a'']" "clean_comps ''/b'' = [''b'']"
  "relPath ''/a'' ''/a/f'' = ''f''" "relPath ''/b'' ''/b/f'' = ''f''" "relPath ''/b'' ''/b/g'' = ''g''"
  "entries diff_fs [''a''] = [[''a'', ''f'']]" "entries diff_fs [''b''] = [[''b'', ''f''], [''b'', ''g'']]"
  "entries diff_fs [''a'', ''f''] = []" "entries diff_fs [''b'', ''f''] = []" "entries diff_fs [''b'', ''g''] = []"
  "node_at diff_fs [''a''] = Some (NDir 493)" "node_at diff_fs [''a'', ''f''] = Some (NFile ''x'' 420)"
  "node_at diff_fs [''b''] = Some (NDir 493)" "node_at diff_fs [''b'', ''f''] = Some (NFile ''x'' 420)"
  "node_at diff_fs [''b'', ''g''] = Some (NFile ''y'' 420)"
  "read_path diff_fs (Join [''/a'', ''f'']) = Inr ''x''" "read_path diff_fs (Join [''/b'', ''f'']) = Inr ''x''"
  by code_simp+

lemma diff_fs_trees:
  assumes "dqIncludeHidden req = False"
  shows "walkForDiff diff_fs ''/a'' req None = \<lparr>tmEntries = [(''f'', \<lparr>teKind = ''file'', teSize = 1, teLink = []\<rparr>)], tmCapped = False\<rparr>"
   "walkForDiff diff_fs ''/b'' req None = \<lparr>tmEntries = [(''f'', \<lparr>teKind = ''file'', teSize = 1, teLink = []\<rparr>),
       (''g'', \<lparr>teKind = ''file'', teSize = 1, teLink = []\<rparr>)], tmCapped = False\<rparr>"
  using assms
  by (simp_all add: walkForDiff_def walkTree_def walk_root_def diff_fs_walk Let_def walk_list.simps(2) tree_visit_def path_of_def
      tree_skips_def isHiddenName_def HasPrefix_def matchAny_def tree_entry_def maxDiffTreeEntries_def)

lemma Diff_dirs:
  assumes "validatePath fs (dqLeft req) roots = Inr left" "validatePath fs (dqRight req) roots = Inr right"
    "Stat fs (clean_comps left) = Inr (NDir m)" "Stat fs (clean_comps right) = Inr (NDir m')"
  shows "\<exists>maxBytes. Diff cd rx sha late req roots fs = diffTrees cd rx sha late fs req maxBytes (empty_diff left right)"
  unfolding Diff_def assms sum.case Let_def by auto

definition plain_entry :: treeEntry where
  "plain_entry = \<lparr>teKind = ''file'', teSize = 1, teLink = []\<rparr>"

lemma diff_fs_compare:
  assumes "read_path diff_fs (Join [left, ''f'']) = Inr ''x''" "read_path diff_fs (Join [right, ''f'']) = Inr ''x''"
    "L ''f'' = Some plain_entry" "R ''f'' = Some plain_entry"
  shows "compare_entry cd id (\<lambda>_. False) diff_fs req mb left right L R ''f'' new_tree_diff = new_tree_diff\<lparr>tdTicks := 1, tdSame := 1\<rparr>"
  using assms by (simp add: compare_entry_def compare_files_def sameContent_def fileDigest_def plain_entry_def new_tree_diff_def)

lemma small_tree_result:
  assumes "length (tdAdded s) \<le> 500" "tdRemoved s = []" "tdChanged s = []" "tdTypeChanged s = []" "tdUnchecked s = 0"
  shows "\<not> dfTruncated (tree_result req False s res)" "tdAdded s = [] \<Longrightarrow> dfIdentical (tree_result req False s res)"
  using assms by (simp_all add: tree_result_def Let_def maxDiffListed_def)

lemma no_excludes: "compileGlobs rx (dqExcludeGlob (diff_request l r [])) False = Inr None"
  by (simp add: compileGlobs_def empty_globs_def diff_request_def)

lemma diff_fs_result:
  "\<exists>r. Diff byte_codec (\<lambda>_. None) id (\<lambda>_. False) (diff_request ''/a'' ''/b'' []) [] diff_fs = Inr r \<and> dfTree r \<and>
     \<not> dfTruncated r \<and> dfLeft r = ''/a'' \<and> dfRight r = ''/b''"
  "\<exists>r. Diff byte_codec (\<lambda>_. None) id (\<lambda>_. False) (diff_request ''/a'' ''/a'' []) [] diff_fs = Inr r \<and> dfTree r \<and>
     dfIdentical r \<and> dfLeft r = ''/a'' \<and> dfRight r = ''/a''"
proof -
  have f: "dqLeft (diff_request l r []) = l" "dqRight (diff_request l r []) = r" "dqIncludeHidden (diff_request l r []) = False" for l r
    by (simp_all add: diff_request_def)
  define ab where "ab = diff_request ''/a'' ''/b'' []"
  define aa where "aa = diff_request ''/a'' ''/a'' []"
  note f1 = f [of "''/a''" "''/b''", folded ab_def] and f2 = f [of "''/a''" "''/a''", folded aa_def]
  note g1 = no_excludes [of _ "''/a''" "''/b''", folded ab_def] and g2 = no_excludes [of _ "''/a''" "''/a''", folded aa_def]
  note trees = diff_fs_trees [OF f1(3), folded plain_entry_def] diff_fs_trees [OF f2(3), folded plain_entry_def]
  have e: "dfLeft (empty_diff l r) = l" "dfRight (empty_diff l r) = r" for l r by (simp_all add: empty_diff_def)
  have names: "tree_names \<lparr>tmEntries = [(''f'', plain_entry)], tmCapped = False\<rparr>
        \<lparr>tmEntries = [(''f'', plain_entry), (''g'', plain_entry)], tmCapped = False\<rparr> = [''f'', ''g'']"
    "tree_names \<lparr>tmEntries = [(''f'', plain_entry)], tmCapped = False\<rparr> \<lparr>tmEntries = [(''f'', plain_entry)], tmCapped = False\<rparr> = [''f'']"
    by (simp_all add: tree_names_def)
  obtain mb where "Diff byte_codec (\<lambda>_. None) id (\<lambda>_. False) ab [] diff_fs =
      diffTrees byte_codec (\<lambda>_. None) id (\<lambda>_. False) diff_fs ab mb (empty_diff ''/a'' ''/b'')"
    using Diff_dirs [of diff_fs ab "[]" "''/a''" "''/b''"] diff_fs_walk(1-4) unfolding f1 by blast
  moreover have "diffTrees byte_codec (\<lambda>_. None) id (\<lambda>_. False) diff_fs ab mb (empty_diff ''/a'' ''/b'') =
      Inr (tree_result ab False (new_tree_diff\<lparr>tdTicks := 1, tdSame := 1, tdAdded := [''g'']\<rparr>) (empty_diff ''/a'' ''/b''))"
    unfolding diffTrees_def g1 sum.case Let_def e trees
    by (simp add: names diff_fs_compare diff_fs_walk) (simp add: compare_entry_def new_tree_diff_def)
  moreover have "\<not> dfTruncated (tree_result ab False (new_tree_diff\<lparr>tdTicks := 1, tdSame := 1, tdAdded := [''g'']\<rparr>) (empty_diff ''/a'' ''/b''))"
    by (rule small_tree_result) (simp_all add: new_tree_diff_def)
  ultimately show "\<exists>r. Diff byte_codec (\<lambda>_. None) id (\<lambda>_. False) ab [] diff_fs = Inr r \<and> dfTree r \<and>
     \<not> dfTruncated r \<and> dfLeft r = ''/a'' \<and> dfRight r = ''/b''" using tree_result_sel(1-3) e by simp
  obtain mb where "Diff byte_codec (\<lambda>_. None) id (\<lambda>_. False) aa [] diff_fs =
      diffTrees byte_codec (\<lambda>_. None) id (\<lambda>_. False) diff_fs aa mb (empty_diff ''/a'' ''/a'')"
    using Diff_dirs [of diff_fs aa "[]" "''/a''" "''/a''"] diff_fs_walk(1-4) unfolding f2 by blast
  moreover have "diffTrees byte_codec (\<lambda>_. None) id (\<lambda>_. False) diff_fs aa mb (empty_diff ''/a'' ''/a'') =
      Inr (tree_result aa False (new_tree_diff\<lparr>tdTicks := 1, tdSame := 1\<rparr>) (empty_diff ''/a'' ''/a''))"
    unfolding diffTrees_def g2 sum.case Let_def e trees by (simp add: names diff_fs_compare diff_fs_walk)
  moreover have "dfIdentical (tree_result aa False (new_tree_diff\<lparr>tdTicks := 1, tdSame := 1\<rparr>) (empty_diff ''/a'' ''/a''))"
    by (rule small_tree_result) (simp_all add: new_tree_diff_def)
  ultimately show "\<exists>r. Diff byte_codec (\<lambda>_. None) id (\<lambda>_. False) aa [] diff_fs = Inr r \<and> dfTree r \<and>
     dfIdentical r \<and> dfLeft r = ''/a'' \<and> dfRight r = ''/a''" using tree_result_sel(1-3) e by simp
qed

lemma diff_fs_seen: "tree_seen diff_fs ''/a'' (diff_request l r []) None = {''f''}"
  "tree_seen diff_fs ''/b'' (diff_request l r []) None = {''f'', ''g''}"
proof -
  have h: "dqIncludeHidden (diff_request l r []) = False" by (simp add: diff_request_def)
  show "tree_seen diff_fs ''/a'' (diff_request l r []) None = {''f''}"
    using walkForDiff_seen [of diff_fs "''/a''" "diff_request l r []" None] diff_fs_trees(1) [OF h] by simp
  show "tree_seen diff_fs ''/b'' (diff_request l r []) None = {''f'', ''g''}"
    using walkForDiff_seen [of diff_fs "''/b''" "diff_request l r []" None] diff_fs_trees(2) [OF h] by auto
qed

theorem tree_diff_exact_witness:
  "\<exists>r. Diff byte_codec (\<lambda>_. None) id (\<lambda>_. False) (diff_request ''/a'' ''/b'' []) [] diff_fs = Inr r \<and> dfAdded r = [''g''] \<and> dfRemoved r = []"
proof -
  obtain r where r: "Diff byte_codec (\<lambda>_. None) id (\<lambda>_. False) (diff_request ''/a'' ''/b'' []) [] diff_fs = Inr r" "dfTree r"
    "\<not> dfTruncated r" "dfLeft r = ''/a''" "dfRight r = ''/b''" using diff_fs_result(1) by blast
  have e: "{''f''} - {''f'', ''g''} = {}" "{''f'', ''g''} - {''f''} = {''g''}" by auto
  from tree_diff_exact [OF r(1-3) no_excludes refl refl, unfolded r(4,5) diff_fs_seen e] r(1) show ?thesis by simp
qed

theorem identical_trees_witness:
  "\<exists>r. Diff byte_codec (\<lambda>_. None) id (\<lambda>_. False) (diff_request ''/a'' ''/a'' []) [] diff_fs = Inr r \<and>
    \<not> tmCapped (walkForDiff diff_fs (dfLeft r) (diff_request ''/a'' ''/a'' []) None)"
proof -
  obtain r where r: "Diff byte_codec (\<lambda>_. None) id (\<lambda>_. False) (diff_request ''/a'' ''/a'' []) [] diff_fs = Inr r" "dfTree r"
    "dfIdentical r" using diff_fs_result(2) by blast
  from identical_trees [OF r inj_on_id no_excludes refl refl] r(1) show ?thesis by blast
qed

lemma diffFiles_returns:
  assumes "read_path fs l = Inr a" "read_path fs r = Inr b"
  shows "\<exists>d. diffFiles cd sha fs l r n m sp mb = Inr d"
  using assms by (simp add: diffFiles_def sameContent_def fileDigest_def Let_def)

lemma Diff_regular:
  assumes "validatePath fs (dqLeft req) roots = Inr left" "validatePath fs (dqRight req) roots = Inr right"
    "Stat fs (clean_comps left) = Inr (NFile a m)" "Stat fs (clean_comps right) = Inr (NFile b m')"
  shows "\<exists>r. Diff cd rx sha late req roots fs = Inr r \<and> \<not> dfTree r \<and> dfLeft r = left \<and> dfRight r = right"
proof -
  let ?mb = "min (if dqMaxBytes req \<le> 0 then defaultDiffMaxBytes else nat (dqMaxBytes req)) maxReadMaxBytes"
  obtain d where d: "diffFiles cd sha fs left right (length a) (length b) (dqIgnoreSpace req) ?mb = Inr d"
    using diffFiles_returns [OF read_path_Stat [OF assms(3)] read_path_Stat [OF assms(4)]] by blast
  show ?thesis unfolding Diff_def assms sum.case Let_def node.case prod.case d by (simp add: empty_diff_def)
qed

text \<open>Two scripts that differ in the indentation of a line.\<close>

definition indent_fs :: filesys where
  "indent_fs = \<lparr>nodes = [([''a''], NFile [CHR ''x'', nl, CHR '' '', CHR ''y'', nl] 420), ([''b''], NFile [CHR ''x'', nl, CHR ''y'', nl] 420)],
     workdir = ''/'', umask = 18\<rparr>"

theorem file_diff_exact_witness:
  "\<exists>r. Diff byte_codec (\<lambda>_. None) id (\<lambda>_. False) (diff_request ''/a'' ''/b'' []) [] indent_fs = Inr r \<and> dfIdentical r"
proof -
  have s: "Stat indent_fs (clean_comps ''/a'') = Inr (NFile [CHR ''x'', nl, CHR '' '', CHR ''y'', nl] 420)"
    "Stat indent_fs (clean_comps ''/b'') = Inr (NFile [CHR ''x'', nl, CHR ''y'', nl] 420)" by code_simp+
  have v: "validatePath indent_fs ''/a'' [] = Inr ''/a''" "validatePath indent_fs ''/b'' [] = Inr ''/b''" by code_simp+
  have f: "dqLeft (diff_request l r []) = l" "dqRight (diff_request l r []) = r" for l r by (simp_all add: diff_request_def)
  obtain r where r: "Diff byte_codec (\<lambda>_. None) id (\<lambda>_. False) (diff_request ''/a'' ''/b'' []) [] indent_fs = Inr r"
    "\<not> dfTree r" "dfLeft r = ''/a''" "dfRight r = ''/b''"
    using Diff_regular [of indent_fs "diff_request ''/a'' ''/b'' []" "[]" "''/a''" "''/b''"] v s unfolding f by blast
  have t: "\<not> looksBinary [CHR ''x'', nl, CHR '' '', CHR ''y'', nl]" "\<not> looksBinary [CHR ''x'', nl, CHR ''y'', nl]"
    by (simp_all add: looksBinary_def binarySniffLen_def bval_def)
  have "Valid [CHR ''x'', nl, CHR '' '', CHR ''y'', nl]" "Valid [CHR ''x'', nl, CHR ''y'', nl]"
    by (rule Valid_ascii, simp add: isASCII_def bval_def)+
  then have d: "decoded byte_codec [CHR ''x'', nl, CHR '' '', CHR ''y'', nl] = [CHR ''x'', nl, CHR '' '', CHR ''y'', nl]"
    "decoded byte_codec [CHR ''x'', nl, CHR ''y'', nl] = [CHR ''x'', nl, CHR ''y'', nl]" by (simp_all only: decoded_valid)
  have w: "map Fields (split_on nl [CHR ''x'', nl, CHR '' '', CHR ''y'', nl]) = map Fields (split_on nl [CHR ''x'', nl, CHR ''y'', nl])"
    by (simp add: Fields_def runes_ascii bval_def is_space_def)
  have "dqIgnoreSpace (diff_request ''/a'' ''/b'' [])" by (simp add: diff_request_def)
  with file_diff_exact [OF r(1,2) s [folded r(3,4)]] r(1) t w show ?thesis unfolding d by (simp add: maxDiffFileBytes_def)
qed
end
