(* ===== verification/Proc_Info.thy ===== *)
theory Proc_Info
  imports Patterns Wait_Scan "HOL-Library.Multiset"
begin

text \<open>
  What the server reads from \<open>/proc\<close> (\<open>procinfo.go\<close>, \<open>procinfo_linux.go\<close>): the parsers of the kernel's
  lines, the process list and the list of listening sockets.  The contents of \<open>/proc\<close>, the clock, the
  owner of a path, \<open>strings.ToLower\<close> and the order \<open>sort.Slice\<close> gives to equal elements are parameters.
\<close>

section \<open>Parsers\<close>

record proc_stat =
  psPid :: int
  psComm :: gostring
  psState :: gostring
  psPPid :: int
  psStart :: nat

definition parseProcStatLine :: "gostring \<Rightarrow> proc_stat option" where
  "parseProcStatLine line =
     (case (IndexByte line (CHR ''(''), LastIndexByte line (CHR '')'')) of
        (Some o', Some c) \<Rightarrow>
          if c < o' then None
          else (let (pid, ok) = ParseInt (TrimSpace (take o' line)); fields = Fields (drop (c + 1) line) in
            if \<not> ok \<or> length fields < 20 then None
            else Some \<lparr>psPid = pid, psComm = take (c - (o' + 1)) (drop (o' + 1) line), psState = fields ! 0,
                   psPPid = fst (ParseInt (fields ! 1)), psStart = fst (ParseUint 10 64 (fields ! 19))\<rparr>)
      | _ \<Rightarrow> None)"

text \<open>The \<open>i\<close>-th byte of a little-endian word.\<close>

definition byte_of :: "nat \<Rightarrow> nat \<Rightarrow> nat" where
  "byte_of w i = w div 256 ^ i mod 256"

definition dotted :: "nat list \<Rightarrow> gostring" where
  "dotted bs = join ''.'' (map nat_digits bs)"

definition v6_text :: "nat list \<Rightarrow> gostring" where
  "v6_text b = join '':'' (map (\<lambda>i. hex_text (b ! (2 * i) * 256 + b ! (2 * i + 1))) [0..<8])"

definition decodeProcHexAddr :: "gostring \<Rightarrow> gostring \<Rightarrow> bool \<Rightarrow> (gostring \<times> nat) option" where
  "decodeProcHexAddr hexIP hexPort v6 =
     (let (port, pok) = ParseUint 16 32 hexPort in
      if \<not> pok then None
      else if \<not> v6 then
        (if length hexIP \<noteq> 8 then None
         else (let (v, ok) = ParseUint 16 32 hexIP in
           if \<not> ok then None else Some (dotted (map (byte_of v) [0..<4]), port)))
      else if length hexIP \<noteq> 32 then None
      else
        (let words = map (\<lambda>i. ParseUint 16 32 (take 8 (drop (i * 8) hexIP))) [0..<4] in
         if list_ex (\<lambda>(_, ok). \<not> ok) words then None
         else Some (v6_text (concat (map (\<lambda>(w, _). map (byte_of w) [0..<4]) words)), port)))"

record net_entry =
  neAddr :: gostring
  nePort :: nat
  neState :: gostring
  neInode :: nat

definition parseProcNetLine :: "gostring \<Rightarrow> bool \<Rightarrow> net_entry option" where
  "parseProcNetLine line v6 =
     (let fields = Fields line in
      if length fields < 10 then None
      else
        (case IndexByte (fields ! 1) (CHR '':'') of
           None \<Rightarrow> None
         | Some i \<Rightarrow>
             (case decodeProcHexAddr (take i (fields ! 1)) (drop (i + 1) (fields ! 1)) v6 of
                None \<Rightarrow> None
              | Some (addr, port) \<Rightarrow>
                  Some \<lparr>neAddr = addr, nePort = port, neState = fields ! 3, neInode = fst (ParseUint 10 64 (fields ! 9))\<rparr>)))"

definition parseEtime :: "gostring \<Rightarrow> int" where
  "parseEtime s0 =
     (let s = TrimSpace s0 in
      if s = [] then 0
      else
        (let (days, s) = (case IndexByte s (CHR ''-'') of
               None \<Rightarrow> (0, s)
             | Some i \<Rightarrow> (fst (ParseInt (take i s)), drop (i + 1) s));
             (h, m, sec) = (case map (fst \<circ> ParseInt) (split_on (CHR '':'') s) of
               [h, m, sec] \<Rightarrow> (h, m, sec)
             | [m, sec] \<Rightarrow> (0, m, sec)
             | [sec] \<Rightarrow> (0, 0, sec)
             | _ \<Rightarrow> (0, 0, 0))
         in i64 (days * 86400 + h * 3600 + m * 60 + sec)))"

record ProcessInfo =
  piPID :: int
  piPPID :: int
  piUser :: gostring
  piState :: gostring
  piElapsedSeconds :: int
  piStartTime :: gostring
  piCmd :: gostring
  piCmdline :: gostring

definition parse_ps_line :: "gostring \<Rightarrow> ProcessInfo option" where
  "parse_ps_line line =
     (let fields = Fields line in
      if length fields < 6 then None
      else
        (let (pid, ok1) = ParseInt (fields ! 0); (ppid, ok2) = ParseInt (fields ! 1) in
         if \<not> ok1 \<or> \<not> ok2 then None
         else Some \<lparr>piPID = pid, piPPID = ppid, piUser = fields ! 2, piState = fields ! 3,
                piElapsedSeconds = parseEtime (fields ! 4), piStartTime = [], piCmd = fields ! 5,
                piCmdline = (if 6 < length fields then truncateString (join '' '' (drop 6 fields)) 500 else [])\<rparr>))"

definition parsePsOutput :: "gostring \<Rightarrow> ProcessInfo list" where
  "parsePsOutput out = List.map_filter parse_ps_line (split_on nl out)"

section \<open>The process list\<close>

record ListProcessesRequest =
  lpFilter :: gostring
  lpUser :: gostring

record ListProcessesResult =
  lprProcesses :: "ProcessInfo list"
  lprCount :: nat
  lprTruncated :: bool

definition maxProcessList :: nat where [go_defs]: "maxProcessList = 1000"

record PortListener =
  plProto :: gostring
  plAddress :: gostring
  plPort :: int
  plPID :: int
  plProcess :: gostring

text \<open>The host: the entries of a directory in the order of \<open>os.ReadDir\<close> with whether they are
  directories, the contents of a file, the target of a link, the output of \<open>getconf CLK_TCK\<close>, the owner
  of a path, the whole seconds since a Unix time, and its RFC 3339 form.\<close>

record proc_host =
  phReadDir :: "gostring \<Rightarrow> (gostring \<times> bool) list option"
  phReadFile :: "gostring \<Rightarrow> bytes option"
  phReadlink :: "gostring \<Rightarrow> gostring option"
  phClkTck :: "bytes option"
  phOwner :: "gostring \<Rightarrow> gostring"
  phSince :: "int \<Rightarrow> int"
  phFormat :: "int \<Rightarrow> gostring"
  phLower :: "gostring \<Rightarrow> gostring"
  phSortProcs :: "ProcessInfo list \<Rightarrow> ProcessInfo list"
  phSortPorts :: "PortListener list \<Rightarrow> PortListener list"

definition hz :: "proc_host \<Rightarrow> int" where
  "hz ph =
     (case phClkTck ph of
        None \<Rightarrow> 100
      | Some out \<Rightarrow> (let (v, ok) = ParseInt (TrimSpace out) in if ok \<and> 0 < v then v else 100))"

definition bootTime :: "proc_host \<Rightarrow> int" where
  "bootTime ph =
     (case phReadFile ph ''/proc/stat'' of
        None \<Rightarrow> 0
      | Some d \<Rightarrow>
          (case filter (\<lambda>l. HasPrefix l ''btime '') (split_on nl d) of
             [] \<Rightarrow> 0
           | l # _ \<Rightarrow> fst (ParseInt (TrimSpace (TrimPrefix l ''btime '')))))"

definition proc_dir :: "gostring \<Rightarrow> gostring" where
  "proc_dir n = ''/proc/'' @ n"

definition process_info :: "proc_host \<Rightarrow> int \<Rightarrow> int \<Rightarrow> proc_stat \<Rightarrow> gostring \<Rightarrow> ProcessInfo" where
  "process_info ph boot ticks st dir =
     (let start = i64 (boot + quo (i64 (int (psStart st))) ticks); timed = (0 < boot \<and> 0 < ticks)
      in \<lparr>piPID = psPid st, piPPID = psPPid st, piUser = phOwner ph dir, piState = psState st,
          piElapsedSeconds = (if timed then max 0 (phSince ph start) else 0),
          piStartTime = (if timed then phFormat ph start else []), piCmd = psComm st,
          piCmdline = (case phReadFile ph (dir @ ''/cmdline'') of
             None \<Rightarrow> []
           | Some d \<Rightarrow> truncateString (TrimRight (map (\<lambda>c. if c = CHR 0x00 then CHR '' '' else c) d) '' '') 500)\<rparr>)"

definition proc_entry ::
  "proc_host \<Rightarrow> ListProcessesRequest \<Rightarrow> regexp option \<Rightarrow> int \<Rightarrow> int \<Rightarrow> gostring \<times> bool \<Rightarrow> ProcessInfo option" where
  "proc_entry ph req re boot ticks e =
     (let dir = proc_dir (fst e) in
      if \<not> snd e \<or> \<not> snd (ParseInt (fst e)) then None
      else case phReadFile ph (dir @ ''/stat'') of
        None \<Rightarrow> None
      | Some d \<Rightarrow>
     (case parseProcStatLine d of
        None \<Rightarrow> None
      | Some st \<Rightarrow>
          (let p = process_info ph boot ticks st dir in
           if lpUser req \<noteq> [] \<and> piUser p \<noteq> lpUser req then None
           else (case re of
               None \<Rightarrow> Some p
             | Some r \<Rightarrow> if MatchString r (if piCmdline p = [] then piCmd p else piCmdline p) then Some p else None))))"

fun list_entries :: "(gostring \<times> bool \<Rightarrow> ProcessInfo option) \<Rightarrow> (gostring \<times> bool) list \<Rightarrow> ProcessInfo list \<Rightarrow> ProcessInfo list \<times> bool" where
  "list_entries f [] acc = (acc, False)"
| "list_entries f (e # es) acc =
     (case f e of
        None \<Rightarrow> list_entries f es acc
      | Some p \<Rightarrow>
          if maxProcessList \<le> length (acc @ [p]) then (acc @ [p], True)
          else list_entries f es (acc @ [p]))"

datatype proc_error = PBadFilter | PNoProc

definition ListProcesses :: "compile \<Rightarrow> proc_host \<Rightarrow> ListProcessesRequest \<Rightarrow> proc_error + ListProcessesResult" where
  "ListProcesses rx ph req =
     (case (if lpFilter req = [] then Some None else map_option Some (rx (lpFilter req))) of
        None \<Rightarrow> Inl PBadFilter
      | Some re \<Rightarrow>
     (case phReadDir ph ''/proc'' of
        None \<Rightarrow> Inl PNoProc
      | Some es \<Rightarrow>
          (let (ps, truncated) = list_entries (proc_entry ph req re (bootTime ph) (hz ph)) es [];
               ps = phSortProcs ph ps
           in Inr \<lparr>lprProcesses = ps, lprCount = length ps, lprTruncated = truncated\<rparr>)))"

section \<open>Listening sockets\<close>

record CheckPortRequest =
  cpPort :: int
  cpProcessName :: gostring

record CheckPortResult =
  cprListeners :: "PortListener list"
  cprCount :: nat

record rawListener =
  rlProto :: gostring
  rlAddr :: gostring
  rlPort :: nat
  rlInode :: nat

definition collect :: "proc_host \<Rightarrow> gostring \<Rightarrow> gostring \<Rightarrow> bool \<Rightarrow> bool \<Rightarrow> rawListener list" where
  "collect ph path proto v6 onlyListen =
     (case phReadFile ph path of
        None \<Rightarrow> []
      | Some d \<Rightarrow>
          List.map_filter (\<lambda>line. case parseProcNetLine line v6 of
              None \<Rightarrow> None
            | Some n \<Rightarrow>
                if onlyListen \<and> neState n \<noteq> ''0A'' then None
                else Some \<lparr>rlProto = proto, rlAddr = neAddr n, rlPort = nePort n, rlInode = neInode n\<rparr>) (split_on nl d))"

definition raw_listeners :: "proc_host \<Rightarrow> rawListener list" where
  "raw_listeners ph =
     collect ph ''/proc/net/tcp'' ''tcp'' False True @ collect ph ''/proc/net/tcp6'' ''tcp6'' True True @
     collect ph ''/proc/net/udp'' ''udp'' False False @ collect ph ''/proc/net/udp6'' ''udp6'' True False"

text \<open>The socket a descriptor link stands for.\<close>

definition socket_inode :: "gostring \<Rightarrow> nat option" where
  "socket_inode link =
     (if \<not> HasPrefix link ''socket:['' then None
      else (let (v, ok) = ParseUint 10 64 (TrimSuffix (TrimPrefix link ''socket:['') '']'') in if ok then Some v else None))"

text \<open>The descriptors of all processes in the order of the scan: process and inode.\<close>

definition proc_sockets :: "proc_host \<Rightarrow> (int \<times> nat) list" where
  "proc_sockets ph =
     (case phReadDir ph ''/proc'' of
        None \<Rightarrow> []
      | Some es \<Rightarrow>
          concat (map (\<lambda>e. let (pid, ok) = ParseInt (fst e); fd = proc_dir (fst e) @ ''/fd'' in
            if \<not> snd e \<or> \<not> ok then []
            else (case phReadDir ph fd of
                None \<Rightarrow> []
              | Some fds \<Rightarrow> List.map_filter (\<lambda>f. case phReadlink ph (fd @ ''/'' @ fst f) of
                    None \<Rightarrow> None
                  | Some link \<Rightarrow> map_option (\<lambda>i. (pid, i)) (socket_inode link)) fds)) es))"

fun scan_sockets :: "nat list \<Rightarrow> (int \<times> nat) list \<Rightarrow> (nat \<rightharpoonup> int) \<Rightarrow> nat \<rightharpoonup> int" where
  "scan_sockets want [] found = found"
| "scan_sockets want ((pid, inode) # rest) found =
     (if inode \<in> set want then
        (let found = found(inode \<mapsto> pid)
         in if list_all (\<lambda>i. found i \<noteq> None) want then found else scan_sockets want rest found)
      else scan_sockets want rest found)"

definition mapSocketInodes :: "proc_host \<Rightarrow> nat list \<Rightarrow> nat \<rightharpoonup> int" where
  "mapSocketInodes ph want = (if want = [] then Map.empty else scan_sockets want (proc_sockets ph) Map.empty)"

definition comm_name :: "proc_host \<Rightarrow> int \<Rightarrow> gostring" where
  "comm_name ph pid = (case phReadFile ph (proc_dir (Itoa pid) @ ''/comm'') of None \<Rightarrow> [] | Some d \<Rightarrow> TrimSpace d)"

text \<open>One listener; the names of processes are kept in a cache.\<close>

definition port_listener ::
  "proc_host \<Rightarrow> CheckPortRequest \<Rightarrow> (nat \<rightharpoonup> int) \<Rightarrow> rawListener \<Rightarrow> (int \<rightharpoonup> gostring) \<times> PortListener list \<Rightarrow>
   (int \<rightharpoonup> gostring) \<times> PortListener list" where
  "port_listener ph req inodePID l s =
     (let (cache, ls) = s in
      if 0 < cpPort req \<and> int (rlPort l) \<noteq> cpPort req then s
      else
        (let (pid, name, cache) = (case inodePID (rlInode l) of
               None \<Rightarrow> (0, [], cache)
             | Some pid \<Rightarrow>
                 (case cache pid of
                    Some name \<Rightarrow> (pid, name, cache)
                  | None \<Rightarrow> (pid, comm_name ph pid, cache(pid \<mapsto> comm_name ph pid))))
         in if cpProcessName req \<noteq> [] \<and> \<not> Contains (phLower ph name) (phLower ph (cpProcessName req)) then (cache, ls)
            else (cache, ls @ [\<lparr>plProto = rlProto l, plAddress = rlAddr l, plPort = int (rlPort l), plPID = pid, plProcess = name\<rparr>])))"

definition CheckPort :: "proc_host \<Rightarrow> CheckPortRequest \<Rightarrow> CheckPortResult" where
  "CheckPort ph req =
     (let raw = raw_listeners ph;
          inodePID = mapSocketInodes ph (remdups (map rlInode raw));
          ls = phSortPorts ph (snd (fold (port_listener ph req inodePID) raw (Map.empty, [])))
      in \<lparr>cprListeners = ls, cprCount = length ls\<rparr>)"


section \<open>Numbers the kernel prints\<close>

text \<open>Upper-case hexadecimal of a fixed width.\<close>

definition upper_hex :: "nat \<Rightarrow> char" where
  "upper_hex d = char_of (if d < 10 then 48 + d else 55 + d)"

fun kernel_hex :: "nat \<Rightarrow> nat \<Rightarrow> gostring" where
  "kernel_hex 0 n = []"
| "kernel_hex (Suc k) n = kernel_hex k (n div 16) @ [upper_hex (n mod 16)]"

lemma length_kernel_hex [simp]: "length (kernel_hex k n) = k"
  by (induction k arbitrary: n) auto

lemma hex_val_upper: "d < 16 \<Longrightarrow> hex_val (upper_hex d) = Some d"
  by (simp add: hex_val_def upper_hex_def bval_char_of)

lemma uint_loop_snoc:
  "uint_loop base limit (s @ [c]) n =
    (let (v, ok) = uint_loop base limit s n in
     if ok then uint_loop base limit [c] v else (v, False))"
  by (induction s arbitrary: n) (auto split: option.splits)

lemma uint_loop_hex:
  assumes "n < 16 ^ k" "n < limit" shows "uint_loop 16 limit (kernel_hex k n) 0 = (n, True)"
  using assms
proof (induction k arbitrary: n)
  case (Suc k)
  have "n div 16 < 16 ^ k" "n div 16 < limit" using Suc.prems by (auto simp: less_mult_imp_div_less mult.commute)
  with Suc show ?case by (simp add: uint_loop_snoc hex_val_upper)
qed simp

lemma ParseUint_hex: "n < 16 ^ k \<Longrightarrow> n < 2 ^ bits \<Longrightarrow> k \<noteq> 0 \<Longrightarrow> ParseUint 16 bits (kernel_hex k n) = (n, True)"
  using uint_loop_hex [of n k "2 ^ bits"] length_kernel_hex [of k n] by (auto simp: ParseUint_def simp del: length_kernel_hex)

section \<open>The lines of the kernel\<close>

lemma plain_Itoa: "0 \<le> n \<Longrightarrow> plain_word (Itoa n)"
  using is_digit_nat_digits [of "nat n"]
  by (auto simp: plain_word_def Itoa_def isASCII_def list_all_iff is_digit_def is_space_def)

text \<open>\<open>/proc/<pid>/stat\<close>: the process id, the name in parentheses, and the other fields.\<close>

definition stat_line :: "int \<Rightarrow> gostring \<Rightarrow> gostring list \<Rightarrow> gostring" where
  "stat_line pid comm fs = Itoa pid @ '' ('' @ comm @ '') '' @ join '' '' fs @ [nl]"

lemma LastIndexByte_here: "c \<notin> set t \<Longrightarrow> LastIndexByte (s @ c # t) c = Some (length s)"
proof (induction s)
  case Nil
  then have "LastIndexByte t c = None" by (simp add: LastIndexByte_None)
  then show ?case by simp
qed simp

lemma parse_stat_line:
  assumes "0 \<le> pid" "pid < 2 ^ 63" "list_all plain_word fs" "20 \<le> length fs" "list_all (\<lambda>f. CHR '')'' \<notin> set f) fs"
    "fs ! 1 = Itoa ppid" "0 \<le> ppid" "ppid < 2 ^ 63" "fs ! 19 = nat_digits start" "start < 2 ^ 64"
  shows "parseProcStatLine (stat_line pid comm fs) =
    Some \<lparr>psPid = pid, psComm = comm, psState = fs ! 0, psPPid = ppid, psStart = start\<rparr>"
proof -
  let ?rest = "CHR '' '' # join '' '' fs @ [nl]"
  let ?l = "(Itoa pid @ '' '') @ CHR ''('' # comm @ CHR '')'' # ?rest"
  have line: "stat_line pid comm fs = ?l" by (simp add: stat_line_def)
  have "plain_word (Itoa pid)" using assms(1) by (rule plain_Itoa)
  moreover have no_open: "CHR ''('' \<notin> set (Itoa pid @ '' '')"
    using is_digit_nat_digits [of "nat pid"] assms(1) by (auto simp: Itoa_def list_all_iff is_digit_def bval_def)
  ultimately have o': "IndexByte ?l (CHR ''('') = Some (length (Itoa pid @ '' ''))" "TrimSpace (Itoa pid @ '' '') = Itoa pid"
    using IndexByte_append [of "CHR ''(''" "Itoa pid @ '' ''"] TrimSpace_trailing by simp_all
  have "CHR '')'' \<notin> set ?rest" using assms(5) join_set [of "CHR '')''" "'' ''" fs] by (auto simp: list_all_iff)
  then have c: "LastIndexByte ?l (CHR '')'') = Some (length (Itoa pid @ '' ('' @ comm))"
    using LastIndexByte_here [of "CHR '')''" ?rest "Itoa pid @ '' ('' @ comm"] by simp
  have cut: "drop (length x + 1) (x @ k # r) = r" "take (length (x @ k # v) - (length x + 1)) (v @ r) = v" for x k v and r :: gostring
    by simp_all
  have "take (length (Itoa pid @ '' '')) ?l = Itoa pid @ '' ''" by simp
  moreover have "drop (length (Itoa pid @ '' ('' @ comm) + 1) ?l = ?rest"
    using cut(1) [of "Itoa pid @ '' ('' @ comm" "CHR '')''" ?rest] by simp
  moreover have "take (length (Itoa pid @ '' ('' @ comm) - (length (Itoa pid @ '' '') + 1)) (drop (length (Itoa pid @ '' '') + 1) ?l) = comm"
    unfolding cut(1) using cut(2) [of "Itoa pid @ '' ''" "CHR ''(''" comm "CHR '')'' # ?rest"] by simp
  ultimately have parts: "take (length (Itoa pid @ '' '')) ?l = Itoa pid @ '' ''" "drop (length (Itoa pid @ '' ('' @ comm) + 1) ?l = ?rest"
    "take (length (Itoa pid @ '' ('' @ comm) - (length (Itoa pid @ '' '') + 1)) (drop (length (Itoa pid @ '' '') + 1) ?l) = comm"
    by blast+
  have le: "\<not> length (Itoa pid @ '' ('' @ comm) < length (Itoa pid @ '' '')" by simp
  show ?thesis
    unfolding line parseProcStatLine_def o'(1) c option.case prod.case parts o'(2)
    using le Fields_words(2) [OF assms(3), of "[nl]"] ParseInt_Itoa [of pid] ParseInt_Itoa [of ppid] ParseUint_digits [of start 64] assms
    by (simp del: length_append)
qed

text \<open>\<open>/proc/net/tcp\<close> and its relatives: the address as little-endian 32-bit words in upper-case
  hexadecimal, the port, and the inode as the tenth word.\<close>

definition le_word :: "nat list \<Rightarrow> nat" where
  "le_word bs = foldr (\<lambda>b v. b + 256 * v) bs 0"

fun kernel_addr :: "nat list \<Rightarrow> gostring" where
  "kernel_addr (a # b # c # d # bs) = kernel_hex 8 (le_word [a, b, c, d]) @ kernel_addr bs"
| "kernel_addr _ = []"

lemma byte_of_le_word: "list_all (\<lambda>b. b < 256) bs \<Longrightarrow> i < length bs \<Longrightarrow> byte_of (le_word bs) i = bs ! i"
proof (induction bs arbitrary: i)
  case (Cons b bs)
  have w: "le_word (b # bs) = b + 256 * le_word bs" by (simp add: le_word_def)
  show ?case
  proof (cases i)
    case 0
    with Cons.prems show ?thesis by (simp add: byte_of_def w)
  next
    case (Suc k)
    have "byte_of (b + 256 * le_word bs) (Suc k) = byte_of ((b + 256 * le_word bs) div 256) k"
      by (simp add: byte_of_def div_mult2_eq)
    with Suc Cons show ?thesis by (simp add: w)
  qed
qed simp

lemma le_word_less: "list_all (\<lambda>b. b < 256) bs \<Longrightarrow> le_word bs < 256 ^ length bs"
proof (induction bs)
  case (Cons b bs)
  then have "Suc (le_word bs) \<le> 256 ^ length bs" "b < 256" by auto
  then have "b + 256 * le_word bs < 256 * 256 ^ length bs" by linarith
  then show ?case by (simp add: le_word_def)
qed (simp add: le_word_def)

lemma le_word_bytes:
  assumes "list_all (\<lambda>b. b < 256) bs" "length bs = 4"
  shows "map (byte_of (le_word bs)) [0..<4] = bs" "le_word bs < 2 ^ 32"
  using assms byte_of_le_word [of bs] le_word_less [of bs] by (simp_all add: list_eq_iff_nth_eq)

lemma kernel_hex_no_colon: "CHR '':'' \<notin> set (kernel_hex k n)"
proof (induction k arbitrary: n)
  case (Suc k)
  have "bval (upper_hex (n mod 16)) \<noteq> 58" by (simp add: upper_hex_def bval_char_of)
  then have "upper_hex (n mod 16) \<noteq> CHR '':''" by (auto simp: bval_def)
  with Suc show ?case by simp
qed simp

lemma kernel_addr_word:
  "4 * n \<le> length bs \<Longrightarrow> i < n \<Longrightarrow> take 8 (drop (i * 8) (kernel_addr bs)) = kernel_hex 8 (le_word (take 4 (drop (i * 4) bs)))"
proof (induction bs arbitrary: n i rule: kernel_addr.induct)
  case (1 a b c d bs)
  show ?case
  proof (cases i)
    case 0
    then show ?thesis by (simp add: numeral_eq_Suc [of num.One] del: kernel_hex.simps)
  next
    case (Suc k)
    have "4 * (n - 1) \<le> length bs" "k < n - 1" using "1.prems" Suc by simp_all
    moreover have "drop (4 + k * 4) (a # b # c # d # bs) = drop (k * 4) bs"
      using drop_drop [of "k * 4" 4 "a # b # c # d # bs"] by (simp add: add.commute)
    ultimately show ?thesis using "1.IH" [of "n - 1" k] Suc by (simp del: kernel_hex.simps)
  qed
qed simp_all

lemma length_kernel_addr: "length bs = 4 * n \<Longrightarrow> length (kernel_addr bs) = 8 * n"
proof (induction bs arbitrary: n rule: kernel_addr.induct)
  case (1 a b c d bs)
  then show ?case by (cases n) (simp_all del: kernel_hex.simps)
qed simp_all

lemma decode_v4:
  assumes "list_all (\<lambda>b. b < 256) bs" "length bs = 4" "port < 65536"
  shows "decodeProcHexAddr (kernel_addr bs) (kernel_hex 4 port) False = Some (dotted bs, port)"
proof -
  note w = le_word_bytes [OF assms(1,2)]
  have a: "kernel_addr bs = kernel_hex 8 (le_word bs)"
    using kernel_addr_word [of 1 bs 0] length_kernel_addr [of bs 1] assms(2) by (simp del: kernel_hex.simps)
  have "ParseUint 16 32 (kernel_hex 8 (le_word bs)) = (le_word bs, True)" "ParseUint 16 32 (kernel_hex 4 port) = (port, True)"
    using w(2) assms(3) by (auto intro!: ParseUint_hex simp del: kernel_hex.simps)
  then show ?thesis unfolding a decodeProcHexAddr_def by (simp add: w(1) del: kernel_hex.simps)
qed

lemma decode_v6:
  assumes "list_all (\<lambda>b. b < 256) bs" "length bs = 16" "port < 65536"
  shows "decodeProcHexAddr (kernel_addr bs) (kernel_hex 4 port) True = Some (v6_text bs, port)"
proof -
  define q where "q i = take 4 (drop (i * 4) bs)" for i
  have q: "list_all (\<lambda>b. b < 256) (q i)" "length (q i) = 4" if "i < 4" for i
    using assms(1,2) that by (auto simp: q_def list_all_iff dest!: in_set_takeD in_set_dropD)
  have four: "[0..<4] = [0, 1, 2, 3::nat]" by (simp add: upt_rec)
  have bs: "q 0 @ q 1 @ q 2 @ q 3 = bs"
    using assms(2) append_take_drop_id [of 4 bs] append_take_drop_id [of 4 "drop 4 bs"] append_take_drop_id [of 4 "drop 8 bs"]
    by (simp add: q_def)
  have "ParseUint 16 32 (take 8 (drop (i * 8) (kernel_addr bs))) = (le_word (q i), True)" if "i < 4" for i
    using kernel_addr_word [of 4 bs i] ParseUint_hex [of "le_word (q i)" 8 32] le_word_bytes(2) [OF q, OF that that] that assms(2)
    by (simp add: q_def [symmetric] del: kernel_hex.simps)
  then have words: "map (\<lambda>i. ParseUint 16 32 (take 8 (drop (i * 8) (kernel_addr bs)))) [0..<4] = map (\<lambda>i. (le_word (q i), True)) [0..<4]"
    by simp
  have "ParseUint 16 32 (kernel_hex 4 port) = (port, True)"
    using assms(3) by (auto intro!: ParseUint_hex simp del: kernel_hex.simps)
  moreover have "concat (map (\<lambda>(w, _). map (byte_of w) [0..<4]) (map (\<lambda>i. (le_word (q i), True)) [0..<4])) = bs"
    using le_word_bytes(1) [OF q] bs by (simp add: four)
  ultimately show ?thesis
    unfolding decodeProcHexAddr_def words using length_kernel_addr [of bs 4] assms(2)
    by (simp add: list_ex_iff del: kernel_hex.simps)
qed

lemma parse_net_line:
  assumes "Fields line = fs" "10 \<le> length fs" "list_all (\<lambda>b. b < 256) bs" "length bs = (if v6 then 16 else 4)" "port < 65536"
    "fs ! 1 = kernel_addr bs @ '':'' @ kernel_hex 4 port" "fs ! 9 = nat_digits inode" "inode < 2 ^ 64"
  shows "parseProcNetLine line v6 =
    Some \<lparr>neAddr = (if v6 then v6_text bs else dotted bs), nePort = port, neState = fs ! 3, neInode = inode\<rparr>"
proof -
  have no_colon: "CHR '':'' \<notin> set (kernel_addr bs)"
    by (induction bs rule: kernel_addr.induct) (simp_all add: kernel_hex_no_colon del: kernel_hex.simps)
  have dec: "decodeProcHexAddr (kernel_addr bs) (kernel_hex 4 port) v6 = Some (if v6 then v6_text bs else dotted bs, port)"
    using decode_v4 [OF assms(3) _ assms(5)] decode_v6 [OF assms(3) _ assms(5)] assms(4) by (cases v6) simp_all
  have "IndexByte (fs ! 1) (CHR '':'') = Some (length (kernel_addr bs))"
    using IndexByte_append [OF no_colon] assms(6) by simp
  moreover have "take (length (kernel_addr bs)) (fs ! 1) = kernel_addr bs"
    "drop (length (kernel_addr bs) + 1) (fs ! 1) = kernel_hex 4 port" unfolding assms(6) by (simp_all del: kernel_hex.simps)
  ultimately show ?thesis
    using assms(2) dec ParseUint_digits [OF assms(8)] by (simp add: parseProcNetLine_def assms(1,7) del: kernel_hex.simps)
qed
text \<open>the kernel's process lines are read back whatever the process is called: with any bytes in the
  name, blanks, newlines and parentheses included, the parser returns the process id, the name, the
  state, the parent and the start time.\<close>

theorem proc_stat_roundtrip:
  assumes "0 \<le> pid" "pid < 2 ^ 63" "list_all plain_word fs" "20 \<le> length fs" "list_all (\<lambda>f. CHR '')'' \<notin> set f) fs"
    "fs ! 1 = Itoa ppid" "0 \<le> ppid" "ppid < 2 ^ 63" "fs ! 19 = nat_digits start" "start < 2 ^ 64"
  shows "parseProcStatLine (stat_line pid comm fs) =
    Some \<lparr>psPid = pid, psComm = comm, psState = fs ! 0, psPPid = ppid, psStart = start\<rparr>"
  using assms by (rule parse_stat_line)

text \<open>the kernel's socket lines are read back: from a line whose second word is a local address in the
  kernel's form (little-endian words in hexadecimal, a colon, the port), the parser returns the address
  in the usual notation, the port, the state and the inode.\<close>

theorem proc_net_roundtrip:
  assumes "Fields line = fs" "10 \<le> length fs" "list_all (\<lambda>b. b < 256) bs" "length bs = (if v6 then 16 else 4)" "port < 65536"
    "fs ! 1 = kernel_addr bs @ '':'' @ kernel_hex 4 port" "fs ! 9 = nat_digits inode" "inode < 2 ^ 64"
  shows "parseProcNetLine line v6 =
    Some \<lparr>neAddr = (if v6 then v6_text bs else dotted bs), nePort = port, neState = fs ! 3, neInode = inode\<rparr>"
  using assms by (rule parse_net_line)

section \<open>What is listed\<close>

text \<open>A \<open>sort.Slice\<close>: a sorted permutation.\<close>

definition sorts_by :: "('a \<Rightarrow> int) \<Rightarrow> ('a list \<Rightarrow> 'a list) \<Rightarrow> bool" where
  "sorts_by key f \<longleftrightarrow> (\<forall>xs. mset (f xs) = mset xs \<and> sorted (map key (f xs)))"

lemma list_entries_map_filter:
  "length acc < maxProcessList \<Longrightarrow>
   list_entries f es acc =
     (let ps = acc @ List.map_filter f es in (take maxProcessList ps, maxProcessList \<le> length ps))"
proof (induction es arbitrary: acc)
  case (Cons e es)
  then show ?case
    by (cases "f e"; cases "maxProcessList \<le> length (acc @ [the (f e)])")
      (auto simp: map_filter_simps Let_def take_Cons')
qed (simp add: map_filter_simps)


section \<open>What listens\<close>

definition listener :: "proc_host \<Rightarrow> (nat \<rightharpoonup> int) \<Rightarrow> rawListener \<Rightarrow> PortListener" where
  "listener ph inodePID l =
     (let (pid, name) = (case inodePID (rlInode l) of None \<Rightarrow> (0, []) | Some pid \<Rightarrow> (pid, comm_name ph pid))
      in \<lparr>plProto = rlProto l, plAddress = rlAddr l, plPort = int (rlPort l), plPID = pid, plProcess = name\<rparr>)"

definition wanted_listener :: "proc_host \<Rightarrow> CheckPortRequest \<Rightarrow> PortListener \<Rightarrow> bool" where
  "wanted_listener ph req pl \<longleftrightarrow>
     (0 < cpPort req \<longrightarrow> plPort pl = cpPort req) \<and>
     (cpProcessName req \<noteq> [] \<longrightarrow> Contains (phLower ph (plProcess pl)) (phLower ph (cpProcessName req)))"

text \<open>The cache changes nothing.\<close>

lemma port_listener_step:
  assumes "\<forall>pid n. fst s pid = Some n \<longrightarrow> n = comm_name ph pid" "s' = port_listener ph req inodePID l s"
  shows "(\<forall>pid n. fst s' pid = Some n \<longrightarrow> n = comm_name ph pid) \<and>
    snd s' = snd s @ filter (wanted_listener ph req) [listener ph inodePID l]"
  using assms
  by (cases s; cases "inodePID (rlInode l)"; cases "fst s (the (inodePID (rlInode l)))")
    (auto simp: port_listener_def listener_def wanted_listener_def Let_def)

lemma port_listeners:
  assumes "\<forall>pid n. fst s pid = Some n \<longrightarrow> n = comm_name ph pid"
  shows "snd (fold (port_listener ph req inodePID) ls s) = snd s @ filter (wanted_listener ph req) (map (listener ph inodePID) ls)"
  using assms
proof (induction ls arbitrary: s)
  case (Cons l ls)
  note step = port_listener_step [OF Cons.prems refl, of req inodePID l]
  show ?case using Cons.IH [OF step [THEN conjunct1]] step by simp
qed simp

text \<open>The scan of the descriptors finds a process for every wanted inode that has one.\<close>

lemma scan_sockets_sound:
  "scan_sockets want ps found i = Some p \<Longrightarrow> found i = Some p \<or> (p, i) \<in> set ps \<and> i \<in> set want"
  by (induction want ps found rule: scan_sockets.induct) (auto simp: Let_def split: if_splits)

lemma scan_sockets_mono: "found i \<noteq> None \<Longrightarrow> scan_sockets want ps found i \<noteq> None"
  by (induction want ps found rule: scan_sockets.induct) (auto simp: Let_def split: if_splits)

lemma scan_sockets_complete:
  "(p, i) \<in> set ps \<Longrightarrow> i \<in> set want \<Longrightarrow> scan_sockets want ps found i \<noteq> None"
proof (induction want ps found rule: scan_sockets.induct)
  case (2 want pid inode rest found)
  show ?case
  proof (cases "inode \<in> set want")
    case False
    with 2 show ?thesis by auto
  next
    case True
    let ?f = "found(inode \<mapsto> pid)"
    show ?thesis
    proof (cases "list_all (\<lambda>i. ?f i \<noteq> None) want")
      case T: True
      have s: "scan_sockets want ((pid, inode) # rest) found = ?f" using True T by (simp add: Let_def)
      have "?f i \<noteq> None" using T "2.prems"(2) unfolding list_all_iff by blast
      then show ?thesis unfolding s .
    next
      case F: False
      have s: "scan_sockets want ((pid, inode) # rest) found = scan_sockets want rest ?f" using True F by (simp add: Let_def)
      consider "(p, i) = (pid, inode)" | "(p, i) \<in> set rest" using "2.prems"(1) by auto
      then show ?thesis
      proof cases
        case 1
        then show ?thesis unfolding s by (intro scan_sockets_mono) simp
      next
        case 2
        then show ?thesis unfolding s using "2.IH"(1) True F "2.prems"(2) by blast
      qed
    qed
  qed
qed simp


section \<open>Witnesses\<close>

text \<open>A host with one process, whose name holds a blank and parentheses, listening on 127.0.0.1:80.\<close>

definition stat_words :: "gostring list" where
  "stat_words = [''S'', ''1''] @ replicate 17 ''0'' @ [''9'']"

definition net_words :: "gostring list" where
  "net_words = [''0:'', kernel_addr [127, 0, 0, 1] @ '':'' @ kernel_hex 4 80, ''0'', ''0A'', ''0'', ''0'', ''0'', ''0'', ''0'', ''5'']"

definition small_proc :: proc_host where
  "small_proc = \<lparr>
     phReadDir = [''/proc'' \<mapsto> [(''7'', True), (''net'', True)], ''/proc/7/fd'' \<mapsto> [(''3'', False)]],
     phReadFile = [''/proc/7/stat'' \<mapsto> stat_line 7 ''a) (b'' stat_words, ''/proc/7/comm'' \<mapsto> ''a'', ''/proc/net/tcp'' \<mapsto> join '' '' net_words],
     phReadlink = [''/proc/7/fd/3'' \<mapsto> ''socket:[5]''], phClkTck = None, phOwner = (\<lambda>_. ''root''), phSince = (\<lambda>_. 0),
     phFormat = (\<lambda>_. []), phLower = id, phSortProcs = sort_key piPID, phSortPorts = sort_key plPort\<rparr>"

lemma digit_words: "plain_word ''0''" "plain_word ''1''" "plain_word ''9''" "plain_word ''5''" "plain_word ''S''" "plain_word ''0A''" "plain_word ''0:''"
  by (simp_all add: plain_word_def isASCII_def bval_def is_space_def)

lemma small_digits: "nat_digits 1 = ''1''" "nat_digits 9 = ''9''" "nat_digits 5 = ''5''"
  by code_simp+

lemma stat_words_ok:
  "list_all plain_word stat_words" "20 \<le> length stat_words" "list_all (\<lambda>f. CHR '')'' \<notin> set f) stat_words"
  "stat_words ! 1 = Itoa 1" "stat_words ! 19 = nat_digits 9" "stat_words ! 0 = ''S''"
proof -
  show "list_all plain_word stat_words" using digit_words by (simp add: stat_words_def list_all_iff)
  show "20 \<le> length stat_words" "list_all (\<lambda>f. CHR '')'' \<notin> set f) stat_words" by (simp_all add: stat_words_def list_all_iff)
  show "stat_words ! 1 = Itoa 1" "stat_words ! 19 = nat_digits 9" "stat_words ! 0 = ''S''"
    by (simp_all add: stat_words_def Itoa_def small_digits [simplified] nth_append)
qed

lemma sorts_by_sort_key: "sorts_by k (sort_key k)"
  by (simp add: sorts_by_def)

theorem proc_stat_roundtrip_witness:
  "parseProcStatLine (stat_line 7 ''a) (b'' stat_words) = Some \<lparr>psPid = 7, psComm = ''a) (b'', psState = ''S'', psPPid = 1, psStart = 9\<rparr>"
  using proc_stat_roundtrip [of 7 stat_words 1 9 "''a) (b''"] stat_words_ok by simp

lemma kernel_hex_plain: "k \<noteq> 0 \<Longrightarrow> plain_word (kernel_hex k n)"
proof -
  have "isASCII (kernel_hex k n) \<and> (\<forall>c \<in> set (kernel_hex k n). \<not> is_space (bval c))"
  proof (induction k arbitrary: n)
    case (Suc k)
    have "48 \<le> bval (upper_hex (n mod 16))" "bval (upper_hex (n mod 16)) \<le> 70"
      using mod_less_divisor [of 16 n] by (auto simp: upper_hex_def bval_char_of)
    then have "bval (upper_hex (n mod 16)) < 128" "\<not> is_space (bval (upper_hex (n mod 16)))"
      by (simp_all add: is_space_def)
    with Suc show ?case by (simp add: isASCII_def)
  qed (simp add: isASCII_def)
  moreover assume "k \<noteq> 0"
  ultimately show ?thesis using length_kernel_hex [of k n] by (auto simp: plain_word_def simp del: length_kernel_hex)
qed

lemma net_words_plain: "list_all plain_word net_words"
proof -
  have "kernel_addr [127, 0, 0, 1] = kernel_hex 8 (le_word [127, 0, 0, 1])" by (simp del: kernel_hex.simps)
  then have "plain_word (kernel_addr [127, 0, 0, 1] @ '':'' @ kernel_hex 4 80)"
    using kernel_hex_plain [of 8 "le_word [127, 0, 0, 1]"] kernel_hex_plain [of 4 80]
    by (auto simp: plain_word_def isASCII_def bval_def is_space_def simp del: kernel_hex.simps)
  then show ?thesis using digit_words by (simp add: net_words_def del: kernel_hex.simps kernel_addr.simps)
qed

lemma net_words_ok: "Fields (join '' '' net_words) = net_words" "length net_words = 10" "net_words ! 3 = ''0A''"
  "net_words ! 1 = kernel_addr [127, 0, 0, 1] @ '':'' @ kernel_hex 4 80" "net_words ! 9 = nat_digits 5"
  using Fields_words(1) [OF net_words_plain, of "[]"] by (simp_all add: net_words_def small_digits)

theorem proc_net_roundtrip_witness:
  "parseProcNetLine (join '' '' net_words) False =
    Some \<lparr>neAddr = dotted [127, 0, 0, 1], nePort = 80, neState = ''0A'', neInode = 5\<rparr>"
  using proc_net_roundtrip [OF net_words_ok(1), of "[127, 0, 0, 1]" False 80 5] net_words_ok by (simp del: kernel_addr.simps kernel_hex.simps)

lemma small_proc_files:
  "phReadFile small_proc ''/proc/7/stat'' = Some (stat_line 7 ''a) (b'' stat_words)" "phOwner small_proc d = ''root''"
  by (simp_all add: small_proc_def)


end
