(* ===== verification/Probes.thy ===== *)
theory Probes
  imports Wait_Scan Waits Jobs Sandbox Patterns Proc_Info
begin

text \<open>
  The conditions of \<open>remote_wait_for\<close> (\<open>buildProbe\<close> of \<open>waitfor.go\<close>): what a wait checks, and the host as
  one check finds it.  A probe is data; the closure of the code that keeps a cursor or a cache is the
  state \<open>probe_step\<close> returns.
\<close>

section \<open>Definitions\<close>

text \<open>What \<open>kill(pid, 0)\<close> answers, and what it means.\<close>

datatype kill_result = KillOk | KillEPERM | KillESRCH | KillErr gostring

datatype pid_error = InvalidPid | PidSyscall gostring

definition pidAlive :: "(int \<Rightarrow> kill_result) \<Rightarrow> int \<Rightarrow> pid_error + bool" where
  "pidAlive kill pid =
     (if pid \<le> 0 then Inl InvalidPid
      else
        (case kill pid of
           KillOk \<Rightarrow> Inr True
         | KillEPERM \<Rightarrow> Inr True
         | KillESRCH \<Rightarrow> Inr False
         | KillErr e \<Rightarrow> Inl (PidSyscall e)))"

text \<open>The host at the time of a check: size and time of a path, the contents of a file or the error of opening
  it, the job a wait holds on to, processes, sockets, and the executor.\<close>

record wait_world =
  wwStat :: "gostring \<Rightarrow> (nat \<times> gostring) option"
  wwFile :: "gostring \<Rightarrow> file_state option"
  wwOpenErr :: "gostring \<Rightarrow> gostring option"
  wwJob :: "gostring \<Rightarrow> JobInfo"
  wwKill :: "int \<Rightarrow> kill_result"
  wwProc :: proc_host
  wwExec :: "ExecuteRequest \<Rightarrow> ExecResult"
  wwNow :: nanos

record wait_deps =
  wdRoots :: "gostring list"
  wdExecutor :: bool
  wdJobs :: "JobManager option"

datatype probe =
    ProbeExists gostring
  | ProbeContains gostring regexp gostring "contains_cache option"
  | ProbeLog gostring regexp gostring log_cursor
  | ProbeJob gostring
  | ProbePid int
  | ProbePort int
  | ProbeCommand gostring

datatype probe_error =
    PBPath path_error
  | PBPatternRequired
  | PBBadPattern
  | PBBadPid gostring
  | PBBadPort gostring
  | PBNoExecutor
  | PBUnknown gostring

definition compileWaitPattern :: "compile \<Rightarrow> gostring \<Rightarrow> bool \<Rightarrow> probe_error + regexp" where
  "compileWaitPattern rx pat ignoreCase =
     (if pat = [] then Inl PBPatternRequired
      else (case rx (if ignoreCase then ''(?i)'' @ pat else pat) of None \<Rightarrow> Inl PBBadPattern | Some re \<Rightarrow> Inr re))"

definition buildProbe ::
  "compile \<Rightarrow> filesys \<Rightarrow> wait_world \<Rightarrow> wait_deps \<Rightarrow> WaitForRequest \<Rightarrow> probe_error + probe" where
  "buildProbe rx fs w deps req =
     (if wqCondition req = ''file_exists'' then
        (case validatePath fs (wqTarget req) (wdRoots deps) of Inl e \<Rightarrow> Inl (PBPath e) | Inr ap \<Rightarrow> Inr (ProbeExists ap))
      else if wqCondition req = ''file_contains'' then
        (case validatePath fs (wqTarget req) (wdRoots deps) of
           Inl e \<Rightarrow> Inl (PBPath e)
         | Inr ap \<Rightarrow>
             (case compileWaitPattern rx (wqPattern req) (wqIgnoreCase req) of
                Inl e \<Rightarrow> Inl e
              | Inr re \<Rightarrow> Inr (ProbeContains ap re (wqEncoding req) None)))
      else if wqCondition req = ''log_regex'' then
        (case validatePath fs (wqTarget req) (wdRoots deps) of
           Inl e \<Rightarrow> Inl (PBPath e)
         | Inr ap \<Rightarrow>
             (case compileWaitPattern rx (wqPattern req) (wqIgnoreCase req) of
                Inl e \<Rightarrow> Inl e
              | Inr re \<Rightarrow> Inr (ProbeLog ap re (wqEncoding req) (log_start (wwFile w ap)))))
      else if wqCondition req = ''process_exit'' then
        (if (case wdJobs deps of None \<Rightarrow> None | Some jm \<Rightarrow> reg_get jID (jobs jm) (wqTarget req)) \<noteq> None
         then Inr (ProbeJob (wqTarget req))
         else (let (pid, ok) = ParseInt (TrimSpace (wqTarget req)) in
               if \<not> ok \<or> pid \<le> 0 then Inl (PBBadPid (wqTarget req)) else Inr (ProbePid pid)))
      else if wqCondition req = ''port_listen'' then
        (let (port, ok) = ParseInt (TrimSpace (wqTarget req)) in
         if \<not> ok \<or> port \<le> 0 \<or> 65535 < port then Inl (PBBadPort (wqTarget req)) else Inr (ProbePort port))
      else if wqCondition req = ''command_exit0'' then
        (if \<not> wdExecutor deps then Inl PBNoExecutor else Inr (ProbeCommand (wqTarget req)))
      else Inl (PBUnknown (wqCondition req)))"

datatype probe_detail =
    NotPresent
  | FilePresent nat gostring
  | FileUnchanged
  | OpenFailed gostring
  | LineFound nat gostring
  | NoMatchYet
  | LogNotPresent
  | LogLine gostring
  | NoNewLine nat
  | JobStill gostring int
  | JobEnded gostring JobState int
  | PidFailed pid_error
  | PidStill int
  | PidExited int
  | PortSilent int
  | PortTaken PortListener
  | ExitedZero
  | ExitedWith int bool

definition waitProbeTimeoutMs :: int where [go_defs]: "waitProbeTimeoutMs = 10000"

definition probe_request :: "gostring \<Rightarrow> ExecuteRequest" where
  "probe_request cmd = \<lparr>rqCommand = cmd, rqWorkingDirectory = [], rqEnvironment = [], rqTimeoutMs = waitProbeTimeoutMs,
     rqMaxOutputBytes = 8192, rqShell = [], rqTruncateMode = ''tail'', rqOutputEncoding = []\<rparr>"

definition contains_check ::
  "codec \<Rightarrow> wait_world \<Rightarrow> gostring \<Rightarrow> regexp \<Rightarrow> gostring \<Rightarrow> contains_cache option \<Rightarrow> (bool \<times> probe_detail) \<times> contains_cache option" where
  "contains_check cd w ap re enc cache =
     (case wwFile w ap of
        None \<Rightarrow> ((False, NotPresent), cache)
      | Some f \<Rightarrow>
          if (case cache of None \<Rightarrow> False | Some c \<Rightarrow> unchanged f c) then ((False, FileUnchanged), cache)
          else
            (case wwOpenErr w ap of
               Some e \<Rightarrow> ((False, OpenFailed e), cache)
             | None \<Rightarrow>
                 (case contains_probe (MatchString re) cd enc (wwNow w) (Some f) cache of
                    (Some (n, line), cache') \<Rightarrow> ((True, LineFound n line), cache')
                  | (None, cache') \<Rightarrow> ((False, NoMatchYet), cache'))))"

definition log_check ::
  "codec \<Rightarrow> wait_world \<Rightarrow> gostring \<Rightarrow> regexp \<Rightarrow> gostring \<Rightarrow> log_cursor \<Rightarrow> (bool \<times> probe_detail) \<times> log_cursor" where
  "log_check cd w ap re enc c =
     (case wwFile w ap of
        None \<Rightarrow> ((False, LogNotPresent), c)
      | Some f \<Rightarrow>
          (case wwOpenErr w ap of
             Some e \<Rightarrow>
               (let rotated = (length (fileData f) < lcOffset c \<or> (lcSeen c \<noteq> None \<and> lcSeen c \<noteq> Some (fileId f)))
                in ((False, OpenFailed e), \<lparr>lcOffset = (if rotated then 0 else lcOffset c), lcSeen = Some (fileId f)\<rparr>))
           | None \<Rightarrow>
               (case log_probe (MatchString re) cd enc (Some f) c of
                  (Some line, c') \<Rightarrow> ((True, LogLine line), c')
                | (None, c') \<Rightarrow> ((False, NoNewLine (lcOffset c')), c'))))"

definition job_check :: "JobInfo \<Rightarrow> bool \<times> probe_detail" where
  "job_check i =
     (if jiState i = JobRunning then (False, JobStill (jiJobID i) (jiPID i))
      else (True, JobEnded (jiJobID i) (jiState i) (case jiExitCode i of Some c \<Rightarrow> c | None \<Rightarrow> 0)))"

definition pid_check :: "(int \<Rightarrow> kill_result) \<Rightarrow> int \<Rightarrow> bool \<times> probe_detail" where
  "pid_check kill pid =
     (case pidAlive kill pid of
        Inl e \<Rightarrow> (False, PidFailed e)
      | Inr alive \<Rightarrow> if alive then (False, PidStill pid) else (True, PidExited pid))"

definition port_check :: "proc_host \<Rightarrow> int \<Rightarrow> bool \<times> probe_detail" where
  "port_check ph port =
     (let r = CheckPort ph \<lparr>cpPort = port, cpProcessName = []\<rparr> in
      if cprCount r = 0 then (False, PortSilent port) else (True, PortTaken (hd (cprListeners r))))"

definition command_check :: "(ExecuteRequest \<Rightarrow> ExecResult) \<Rightarrow> gostring \<Rightarrow> exec_error option + (bool \<times> probe_detail)" where
  "command_check exec cmd =
     (let r = exec (probe_request cmd) in
      if xNotStarted r then Inl (xError r)
      else if xExitCode r = 0 \<and> \<not> xTimedOut r then Inr (True, ExitedZero)
      else Inr (False, ExitedWith (xExitCode r) (xTimedOut r)))"

text \<open>One check: its answer, where an error ends the wait, and the probe afterwards.\<close>

definition probe_step :: "codec \<Rightarrow> wait_world \<Rightarrow> probe \<Rightarrow> (exec_error option + (bool \<times> probe_detail)) \<times> probe" where
  "probe_step cd w p =
     (case p of
        ProbeExists ap \<Rightarrow>
          (Inr (case wwStat w ap of None \<Rightarrow> (False, NotPresent) | Some (size', mtime) \<Rightarrow> (True, FilePresent size' mtime)), p)
      | ProbeContains ap re enc cache \<Rightarrow>
          (case contains_check cd w ap re enc cache of (a, cache') \<Rightarrow> (Inr a, ProbeContains ap re enc cache'))
      | ProbeLog ap re enc c \<Rightarrow> (case log_check cd w ap re enc c of (a, c') \<Rightarrow> (Inr a, ProbeLog ap re enc c'))
      | ProbeJob i \<Rightarrow> (Inr (job_check (wwJob w i)), p)
      | ProbePid pid \<Rightarrow> (Inr (pid_check (wwKill w) pid), p)
      | ProbePort port \<Rightarrow> (Inr (port_check (wwProc w) port), p)
      | ProbeCommand cmd \<Rightarrow> (command_check (wwExec w) cmd, p))"

text \<open>What \<open>command_exit0\<close> keeps as the output of its last check; \<open>None\<close> if that is an error message.\<close>

definition probe_output :: "(ExecuteRequest \<Rightarrow> ExecResult) \<Rightarrow> gostring \<Rightarrow> gostring option" where
  "probe_output exec cmd =
     (let r = exec (probe_request cmd) in
      case (xStdout r, xStderr r) of (Captured a, Captured b) \<Rightarrow> Some (TrimSpace (a @ b)) | _ \<Rightarrow> None)"

definition state_text :: "JobState \<Rightarrow> gostring" where
  "state_text s = (case s of JobRunning \<Rightarrow> ''running'' | JobExited \<Rightarrow> ''exited'' | JobKilled \<Rightarrow> ''killed'' | JobTimeout \<Rightarrow> ''timed_out'')"

definition probe_text :: "probe_detail \<Rightarrow> gostring" where
  "probe_text d =
     (case d of
        NotPresent \<Rightarrow> ''not present''
      | FilePresent n t \<Rightarrow> ''exists, size='' @ Itoa (int n) @ '', mtime='' @ t
      | FileUnchanged \<Rightarrow> ''no match yet (file unchanged)''
      | OpenFailed e \<Rightarrow> e
      | LineFound n l \<Rightarrow> ''line '' @ Itoa (int n) @ '': '' @ l
      | NoMatchYet \<Rightarrow> ''no match yet''
      | LogNotPresent \<Rightarrow> ''log not present''
      | LogLine l \<Rightarrow> l
      | NoNewLine off \<Rightarrow> ''no new matching line (scanned up to offset '' @ Itoa (int off) @ '')''
      | JobStill i pid \<Rightarrow> ''job '' @ i @ '' running (pid '' @ Itoa pid @ '')''
      | JobEnded i s c \<Rightarrow> ''job '' @ i @ '' '' @ state_text s @ '', exit_code='' @ Itoa c
      | PidFailed e \<Rightarrow> (case e of InvalidPid \<Rightarrow> ''invalid pid'' | PidSyscall m \<Rightarrow> m)
      | PidStill pid \<Rightarrow> ''pid '' @ Itoa pid @ '' alive''
      | PidExited pid \<Rightarrow> ''pid '' @ Itoa pid @ '' exited''
      | PortSilent p \<Rightarrow> ''port '' @ Itoa p @ '' not listening''
      | PortTaken l \<Rightarrow> plProto l @ '' '' @ plAddress l @ '':'' @ Itoa (plPort l) @ '' pid='' @ Itoa (plPID l) @ '' '' @ plProcess l
      | ExitedZero \<Rightarrow> ''exit_code=0''
      | ExitedWith c t \<Rightarrow> ''exit_code='' @ Itoa c @ '' timed_out='' @ (if t then ''true'' else ''false''))"

text \<open>The checks of a wait as the polling loop takes them: the host at each check, and what the \<open>select\<close>
  received after it.  The text of an error that ends the wait is a parameter.\<close>

fun wait_turns :: "codec \<Rightarrow> (exec_error option \<Rightarrow> gostring) \<Rightarrow> (wait_world \<times> wait_event) list \<Rightarrow> probe \<Rightarrow> turn list" where
  "wait_turns cd err [] p = []"
| "wait_turns cd err ((w, ev) # ws) p =
     (case probe_step cd w p of
        (a, p') \<Rightarrow> (map_sum err (map_prod id probe_text) a, wwNow w, ev) # wait_turns cd err ws p')"

definition WaitFor ::
  "codec \<Rightarrow> compile \<Rightarrow> (exec_error option \<Rightarrow> gostring) \<Rightarrow> (probe_error \<Rightarrow> gostring) \<Rightarrow> filesys \<Rightarrow> wait_world \<Rightarrow> wait_deps \<Rightarrow>
   WaitForRequest \<Rightarrow> (wait_world \<times> wait_event) list \<Rightarrow> wait_error_kind + run_outcome" where
  "WaitFor cd rx err perr fs w deps req ws =
     (case planWait (\<lambda>r. map_sum (\<lambda>e. ProbeFailed (perr e)) id (buildProbe rx fs w deps r)) req of
        Inl e \<Rightarrow> Inl e
      | Inr p \<Rightarrow> Inr (wait_run (wwNow w) (wait_turns cd err ws (wpCheck p)) (wpRes p)))"
section \<open>Waiting\<close>

text \<open>The conditions whose checks keep nothing from one to the next, and when they hold.\<close>

definition stateless :: "probe \<Rightarrow> bool" where
  "stateless p =
     (case p of
        ProbeExists _ \<Rightarrow> True
      | ProbeJob _ \<Rightarrow> True
      | ProbePid pid \<Rightarrow> 0 < pid
      | ProbePort port \<Rightarrow> 0 < port
      | ProbeCommand _ \<Rightarrow> True
      | _ \<Rightarrow> False)"

definition condition_holds :: "probe \<Rightarrow> wait_world \<Rightarrow> bool" where
  "condition_holds p w =
     (case p of
        ProbeExists ap \<Rightarrow> wwStat w ap \<noteq> None
      | ProbeJob i \<Rightarrow> jiState (wwJob w i) \<noteq> JobRunning
      | ProbePid pid \<Rightarrow> wwKill w pid = KillESRCH
      | ProbePort port \<Rightarrow> (\<exists>l \<in> set (raw_listeners (wwProc w)). int (rlPort l) = port)
      | ProbeCommand cmd \<Rightarrow>
          (let r = wwExec w (probe_request cmd) in \<not> xNotStarted r \<and> xExitCode r = 0 \<and> \<not> xTimedOut r)
      | _ \<Rightarrow> False)"

definition aborts :: "probe \<Rightarrow> wait_world \<Rightarrow> bool" where
  "aborts p w = (case p of ProbeCommand cmd \<Rightarrow> xNotStarted (wwExec w (probe_request cmd)) | _ \<Rightarrow> False)"

lemma port_check_holds:
  assumes "sorts_by plPort (phSortPorts ph)" "0 < port"
  shows "fst (port_check ph port) \<longleftrightarrow> (\<exists>l \<in> set (raw_listeners ph). int (rlPort l) = port)"
proof -
  let ?req = "\<lparr>cpPort = port, cpProcessName = []\<rparr>"
  let ?pids = "mapSocketInodes ph (remdups (map rlInode (raw_listeners ph)))"
  have "cprListeners (CheckPort ph ?req) =
      phSortPorts ph (filter (wanted_listener ph ?req) (map (listener ph ?pids) (raw_listeners ph)))"
    using port_listeners [of "(Map.empty, [])" ph ?req ?pids "raw_listeners ph"] by (simp add: CheckPort_def Let_def)
  moreover have "cprCount (CheckPort ph ?req) = length (cprListeners (CheckPort ph ?req))" by (simp add: CheckPort_def Let_def)
  moreover have "length (phSortPorts ph xs) = length xs" for xs
    using assms(1) mset_eq_length by (auto simp: sorts_by_def)
  ultimately have "cprCount (CheckPort ph ?req) = 0 \<longleftrightarrow>
      filter (wanted_listener ph ?req) (map (listener ph ?pids) (raw_listeners ph)) = []" by (simp add: filter_map)
  moreover have "plPort (listener ph ?pids l) = int (rlPort l)" for l by (simp add: listener_def split: prod.split)
  then have "wanted_listener ph ?req (listener ph ?pids l) \<longleftrightarrow> int (rlPort l) = port" for l
    using assms(2) by (simp add: wanted_listener_def)
  ultimately show ?thesis by (auto simp: port_check_def Let_def filter_empty_conv)
qed

lemma probe_step_stateless:
  assumes "stateless p" "sorts_by plPort (phSortPorts (wwProc w))"
  obtains (abort) e where "aborts p w" "\<not> condition_holds p w" "probe_step cd w p = (Inl e, p)"
    | (answer) d where "\<not> aborts p w" "probe_step cd w p = (Inr (condition_holds p w, d), p)"
proof (cases p)
  case (ProbeExists ap)
  then show thesis using answer by (cases "wwStat w ap") (auto simp: probe_step_def aborts_def condition_holds_def)
next
  case (ProbeJob i)
  then show thesis using answer
    by (cases "jiState (wwJob w i) = JobRunning") (simp_all add: probe_step_def aborts_def condition_holds_def job_check_def)
next
  case (ProbePid pid)
  then show thesis using answer assms(1)
    by (cases "wwKill w pid") (auto simp: probe_step_def aborts_def condition_holds_def pid_check_def pidAlive_def stateless_def)
next
  case (ProbePort port)
  then have "fst (port_check (wwProc w) port) = condition_holds p w"
    using port_check_holds [OF assms(2)] assms(1) by (simp add: stateless_def condition_holds_def)
  then show thesis using answer ProbePort by (cases "port_check (wwProc w) port") (simp add: probe_step_def aborts_def)
next
  case (ProbeCommand cmd)
  then show thesis using answer abort
    by (cases "xNotStarted (wwExec w (probe_request cmd))";
        cases "xExitCode (wwExec w (probe_request cmd)) = 0 \<and> \<not> xTimedOut (wwExec w (probe_request cmd))")
      (auto simp: probe_step_def aborts_def condition_holds_def command_check_def Let_def)
qed (use assms(1) in \<open>simp_all add: stateless_def\<close>)

lemma buildProbe_stateless:
  assumes "buildProbe rx fs w deps req = Inr p"
    "wqCondition req \<in> {''file_exists'', ''process_exit'', ''port_listen'', ''command_exit0''}"
  shows "stateless p"
  using assms by (auto simp: buildProbe_def stateless_def split: sum.splits if_splits prod.splits)

lemma wait_run_checks: "wait_run start ts res = Resolved r \<Longrightarrow> wrChecks res < wrChecks r"
proof (induction ts arbitrary: res)
  case (Cons x ts)
  obtain ans t ev where "x = (ans, t, ev)" by (cases x)
  with Cons.prems show ?case
    by (cases ans) (auto simp: Let_def split: prod.splits if_splits wait_event.splits dest!: Cons.IH)
qed simp

lemma wait_run_first_hit:
  assumes "stateless p" "\<forall>(w, e) \<in> set ws. sorts_by plPort (phSortPorts (wwProc w))" "\<not> wrSatisfied res"
  shows "(\<exists>r. wait_run start (wait_turns cd err ws p) res = Resolved r \<and> wrSatisfied r \<and> wrChecks r = wrChecks res + Suc n) \<longleftrightarrow>
    n < length ws \<and> condition_holds p (fst (ws ! n)) \<and>
    (\<forall>i < n. \<not> condition_holds p (fst (ws ! i)) \<and> \<not> aborts p (fst (ws ! i)) \<and> snd (ws ! i) = Tick)"
  using assms(2,3)
proof (induction ws arbitrary: n res)
  case (Cons a ws)
  obtain w ev where a: "a = (w, ev)" by (cases a)
  have s: "sorts_by plPort (phSortPorts (wwProc w))" using Cons.prems(1) a by simp
  consider (abort) e where "aborts p w" "\<not> condition_holds p w" "probe_step cd w p = (Inl e, p)"
    | (answer) d where "\<not> aborts p w" "probe_step cd w p = (Inr (condition_holds p w, d), p)"
    using probe_step_stateless [OF assms(1) s] by metis
  then show ?case
  proof cases
    case (abort e)
    then show ?thesis by (cases n) (auto simp: a)
  next
    case (answer d)
    let ?res = "res\<lparr>wrChecks := Suc (wrChecks res), wrDetail := probe_text d, wrWaitedMs := waited start (wwNow w)\<rparr>"
    show ?thesis
    proof (cases "condition_holds p w")
      case True
      with answer show ?thesis by (cases n) (auto simp: a Let_def)
    next
      case False
      show ?thesis
      proof (cases ev)
        case Tick
        have run: "wait_run start (wait_turns cd err (a # ws) p) res = wait_run start (wait_turns cd err ws p) ?res"
          using answer False Tick by (simp add: a Let_def)
        show ?thesis
        proof (cases n)
          case 0
          have "wrChecks r \<noteq> Suc (wrChecks res)" if "wait_run start (wait_turns cd err ws p) ?res = Resolved r" "wrSatisfied r" for r
            using wait_run_checks [OF that(1)] by simp
          with 0 False show ?thesis unfolding run by (auto simp: a)
        next
          case (Suc m)
          have "(\<exists>r. wait_run start (wait_turns cd err ws p) ?res = Resolved r \<and> wrSatisfied r \<and> wrChecks r = wrChecks ?res + Suc m) \<longleftrightarrow>
            m < length ws \<and> condition_holds p (fst (ws ! m)) \<and>
            (\<forall>i < m. \<not> condition_holds p (fst (ws ! i)) \<and> \<not> aborts p (fst (ws ! i)) \<and> snd (ws ! i) = Tick)"
            using Cons.IH [of ?res m] Cons.prems by simp
          with Suc answer(1) False Tick show ?thesis unfolding run by (simp add: a All_less_Suc2)
        qed
      next
        case (Deadline t)
        with answer False Cons.prems show ?thesis by (cases n) (auto simp: a Let_def)
      next
        case (CallerCancelled t)
        with answer False Cons.prems show ?thesis by (cases n) (auto simp: a Let_def)
      qed
    qed
  qed
qed simp

text \<open>C32: a wait is satisfied at the first check that finds its condition, and only then: for a file that
  appears, a process or a job that ends, a port something listens on and a command that exits with 0, the
  wait resolves as satisfied after \<open>n + 1\<close> checks if and only if the host of check \<open>n\<close> fulfils the condition
  and all checks before it found it unfulfilled, ran at all, and were followed by a tick.\<close>

theorem wait_first_hit:
  assumes "WaitFor cd rx err perr fs w0 deps req ws = Inr out" "buildProbe rx fs w0 deps req = Inr p"
    "wqCondition req \<in> {''file_exists'', ''process_exit'', ''port_listen'', ''command_exit0''}"
    "\<forall>(w, e) \<in> set ws. sorts_by plPort (phSortPorts (wwProc w))"
  shows "(\<exists>r. out = Resolved r \<and> wrSatisfied r \<and> wrChecks r = Suc n) \<longleftrightarrow>
    n < length ws \<and> condition_holds p (fst (ws ! n)) \<and>
    (\<forall>i < n. \<not> condition_holds p (fst (ws ! i)) \<and> \<not> aborts p (fst (ws ! i)) \<and> snd (ws ! i) = Tick)"
proof -
  obtain pl where pl: "planWait (\<lambda>r. map_sum (\<lambda>e. ProbeFailed (perr e)) id (buildProbe rx fs w0 deps r)) req = Inr pl"
    "out = wait_run (wwNow w0) (wait_turns cd err ws (wpCheck pl)) (wpRes pl)"
    using assms(1) by (auto simp: WaitFor_def split: sum.splits)
  then have "wpCheck pl = p" "\<not> wrSatisfied (wpRes pl)" "wrChecks (wpRes pl) = 0"
    using assms(2) by (auto simp: planWait_def split: if_splits)
  then show ?thesis
    using wait_run_first_hit [OF buildProbe_stateless [OF assms(2,3)] assms(4), of "wpRes pl" "wwNow w0" cd err n] pl(2) by simp
qed

text \<open>A wait for the end of process 7, which is there at the first check and gone at the second.\<close>

definition quiet_proc :: proc_host where
  "quiet_proc = \<lparr>phReadDir = Map.empty, phReadFile = Map.empty, phReadlink = Map.empty, phClkTck = None, phOwner = (\<lambda>_. []),
     phSince = (\<lambda>_. 0), phFormat = (\<lambda>_. []), phLower = id, phSortProcs = sort_key piPID, phSortPorts = sort_key plPort\<rparr>"

definition pid_world :: "kill_result \<Rightarrow> wait_world" where
  "pid_world k = \<lparr>wwStat = Map.empty, wwFile = Map.empty, wwOpenErr = Map.empty, wwJob = (\<lambda>i. \<lparr>jiJobID = i, jiPID = 0, jiState = JobRunning,
     jiCommand = [], jiWorkingDirectory = [], jiExitCode = None, jiStartedAt = 0, jiEndedAt = None, jiElapsedMs = 0, jiLogPath = [], jiLogSize = 0\<rparr>),
     wwKill = (\<lambda>_. k), wwProc = quiet_proc,
     wwExec = (\<lambda>r. fail_result \<lparr>dirStat = (\<lambda>_. StatMissing), startCmd = (\<lambda>_. Inl []), clock = 0\<rparr> [] r XCancelled), wwNow = 0\<rparr>"

definition pid_request :: WaitForRequest where
  "pid_request = \<lparr>wqCondition = ''process_exit'', wqTarget = ''7'', wqPattern = [], wqTimeoutSec = 5, wqIntervalMs = 0,
     wqEncoding = [], wqIgnoreCase = False\<rparr>"

definition empty_fs :: filesys where
  "empty_fs = \<lparr>nodes = [], workdir = ''/'', umask = 18\<rparr>"

theorem wait_first_hit_witness:
  "\<exists>r. WaitFor no_codec (\<lambda>_. None) (\<lambda>_. []) (\<lambda>_. []) empty_fs (pid_world KillOk) \<lparr>wdRoots = [], wdExecutor = False, wdJobs = None\<rparr>
     pid_request [(pid_world KillOk, Tick), (pid_world KillESRCH, Tick)] = Inr (Resolved r) \<and> wrSatisfied r \<and> wrChecks r = 2"
proof -
  let ?deps = "\<lparr>wdRoots = [], wdExecutor = False, wdJobs = None\<rparr> :: wait_deps"
  let ?ws = "[(pid_world KillOk, Tick), (pid_world KillESRCH, Tick)]"
  have seven: "TrimSpace ''7'' = ''7''" "ParseInt ''7'' = (7, True)"
    by (rule TrimSpace_ascii_word, simp_all add: isASCII_def bval_def is_space_def)
       (simp add: ParseInt_def ParseUint_def HasPrefix_def hex_val_def bval_def)
  have cond: "wqCondition pid_request = ''process_exit''" "wqTarget pid_request = ''7''" by (simp_all add: pid_request_def)
  have b: "buildProbe (\<lambda>_. None) empty_fs (pid_world KillOk) ?deps pid_request = Inr (ProbePid 7)"
    by (simp add: buildProbe_def cond seven)
  then obtain out where out: "WaitFor no_codec (\<lambda>_. None) (\<lambda>_. []) (\<lambda>_. []) empty_fs (pid_world KillOk) ?deps pid_request ?ws = Inr out"
    by (simp add: WaitFor_def planWait_def cond seven(1))
  have s: "sorts_by plPort (phSortPorts (wwProc (pid_world k)))" for k
    using sorts_by_sort_key by (simp add: pid_world_def quiet_proc_def)
  have "(\<exists>r. out = Resolved r \<and> wrSatisfied r \<and> wrChecks r = Suc 1) \<longleftrightarrow>
    1 < length ?ws \<and> condition_holds (ProbePid 7) (fst (?ws ! 1)) \<and>
    (\<forall>i < 1. \<not> condition_holds (ProbePid 7) (fst (?ws ! i)) \<and> \<not> aborts (ProbePid 7) (fst (?ws ! i)) \<and> snd (?ws ! i) = Tick)"
    by (rule wait_first_hit [OF out b]) (simp_all add: cond s)
  moreover have "condition_holds (ProbePid 7) (pid_world k) \<longleftrightarrow> k = KillESRCH" "\<not> aborts (ProbePid 7) (pid_world k)" for k
    by (simp_all add: condition_holds_def aborts_def pid_world_def)
  ultimately show ?thesis using out by (auto simp: numeral_2_eq_2)
qed

end
