(* ===== verification/Read_Many.thy ===== *)
theory Read_Many
  imports Read_File Patterns "HOL-Library.Multiset"
begin

text \<open>
  \<open>remote_read_files\<close> (\<open>readops.go\<close>): several files, named by paths or globs, in one call with one budget.
  \<open>filepath.Glob\<close> and the size of a directory entry are parameters.
\<close>

section \<open>Definitions\<close>

definition maxReadFiles :: nat where [go_defs]: "maxReadFiles = 50"
definition maxNotReadListed :: nat where [go_defs]: "maxNotReadListed = 100"
definition minReadFilesShare :: int where [go_defs]: "minReadFilesShare = 512"
definition readItemOverhead :: int where [go_defs]: "readItemOverhead = 200"

record ReadFilesRequest =
  rmFiles :: "ReadFileRequest list"
  rmLineNumbers :: bool
  rmMaxBytes :: int

datatype expand_error =
    ExpandEmpty
  | ExpandPath path_error
  | ExpandBadGlob gostring
  | ExpandNoMatch gostring

datatype item_error = ItemExpand expand_error | ItemRead read_error

record ReadFilesItem =
  riPath :: gostring
  riError :: "item_error option"
  riResult :: "ReadFileResult option"

datatype read_files_hint =
    TooManyMatches gostring
  | OutsideMatches gostring nat
  | AtMostFiles
  | FilesCut nat nat
  | FilesNotRead nat

record ReadFilesResult =
  rmFilesRead :: nat
  rmFilesFailed :: nat
  rmTruncated :: bool
  rmNotRead :: "gostring list"
  rmHint :: "read_files_hint list"
  rmItems :: "ReadFilesItem list"

subsection \<open>Expanding a path\<close>

text \<open>The components the kernel walks for a path as it is written.\<close>

definition os_comps :: "filesys \<Rightarrow> gostring \<Rightarrow> gostring list" where
  "os_comps fs p = (if IsAbs p then comps p else comps (workdir fs) @ comps p)"

definition glob_chars :: gostring where "glob_chars = ''*?[''"

text \<open>The directories before the first glob character.\<close>

function fixed_part :: "gostring list \<Rightarrow> gostring list" where
  "fixed_part cs = (if list_ex (\<lambda>c. ContainsAny c glob_chars) cs then fixed_part (butlast cs) else cs)"
  by pat_completeness auto
termination
  by (relation "measure length") (auto simp: list_ex_iff intro: diff_less length_pos_if_in_set)

declare fixed_part.simps [simp del]

fun expand_loop ::
  "filesys \<Rightarrow> gostring list \<Rightarrow> bool \<Rightarrow> gostring list \<Rightarrow> gostring list \<Rightarrow> nat \<Rightarrow> gostring list \<times> nat \<times> bool" where
  "expand_loop fs roots dotOK [] files outside = (files, outside, False)"
| "expand_loop fs roots dotOK (m # ms) files outside =
     (if length files = maxReadFiles then (files, outside, True)
      else if \<not> dotOK \<and> isHiddenName (Base m) then expand_loop fs roots dotOK ms files outside
      else
        (case validatePath fs m roots of
           Inl _ \<Rightarrow> expand_loop fs roots dotOK ms files (Suc outside)
         | Inr _ \<Rightarrow>
             (case Stat fs (os_comps fs m) of
                Inr (NFile _ _) \<Rightarrow> expand_loop fs roots dotOK ms (files @ [m]) outside
              | _ \<Rightarrow> expand_loop fs roots dotOK ms files outside)))"

definition expand_glob ::
  "(gostring \<Rightarrow> gostring list option) \<Rightarrow> filesys \<Rightarrow> gostring \<Rightarrow> gostring list \<Rightarrow>
   (expand_error + gostring list) \<times> read_files_hint list" where
  "expand_glob glob fs path roots =
     (let ap = Abs (workdir fs) path in
      case validatePath fs (path_of True (fixed_part (clean_comps ap))) roots of
        Inl e \<Rightarrow> (Inl (ExpandPath e), [])
      | Inr _ \<Rightarrow>
     (case glob ap of
        None \<Rightarrow> (Inl (ExpandBadGlob path), [])
      | Some matches \<Rightarrow>
          (let (files, outside, many) = expand_loop fs roots (isHiddenName (Base ap)) matches [] 0
           in (if files = [] then Inl (ExpandNoMatch path) else Inr files,
               (if many then [TooManyMatches path] else []) @ (if 0 < outside then [OutsideMatches path outside] else [])))))"

definition expandReadPath ::
  "(gostring \<Rightarrow> gostring list option) \<Rightarrow> filesys \<Rightarrow> gostring \<Rightarrow> gostring list \<Rightarrow>
   (expand_error + gostring list) \<times> read_files_hint list" where
  "expandReadPath glob fs path roots =
     (if TrimSpace path = [] then (Inl ExpandEmpty, [])
      else if (case Lstat fs (os_comps fs path) of Inr _ \<Rightarrow> True | Inl _ \<Rightarrow> False) \<or> \<not> ContainsAny path glob_chars then
        (case validatePath fs path roots of Inl e \<Rightarrow> (Inl (ExpandPath e), []) | Inr ap \<Rightarrow> (Inr [ap], []))
      else expand_glob glob fs path roots)"

subsection \<open>Reading\<close>

record read_job =
  rjReq :: ReadFileRequest
  rjErr :: "expand_error option"
  rjSize :: nat

definition path_size :: "(gostring \<Rightarrow> nat) \<Rightarrow> filesys \<Rightarrow> gostring \<Rightarrow> nat" where
  "path_size dirSize fs p =
     (case Stat fs (os_comps fs p) of
        Inl _ \<Rightarrow> 0
      | Inr (NFile d _) \<Rightarrow> length d
      | Inr _ \<Rightarrow> dirSize p)"

definition read_jobs ::
  "(gostring \<Rightarrow> gostring list option) \<Rightarrow> (gostring \<Rightarrow> nat) \<Rightarrow> filesys \<Rightarrow> gostring list \<Rightarrow> ReadFileRequest list \<Rightarrow> read_job list" where
  "read_jobs glob dirSize fs roots frs =
     concat (map (\<lambda>fr.
       case fst (expandReadPath glob fs (rfPath fr) roots) of
         Inl e \<Rightarrow> [\<lparr>rjReq = fr, rjErr = Some e, rjSize = 0\<rparr>]
       | Inr ps \<Rightarrow> map (\<lambda>p. \<lparr>rjReq = fr\<lparr>rfPath := p\<rparr>, rjErr = None, rjSize = path_size dirSize fs p\<rparr>) ps) frs)"

record read_many =
  msRemaining :: int
  msLeft :: nat
  msItems :: "nat \<rightharpoonup> ReadFilesItem"
  msRead :: nat
  msFailed :: nat
  msCut :: nat

text \<open>One job of the loop, the smallest files first; an entry that stays \<open>None\<close> is left unread.\<close>

definition read_share :: "read_many \<Rightarrow> int" where
  "read_share s = max (quo (msRemaining s) (int (msLeft s))) (min (msRemaining s) minReadFilesShare)"

definition shared_request :: "bool \<Rightarrow> int \<Rightarrow> ReadFileRequest \<Rightarrow> ReadFileRequest" where
  "shared_request numbers share r =
     r\<lparr>rfMaxBytes := (if rfMaxBytes r \<le> 0 \<or> share < rfMaxBytes r then share else rfMaxBytes r),
       rfLineNumbers := rfLineNumbers r \<or> numbers\<rparr>"

definition read_job_step ::
  "codec \<Rightarrow> gostring list \<Rightarrow> filesys \<Rightarrow> bool \<Rightarrow> read_job list \<Rightarrow> nat \<Rightarrow> read_many \<Rightarrow> read_many" where
  "read_job_step cd roots fs numbers js i s =
     (let j = js ! i; p = rfPath (rjReq j) in
      case rjErr j of
        Some e \<Rightarrow> s\<lparr>msItems := (msItems s)(i \<mapsto> \<lparr>riPath = p, riError = Some (ItemExpand e), riResult = None\<rparr>),
                    msFailed := Suc (msFailed s)\<rparr>
      | None \<Rightarrow>
          (let share = read_share s; s = s\<lparr>msLeft := msLeft s - 1\<rparr> in
           if share \<le> 0 then s
           else
             (case ReadFileContent cd (shared_request numbers share (rjReq j)) roots fs of
                Inl e \<Rightarrow> s\<lparr>msItems := (msItems s)(i \<mapsto> \<lparr>riPath = p, riError = Some (ItemRead e), riResult = None\<rparr>),
                          msFailed := Suc (msFailed s)\<rparr>
              | Inr out \<Rightarrow>
                  s\<lparr>msItems := (msItems s)(i \<mapsto> \<lparr>riPath = rrPath out, riError = None, riResult = Some out\<rparr>),
                    msRead := Suc (msRead s), msCut := msCut s + (if rrTruncated out then 1 else 0),
                    msRemaining := msRemaining s - (int (length (rrContent out)) + readItemOverhead)\<rparr>)))"

definition read_order :: "read_job list \<Rightarrow> nat list" where
  "read_order js = sort_key (\<lambda>i. rjSize (js ! i)) [0..<length js]"

definition new_read_many :: "nat \<Rightarrow> read_job list \<Rightarrow> read_many" where
  "new_read_many budget js =
     \<lparr>msRemaining = int budget, msLeft = length (filter (\<lambda>j. rjErr j = None) js), msItems = Map.empty,
      msRead = 0, msFailed = 0, msCut = 0\<rparr>"

definition ReadFiles ::
  "codec \<Rightarrow> (gostring \<Rightarrow> gostring list option) \<Rightarrow> (gostring \<Rightarrow> nat) \<Rightarrow> ReadFilesRequest \<Rightarrow> gostring list \<Rightarrow> filesys \<Rightarrow>
   ReadFilesResult option" where
  "ReadFiles cd glob dirSize req roots fs =
     (if rmFiles req = [] then None
      else
        (let budget = clampMaxBytes (rmMaxBytes req);
             alljs = read_jobs glob dirSize fs roots (rmFiles req);
             js = take maxReadFiles alljs;
             s = fold (read_job_step cd roots fs (rmLineNumbers req) js) (read_order js) (new_read_many budget js);
             unread = filter (\<lambda>i. msItems s i = None) [0..<length js];
             notRead = map (rfPath \<circ> rjReq) (drop maxReadFiles alljs) @ map (\<lambda>i. rfPath (rjReq (js ! i))) unread
         in Some \<lparr>rmFilesRead = msRead s, rmFilesFailed = msFailed s, rmTruncated = (0 < msCut s \<or> notRead \<noteq> []),
              rmNotRead = take maxNotReadListed notRead,
              rmHint = concat (map (\<lambda>fr. snd (expandReadPath glob fs (rfPath fr) roots)) (rmFiles req)) @
                (if maxReadFiles < length alljs then [AtMostFiles] else []) @
                (if 0 < msCut s then [FilesCut (msCut s) budget] else []) @
                (if notRead \<noteq> [] then [FilesNotRead (length notRead)] else []),
              rmItems = map (\<lambda>i. the (msItems s i)) (filter (\<lambda>i. msItems s i \<noteq> None) [0..<length js])\<rparr>))"

section \<open>Globs stay inside the roots\<close>

lemma expand_loop_members:
  "expand_loop fs roots dotOK ms files outside = (files', outside', many) \<Longrightarrow> p \<in> set files' \<Longrightarrow>
   p \<in> set files \<or> p \<in> set ms \<and> (\<exists>ap. validatePath fs p roots = Inr ap) \<and>
     (\<exists>d m. Stat fs (os_comps fs p) = Inr (NFile d m)) \<and> (isHiddenName (Base p) \<longrightarrow> dotOK)"
proof (induction ms arbitrary: files outside)
  case (Cons m ms)
  consider (full) "length files = maxReadFiles"
    | (take) d k ap where "expand_loop fs roots dotOK ms (files @ [m]) outside = (files', outside', many)"
        "validatePath fs m roots = Inr ap" "Stat fs (os_comps fs m) = Inr (NFile d k)" "isHiddenName (Base m) \<longrightarrow> dotOK"
    | (skip) n where "expand_loop fs roots dotOK ms files n = (files', outside', many)"
    using Cons.prems(1) by (auto split: if_splits sum.splits node.splits)
  then show ?case
  proof cases
    case take
    from Cons.IH [OF take(1) Cons.prems(2)] take(2-4) show ?thesis by auto
  next
    case skip
    from Cons.IH [OF skip Cons.prems(2)] show ?thesis by auto
  qed (use Cons.prems in auto)
qed simp

lemma expand_loop_bounded:
  "expand_loop fs roots dotOK ms files outside = (files', outside', many) \<Longrightarrow> length files \<le> maxReadFiles \<Longrightarrow>
   length files' \<le> maxReadFiles"
  by (induction fs roots dotOK ms files outside rule: expand_loop.induct)
    (auto split: if_splits sum.splits node.splits)

lemma validatePath_again:
  assumes "validatePath fs path roots = Inr ap" "IsAbs (workdir fs)"
  shows "validatePath fs ap roots = Inr ap"
proof -
  have ap: "ap = Clean (Abs (workdir fs) path)"
    using assms(1) by (auto simp: validatePath_def Let_def split: if_splits sum.splits)
  have abs: "IsAbs (Abs (workdir fs) path)" using IsAbs_Abs [OF assms(2), of path] by simp
  then have "IsAbs ap" by (simp add: ap)
  moreover have "Clean (Abs (workdir fs) ap) = ap"
    using \<open>IsAbs ap\<close> abs by (simp add: Abs_def) (simp add: ap Clean_Clean)
  ultimately show ?thesis using assms(1) ap by (auto simp: validatePath_def Let_def IsAbs_def split: if_splits)
qed

lemma expandReadPath_cases:
  assumes "expandReadPath glob fs path roots = (Inr ps, notes)"
  obtains (plain) ap where "ps = [ap]" "validatePath fs path roots = Inr ap"
    | (pattern) "expand_glob glob fs path roots = (Inr ps, notes)"
proof (cases "(case Lstat fs (os_comps fs path) of Inr _ \<Rightarrow> True | Inl _ \<Rightarrow> False) \<or> \<not> ContainsAny path glob_chars")
  case True
  with assms have "(case validatePath fs path roots of Inl e \<Rightarrow> (Inl (ExpandPath e), []) | Inr ap \<Rightarrow> (Inr [ap], [])) = (Inr ps, notes)"
    unfolding expandReadPath_def by (simp only: if_True split: if_splits) blast
  with plain show thesis by (cases "validatePath fs path roots") auto
next
  case False
  with assms pattern show thesis unfolding expandReadPath_def by (simp only: if_False split: if_splits) blast
qed

text \<open>C9: a pattern lists nothing outside the roots, whatever the globbing of the file system returns: every
  path a request expands to is accepted by the sandbox, the file it leads to lies below a root, and where
  it comes from a pattern it is a regular file, one of at most 50.\<close>

theorem expand_confined:
  assumes "expandReadPath glob fs path roots = (Inr ps, notes)" "p \<in> set ps"
    "roots \<noteq> []" "list_all IsAbs roots" "IsAbs (workdir fs)"
  shows "(\<exists>ap. validatePath fs p roots = Inr ap \<and>
      (\<forall>q. resolve fs False (clean_comps ap) = Inr q \<longrightarrow> underRoots (path_of True q) (resolveRoots fs roots))) \<and>
    length ps \<le> maxReadFiles \<and>
    (ps = [p] \<and> validatePath fs path roots = Inr p \<or> (\<exists>d m. Stat fs (os_comps fs p) = Inr (NFile d m)))"
proof -
  have ok: "(\<exists>ap. validatePath fs p roots = Inr ap \<and>
      (\<forall>q. resolve fs False (clean_comps ap) = Inr q \<longrightarrow> underRoots (path_of True q) (resolveRoots fs roots)))"
    if "validatePath fs p roots = Inr ap" for ap
    using that validatePath_confined [OF that assms(3,4,5), of False] by blast
  have glob: "\<exists>dotOK ms outside many. expand_loop fs roots dotOK ms [] 0 = (ps, outside, many)"
    if e: "expand_glob glob fs path roots = (Inr ps, notes)"
  proof -
    let ?ap = "Abs (workdir fs) path"
    obtain ms where ms: "glob ?ap = Some ms" "expand_glob glob fs path roots =
       (let (files, outside, many) = expand_loop fs roots (isHiddenName (Base ?ap)) ms [] 0
           in (if files = [] then Inl (ExpandNoMatch path) else Inr files,
               (if many then [TooManyMatches path] else []) @ (if 0 < outside then [OutsideMatches path outside] else [])))"
      using e by (cases "glob ?ap"; cases "validatePath fs (path_of True (fixed_part (clean_comps ?ap))) roots")
        (simp_all add: expand_glob_def Let_def)
    obtain files outside many where l: "expand_loop fs roots (isHiddenName (Base ?ap)) ms [] 0 = (files, outside, many)"
      by (cases "expand_loop fs roots (isHiddenName (Base ?ap)) ms [] 0")
    with ms(2) e have "files = ps" by (simp split: if_splits)
    with l show ?thesis by blast
  qed
  from assms(1) show ?thesis
  proof (cases rule: expandReadPath_cases)
    case (plain ap)
    then have "validatePath fs path roots = Inr p" "ps = [p]" using assms(2) by simp_all
    then show ?thesis using ok [OF validatePath_again [OF _ assms(5)]] by (simp add: maxReadFiles_def)
  next
    case pattern
    then obtain dotOK ms outside many where l: "expand_loop fs roots dotOK ms [] 0 = (ps, outside, many)" using glob by blast
    from expand_loop_members [OF l assms(2)] expand_loop_bounded [OF l] ok show ?thesis by auto
  qed
qed

section \<open>Every file is accounted for\<close>

definition job_ok :: "read_job list \<Rightarrow> nat \<Rightarrow> bool" where
  "job_ok js i \<longleftrightarrow> rjErr (js ! i) = None"

definition item_cost :: "ReadFilesItem option \<Rightarrow> int" where
  "item_cost it =
     (case it of
        Some item \<Rightarrow> (case riResult item of Some r \<Rightarrow> int (length (rrContent r)) + readItemOverhead | None \<Rightarrow> 0)
      | None \<Rightarrow> 0)"

text \<open>What an entry of the result may be: the error of the expansion, or what \<open>ReadFileContent\<close> returns for
  the request with a share of the budget.\<close>

definition item_right ::
  "codec \<Rightarrow> gostring list \<Rightarrow> filesys \<Rightarrow> bool \<Rightarrow> nat \<Rightarrow> read_job \<Rightarrow> ReadFilesItem \<Rightarrow> bool" where
  "item_right cd roots fs numbers budget j it \<longleftrightarrow>
     (case rjErr j of
        Some e \<Rightarrow> it = \<lparr>riPath = rfPath (rjReq j), riError = Some (ItemExpand e), riResult = None\<rparr>
      | None \<Rightarrow>
          (\<exists>share. 0 < share \<and> share \<le> int budget \<and>
             (case ReadFileContent cd (shared_request numbers share (rjReq j)) roots fs of
                Inl e \<Rightarrow> it = \<lparr>riPath = rfPath (rjReq j), riError = Some (ItemRead e), riResult = None\<rparr>
              | Inr out \<Rightarrow> it = \<lparr>riPath = rrPath out, riError = None, riResult = Some out\<rparr>)))"

lemma share_cases:
  assumes "0 < msLeft s"
  shows "read_share s \<le> 0 \<longleftrightarrow> msRemaining s \<le> 0" "0 < msRemaining s \<Longrightarrow> read_share s \<le> msRemaining s"
proof -
  have neg: "quo (msRemaining s) (int (msLeft s)) \<le> 0" if "msRemaining s \<le> 0"
    using that assms by (auto simp: quo_def sgn_if pos_imp_zdiv_nonneg_iff)
  have pos: "quo (msRemaining s) (int (msLeft s)) \<le> msRemaining s" if "0 < msRemaining s"
    using that assms by (simp add: quo_nonneg int_div_le_self)
  show "read_share s \<le> 0 \<longleftrightarrow> msRemaining s \<le> 0"
    using neg by (auto simp: read_share_def minReadFilesShare_def)
  show "0 < msRemaining s \<Longrightarrow> read_share s \<le> msRemaining s"
    using pos by (auto simp: read_share_def)
qed

text \<open>What is true of the entries once the jobs \<open>seen\<close> are done and \<open>todo\<close> are left.\<close>

definition tally :: "(ReadFilesItem \<Rightarrow> bool) \<Rightarrow> (nat \<rightharpoonup> ReadFilesItem) \<Rightarrow> nat list \<Rightarrow> nat" where
  "tally P m is = length (filter (\<lambda>i. case m i of Some it \<Rightarrow> P it | None \<Rightarrow> False) is)"

definition spent :: "(nat \<rightharpoonup> ReadFilesItem) \<Rightarrow> nat list \<Rightarrow> int" where
  "spent m is = sum_list (map (\<lambda>i. item_cost (m i)) is)"

definition was_cut :: "ReadFilesItem \<Rightarrow> bool" where
  "was_cut it = (case riResult it of Some r \<Rightarrow> rrTruncated r | None \<Rightarrow> False)"

definition read_inv ::
  "codec \<Rightarrow> gostring list \<Rightarrow> filesys \<Rightarrow> bool \<Rightarrow> nat \<Rightarrow> read_job list \<Rightarrow> nat list \<Rightarrow> nat list \<Rightarrow> read_many \<Rightarrow> bool" where
  "read_inv cd roots fs numbers budget js seen todo s \<longleftrightarrow>
     msLeft s = length (filter (job_ok js) todo) \<and>
     msRemaining s = int budget - spent (msItems s) seen \<and>
     (\<forall>i. i \<notin> set seen \<longrightarrow> msItems s i = None) \<and>
     (\<forall>i \<in> set seen. case msItems s i of
        Some it \<Rightarrow> item_right cd roots fs numbers budget (js ! i) it
      | None \<Rightarrow> job_ok js i \<and> msRemaining s \<le> 0) \<and>
     (\<forall>i \<in> set seen. \<forall>k \<in> set seen.
        msItems s i = None \<and> job_ok js k \<and> rjSize (js ! i) < rjSize (js ! k) \<longrightarrow> msItems s k = None) \<and>
     msRead s = tally (\<lambda>it. riError it = None) (msItems s) seen \<and>
     msFailed s = tally (\<lambda>it. riError it \<noteq> None) (msItems s) seen \<and>
     msCut s = tally was_cut (msItems s) seen"

lemma item_cost_nonneg [simp]: "0 \<le> item_cost it"
  by (simp add: item_cost_def readItemOverhead_def split: option.split)

lemma spent_nonneg: "0 \<le> spent m is"
  by (induction "is") (simp_all add: spent_def)

lemma spent_snoc: "i \<notin> set is \<Longrightarrow> spent (m(i := x)) (is @ [i]) = spent m is + item_cost x"
  unfolding spent_def by (simp, intro arg_cong [where f = sum_list] map_cong) auto

lemma tally_snoc:
  "i \<notin> set is \<Longrightarrow> tally P (m(i := x)) (is @ [i]) = tally P m is + (case x of Some it \<Rightarrow> if P it then 1 else 0 | None \<Rightarrow> 0)"
  unfolding tally_def
  by (simp split: option.split, intro conjI impI allI arg_cong [where f = length] filter_cong) auto

lemma read_inv_upd:
  assumes inv: "read_inv cd roots fs numbers budget js seen (i # todo) s" and i: "i \<notin> set seen"
    and sizes: "\<forall>k \<in> set seen. rjSize (js ! k) \<le> rjSize (js ! i)"
    and s': "msItems s' = (msItems s)(i := x)" "msLeft s' = length (filter (job_ok js) todo)"
      "msRemaining s' = msRemaining s - item_cost x"
      "msRead s' = msRead s + (case x of Some it \<Rightarrow> if riError it = None then 1 else 0 | None \<Rightarrow> 0)"
      "msFailed s' = msFailed s + (case x of Some it \<Rightarrow> if riError it \<noteq> None then 1 else 0 | None \<Rightarrow> 0)"
      "msCut s' = msCut s + (case x of Some it \<Rightarrow> if was_cut it then 1 else 0 | None \<Rightarrow> 0)"
    and x: "case x of Some it \<Rightarrow> item_right cd roots fs numbers budget (js ! i) it | None \<Rightarrow> job_ok js i \<and> msRemaining s \<le> 0"
      "job_ok js i \<Longrightarrow> msRemaining s \<le> 0 \<Longrightarrow> x = None"
  shows "read_inv cd roots fs numbers budget js (seen @ [i]) todo s'"
proof -
  have less: "msRemaining s' \<le> msRemaining s" by (simp add: s'(3))
  have old: "case msItems s k of Some it \<Rightarrow> item_right cd roots fs numbers budget (js ! k) it
      | None \<Rightarrow> job_ok js k \<and> msRemaining s \<le> 0" if "k \<in> set seen" for k
    using inv that by (simp add: read_inv_def)
  have old_order: "\<forall>i \<in> set seen. \<forall>k \<in> set seen.
      msItems s i = None \<and> job_ok js k \<and> rjSize (js ! i) < rjSize (js ! k) \<longrightarrow> msItems s k = None"
    using inv unfolding read_inv_def by (elim conjE)
  have items: "case msItems s' k of Some it \<Rightarrow> item_right cd roots fs numbers budget (js ! k) it
      | None \<Rightarrow> job_ok js k \<and> msRemaining s' \<le> 0" if "k \<in> set (seen @ [i])" for k
  proof (cases "k = i")
    case True
    then show ?thesis using x(1) less by (auto simp: s'(1) split: option.splits)
  next
    case False
    then show ?thesis using old [of k] that less by (auto simp: s'(1) split: option.splits)
  qed
  have order: "msItems s' b = None"
    if "a \<in> set (seen @ [i])" "b \<in> set (seen @ [i])" "msItems s' a = None" "job_ok js b" "rjSize (js ! a) < rjSize (js ! b)" for a b
  proof -
    have "a \<noteq> i \<or> b = i" using that(2,5) sizes by auto
    moreover have "a \<noteq> b" using that(5) by blast
    ultimately have a: "a \<in> set seen" "a \<noteq> i" "msItems s a = None" using that(1,3) by (auto simp: s'(1))
    show ?thesis
    proof (cases "b = i")
      case True
      have "msRemaining s \<le> 0" using old [OF a(1)] a(3) by simp
      then show ?thesis using True that(4) x(2) by (simp add: s'(1))
    next
      case False
      then have "b \<in> set seen" using that(2) by simp
      with old_order a that(4,5) have "msItems s b = None" by blast
      then show ?thesis using False by (simp add: s'(1))
    qed
  qed
  show ?thesis
    unfolding read_inv_def
  proof (intro conjI)
    show "msRemaining s' = int budget - spent (msItems s') (seen @ [i])"
      using inv by (simp add: read_inv_def s'(1,3) spent_snoc [OF i])
    show "\<forall>k. k \<notin> set (seen @ [i]) \<longrightarrow> msItems s' k = None" using inv by (simp add: read_inv_def s'(1))
    show "msLeft s' = length (filter (job_ok js) todo)" by (rule s'(2))
    show "\<forall>k \<in> set (seen @ [i]). case msItems s' k of
        Some it \<Rightarrow> item_right cd roots fs numbers budget (js ! k) it | None \<Rightarrow> job_ok js k \<and> msRemaining s' \<le> 0"
      using items by blast
    show "\<forall>a \<in> set (seen @ [i]). \<forall>b \<in> set (seen @ [i]).
        msItems s' a = None \<and> job_ok js b \<and> rjSize (js ! a) < rjSize (js ! b) \<longrightarrow> msItems s' b = None"
      using order by blast
  qed (use inv in \<open>simp_all add: read_inv_def s'(1,4-6) tally_snoc [OF i] split: option.split\<close>)
qed

lemma read_job_step_inv:
  assumes inv: "read_inv cd roots fs numbers budget js seen (i # todo) s" and i: "i \<notin> set seen"
    and sizes: "\<forall>k \<in> set seen. rjSize (js ! k) \<le> rjSize (js ! i)"
  shows "read_inv cd roots fs numbers budget js (seen @ [i]) todo (read_job_step cd roots fs numbers js i s)"
proof (cases "rjErr (js ! i)")
  case (Some e)
  show ?thesis
    using inv
    by (intro read_inv_upd [OF inv i sizes])
      (auto simp: read_job_step_def Let_def Some read_inv_def job_ok_def item_right_def item_cost_def was_cut_def)
next
  case None
  have left: "msLeft s = Suc (length (filter (job_ok js) todo))" using inv None by (simp add: read_inv_def job_ok_def)
  then have share: "read_share s \<le> 0 \<longleftrightarrow> msRemaining s \<le> 0" "0 < msRemaining s \<Longrightarrow> read_share s \<le> msRemaining s"
    using share_cases [of s] by simp_all
  have "msRemaining s \<le> int budget" using inv spent_nonneg by (simp add: read_inv_def)
  with share(2) have budget: "read_share s \<le> int budget" if "0 < msRemaining s" using that by fastforce
  let ?r = "shared_request numbers (read_share s) (rjReq (js ! i))"
  show ?thesis
  proof (cases "msRemaining s \<le> 0")
    case True
    with inv share(1) None left show ?thesis
      by (intro read_inv_upd [OF inv i sizes, where x = None])
        (auto simp: read_job_step_def Let_def job_ok_def item_cost_def fun_upd_idem_iff read_inv_def i)
  next
    case False
    with share have pos: "0 < read_share s" "\<not> read_share s \<le> 0" by simp_all
    show ?thesis
    proof (cases "ReadFileContent cd ?r roots fs")
      case (Inl e)
      with False None left pos budget show ?thesis
        by (intro read_inv_upd [OF inv i sizes, where x = "Some \<lparr>riPath = rfPath (rjReq (js ! i)), riError = Some (ItemRead e), riResult = None\<rparr>"])
          (auto simp: read_job_step_def Let_def job_ok_def item_cost_def was_cut_def item_right_def intro!: exI [of _ "read_share s"])
    next
      case (Inr out)
      with False None left pos budget show ?thesis
        by (intro read_inv_upd [OF inv i sizes, where x = "Some \<lparr>riPath = rrPath out, riError = None, riResult = Some out\<rparr>"])
          (auto simp: read_job_step_def Let_def job_ok_def item_cost_def was_cut_def item_right_def intro!: exI [of _ "read_share s"])
    qed
  qed
qed

lemma read_jobs_inv:
  assumes "read_inv cd roots fs numbers budget js seen todo s" "distinct (seen @ todo)"
    "sorted (map (\<lambda>i. rjSize (js ! i)) (seen @ todo))"
  shows "read_inv cd roots fs numbers budget js (seen @ todo) [] (fold (read_job_step cd roots fs numbers js) todo s)"
  using assms
proof (induction todo arbitrary: seen s)
  case (Cons i todo)
  have "read_inv cd roots fs numbers budget js (seen @ [i]) todo (read_job_step cd roots fs numbers js i s)"
    using Cons.prems by (intro read_job_step_inv) (auto simp: sorted_append)
  from Cons.IH [OF this] Cons.prems show ?case by simp
qed simp

lemma read_order_props:
  "distinct (read_order js)" "set (read_order js) = {..<length js}" "mset (read_order js) = mset [0..<length js]"
  "sorted (map (\<lambda>i. rjSize (js ! i)) (read_order js))"
  by (auto simp: read_order_def)

lemma read_files_done:
  assumes "s = fold (read_job_step cd roots fs numbers js) (read_order js) (new_read_many budget js)"
  shows "read_inv cd roots fs numbers budget js (read_order js) [] s"
proof -
  have "length (filter (\<lambda>j. rjErr j = None) js) = length (filter (job_ok js) [0..<length js])"
    by (simp add: length_filter_conv_card job_ok_def cong: conj_cong)
  also have "\<dots> = length (filter (job_ok js) (read_order js))"
    by (metis mset_filter read_order_props(3) size_mset)
  finally have "read_inv cd roots fs numbers budget js [] (read_order js) (new_read_many budget js)"
    by (simp add: read_inv_def new_read_many_def spent_def tally_def)
  from read_jobs_inv [OF this] read_order_props show ?thesis by (simp add: assms)
qed

lemma tally_perm: "mset is = mset js \<Longrightarrow> tally P m is = tally P m js"
  unfolding tally_def by (metis mset_filter size_mset)

lemma spent_perm: "mset is = mset js \<Longrightarrow> spent m is = spent m js"
  unfolding spent_def by (metis mset_map sum_mset_sum_list)

lemma tally_items:
  "tally P m is = length (filter P (map (\<lambda>i. the (m i)) (filter (\<lambda>i. m i \<noteq> None) is)))"
  by (induction "is") (auto simp: tally_def split: option.split)


section \<open>Applied\<close>

definition glob_fs :: filesys where
  "glob_fs = \<lparr>nodes = [([''r''], NDir 493), ([''r'', ''a''], NFile ''x'' 420), ([''r'', ''l''], NLink ''/out''), ([''out''], NFile ''y'' 420)],
     workdir = ''/'', umask = 18\<rparr>"

lemma glob_expands:
  "expandReadPath (\<lambda>_. Some [''/r/a'', ''/r/l'']) glob_fs ''/r/*'' [''/r''] = (Inr [''/r/a''], [OutsideMatches ''/r/*'' 1])"
proof -
  have t: "TrimSpace ''/r/*'' = ''/r/*''"
    by (rule TrimSpace_ascii_word) (simp_all add: isASCII_def bval_def is_space_def)
  show ?thesis unfolding expandReadPath_def t by code_simp
qed

theorem expand_confined_witness:
  "\<exists>ap. validatePath glob_fs ''/r/a'' [''/r''] = Inr ap \<and>
     (\<forall>q. resolve glob_fs False (clean_comps ap) = Inr q \<longrightarrow> underRoots (path_of True q) (resolveRoots glob_fs [''/r'']))"
  by (rule conjunct1 [OF expand_confined [OF glob_expands]]) (simp_all add: glob_fs_def IsAbs_def HasPrefix_def)

definition read_two :: ReadFilesRequest where
  "read_two = \<lparr>rmFiles = [(read_request [] [])\<lparr>rfPath := []\<rparr>, read_request [] []], rmLineNumbers = False, rmMaxBytes = 8\<rparr>"


end
