(* ===== verification/Listings.thy ===== *)
theory Listings
  imports Find_Files Text_Encoding Read_Window Token_Auth
begin

text \<open>
  \<open>remote_list_dir\<close> and \<open>remote_stat\<close> (\<open>fileops.go\<close>): the entries of one directory, and what is known
  about a path, with the text facts of a regular file.  Owners, link counts and the times come from the
  host; MD5 and SHA-256 are parameters.
\<close>

section \<open>Definitions\<close>

record owner_host =
  ohOwner :: "loc \<Rightarrow> gostring"
  ohGroup :: "loc \<Rightarrow> gostring"
  ohNlink :: "loc \<Rightarrow> nat"

text \<open>\<open>FileMode.String\<close>.\<close>

definition mode_text :: "node \<Rightarrow> gostring" where
  "mode_text x =
     (case x of
        NDir m \<Rightarrow> CHR ''d'' # tl (perm_string m)
      | NFile _ m \<Rightarrow> perm_string m
      | NLink _ \<Rightarrow> ''Lrwxrwxrwx'')"

definition isDirNode :: "node \<Rightarrow> bool" where
  "isDirNode x = (case x of NDir _ \<Rightarrow> True | _ \<Rightarrow> False)"

subsection \<open>Listing a directory\<close>

record DirEntry =
  deName :: gostring
  deIsDir :: bool
  deType :: gostring
  deSize :: nat
  deMode :: gostring
  deModTime :: gostring
  deOwner :: gostring
  deGroup :: gostring
  deIsSymlink :: bool
  deTarget :: gostring

record ListDirRequest =
  ldPath :: gostring
  ldSortBy :: gostring
  ldFilterGlob :: "gostring list"
  ldIncludeHidden :: bool

record ListDirResult =
  lrPath :: gostring
  lrCount :: nat
  lrEntries :: "DirEntry list"

datatype list_error = LDPath path_error | LDRead fs_error | LDGlob "gostring \<times> glob_error"

definition ReadDir :: "filesys \<Rightarrow> loc \<Rightarrow> fs_error + (loc \<times> gostring list)" where
  "ReadDir fs p =
     (case resolve fs False p of
        Inl e \<Rightarrow> Inl e
      | Inr d \<Rightarrow> (case node_at fs d of Some (NDir _) \<Rightarrow> Inr (d, children fs d) | Some _ \<Rightarrow> Inl ENOTDIR | None \<Rightarrow> Inl ENOENT))"

definition dir_entry :: "filesys \<Rightarrow> time_host \<Rightarrow> owner_host \<Rightarrow> gostring \<Rightarrow> loc \<Rightarrow> gostring \<Rightarrow> node \<Rightarrow> DirEntry" where
  "dir_entry fs th oh ap d name x =
     \<lparr>deName = name, deIsDir = isDirNode x,
      deType = (case x of NDir _ \<Rightarrow> ''dir'' | NFile _ _ \<Rightarrow> ''file'' | NLink _ \<Rightarrow> ''other''),
      deSize = entry_size th (d @ [name]) x, deMode = mode_text x, deModTime = tpFormat th (tpModTime th (d @ [name])),
      deOwner = ohOwner oh (d @ [name]), deGroup = ohGroup oh (d @ [name]),
      deIsSymlink = (case x of NLink _ \<Rightarrow> True | _ \<Rightarrow> False),
      deTarget = (case x of
                    NLink _ \<Rightarrow> (case Readlink fs (clean_comps (Join [ap, name])) of Inr t \<Rightarrow> t | Inl _ \<Rightarrow> [])
                  | _ \<Rightarrow> [])\<rparr>"

definition list_shows :: "ListDirRequest \<Rightarrow> globSet option \<Rightarrow> gostring \<Rightarrow> gostring \<Rightarrow> bool" where
  "list_shows req g ap name \<longleftrightarrow>
     (ldIncludeHidden req \<or> \<not> isHiddenName name) \<and> glob_match g name name (Join [ap, name])"

fun list_entries_of ::
  "filesys \<Rightarrow> time_host \<Rightarrow> owner_host \<Rightarrow> ListDirRequest \<Rightarrow> globSet option \<Rightarrow> gostring \<Rightarrow> loc \<Rightarrow> gostring list \<Rightarrow> DirEntry list" where
  "list_entries_of fs th oh req g ap d [] = []"
| "list_entries_of fs th oh req g ap d (name # ns) =
     (if \<not> list_shows req g ap name then list_entries_of fs th oh req g ap d ns
      else
        (case node_at fs (d @ [name]) of
           None \<Rightarrow> list_entries_of fs th oh req g ap d ns
         | Some x \<Rightarrow> dir_entry fs th oh ap d name x # list_entries_of fs th oh req g ap d ns))"

definition larger_first :: "DirEntry \<Rightarrow> DirEntry \<Rightarrow> bool" where
  "larger_first a b =
     (if deIsDir a \<noteq> deIsDir b then \<not> deIsDir a
      else if deIsDir a then False
      else deSize b < deSize a)"

definition list_sort :: "gostring \<Rightarrow> DirEntry list \<Rightarrow> DirEntry list" where
  "list_sort by es =
     (if by = ''mtime'' then SliceStable (\<lambda>a b. deModTime b < deModTime a) es
      else if by = ''size'' then SliceStable larger_first es
      else SliceStable (\<lambda>a b. deName a < deName b) es)"

definition ListDirectory ::
  "compile \<Rightarrow> time_host \<Rightarrow> owner_host \<Rightarrow> filesys \<Rightarrow> gostring list \<Rightarrow> ListDirRequest \<Rightarrow> list_error + ListDirResult" where
  "ListDirectory rx th oh fs roots req =
     (case validatePath fs (ldPath req) roots of
        Inl e \<Rightarrow> Inl (LDPath e)
      | Inr ap \<Rightarrow>
     (case ReadDir fs (clean_comps ap) of
        Inl e \<Rightarrow> Inl (LDRead e)
      | Inr (d, ns) \<Rightarrow>
     (case compileGlobs rx (ldFilterGlob req) False of
        Inl e \<Rightarrow> Inl (LDGlob e)
      | Inr g \<Rightarrow>
          (let es = list_sort (ToLower (ldSortBy req)) (list_entries_of fs th oh req g ap d ns)
           in Inr \<lparr>lrPath = ap, lrCount = length es, lrEntries = es\<rparr>))))"

subsection \<open>Facts of a text\<close>

datatype text_skip = BinaryFile | LargerThan nat

record TextInfo =
  tiLines :: nat
  tiLineEndings :: gostring
  tiFinalNewline :: bool
  tiBOM :: gostring
  tiEncoding :: gostring
  tiMaxLineLen :: nat
  tiSkipped :: "text_skip option"

definition maxTextScanBytes :: nat where [go_defs]: "maxTextScanBytes = 268435456"

record text_scan =
  tsLF :: nat
  tsCRLF :: nat
  tsCR :: nat
  tsLineLen :: nat
  tsMax :: nat
  tsPrev :: char

definition new_text_scan :: text_scan where
  "new_text_scan = \<lparr>tsLF = 0, tsCRLF = 0, tsCR = 0, tsLineLen = 0, tsMax = 0, tsPrev = CHR 0x00\<rparr>"

definition text_step :: "char \<Rightarrow> text_scan \<Rightarrow> text_scan" where
  "text_step c s =
     (let s' =
        (if c = nl then
           s\<lparr>tsLF := Suc (tsLF s), tsCRLF := tsCRLF s + (if tsPrev s = cr then 1 else 0),
             tsMax := max (tsMax s) (tsLineLen s), tsLineLen := 0\<rparr>
         else if c = cr then s
         else s\<lparr>tsCR := tsCR s + (if tsPrev s = cr then 1 else 0), tsLineLen := Suc (tsLineLen s)\<rparr>)
      in s'\<lparr>tsPrev := c\<rparr>)"

definition bom_name :: "bytes \<Rightarrow> gostring" where
  "bom_name head =
     (if HasPrefix head [CHR 0xEF, CHR 0xBB, CHR 0xBF] then ''utf-8''
      else if HasPrefix head [CHR 0xFF, CHR 0xFE] then ''utf-16le''
      else if HasPrefix head [CHR 0xFE, CHR 0xFF] then ''utf-16be''
      else [])"

definition line_endings :: "nat \<Rightarrow> nat \<Rightarrow> nat \<Rightarrow> gostring" where
  "line_endings lf crlf k =
     (if lf = 0 \<and> k = 0 then ''none''
      else if 0 < k \<and> lf = 0 then ''cr''
      else if crlf = lf \<and> k = 0 then ''crlf''
      else if crlf = 0 \<and> k = 0 then ''lf''
      else ''mixed'')"

definition no_text :: TextInfo where
  "no_text = \<lparr>tiLines = 0, tiLineEndings = [], tiFinalNewline = False, tiBOM = [], tiEncoding = [], tiMaxLineLen = 0, tiSkipped = None\<rparr>"

definition textInfo :: "bool \<Rightarrow> bytes \<Rightarrow> bytes \<Rightarrow> TextInfo" where
  "textInfo binary head f =
     (if binary then no_text\<lparr>tiSkipped := Some BinaryFile\<rparr>
      else if maxTextScanBytes < length f then no_text\<lparr>tiSkipped := Some (LargerThan 256)\<rparr>
      else
        (let s = fold text_step f new_text_scan;
             final = (tsPrev s = nl)
         in \<lparr>tiLines = tsLF s + (if 0 < length f \<and> \<not> final then 1 else 0), tiLineEndings = line_endings (tsLF s) (tsCRLF s) (tsCR s),
             tiFinalNewline = final, tiBOM = bom_name head, tiEncoding = detectEncoding head,
             tiMaxLineLen = max (tsMax s) (tsLineLen s), tiSkipped = None\<rparr>))"

subsection \<open>Stat\<close>

record StatRequest =
  sqPath :: gostring
  sqIncludeHash :: gostring
  sqIncludeEncoding :: bool
  sqIncludeText :: bool

datatype stat_error = SEPath path_error | SELstat fs_error | SEHash gostring

record StatResult =
  srPath :: gostring
  srExists :: bool
  srIsDir :: bool
  srSize :: nat
  srMode :: gostring
  srModTime :: gostring
  srIsBinary :: bool
  srOwner :: gostring
  srGroup :: gostring
  srNlink :: nat
  srIsSymlink :: bool
  srTarget :: gostring
  srTargetOutsideRoots :: bool
  srEncoding :: gostring
  srHash :: gostring
  srHashAlgo :: gostring
  srHashSkipped :: bool
  srText :: "TextInfo option"
  srError :: "stat_error option"

definition maxStatHashBytes :: nat where [go_defs]: "maxStatHashBytes = 268435456"
definition maxStatPaths :: nat where [go_defs]: "maxStatPaths = 200"

definition empty_stat :: "gostring \<Rightarrow> StatResult" where
  "empty_stat p =
     \<lparr>srPath = p, srExists = False, srIsDir = False, srSize = 0, srMode = [], srModTime = [], srIsBinary = False, srOwner = [],
      srGroup = [], srNlink = 0, srIsSymlink = False, srTarget = [], srTargetOutsideRoots = False, srEncoding = [], srHash = [],
      srHashAlgo = [], srHashSkipped = False, srText = None, srError = None\<rparr>"

definition hashFile :: "(bytes \<Rightarrow> bytes) \<Rightarrow> (bytes \<Rightarrow> bytes) \<Rightarrow> bytes \<Rightarrow> gostring \<Rightarrow> gostring" where
  "hashFile md5 sha f algo = hexEncode (if algo = ''md5'' then md5 f else sha f)"

text \<open>What is read from a regular file.\<close>

definition stat_content ::
  "(bytes \<Rightarrow> bytes) \<Rightarrow> (bytes \<Rightarrow> bytes) \<Rightarrow> StatRequest \<Rightarrow> bytes \<Rightarrow> StatResult \<Rightarrow> stat_error + StatResult" where
  "stat_content md5 sha req f r =
     (let algo = ToLower (TrimSpace (sqIncludeHash req)) in
      if algo \<notin> {[], ''md5'', ''sha256''} then Inl (SEHash (sqIncludeHash req))
      else
        (let r = (if algo = [] then r
                  else if maxStatHashBytes < length f then r\<lparr>srHashSkipped := True\<rparr>
                  else r\<lparr>srHash := hashFile md5 sha f algo, srHashAlgo := algo\<rparr>);
             head = take binarySniffLen f;
             binary = looksBinary head
         in Inr (r\<lparr>srIsBinary := binary,
                   srEncoding := (if sqIncludeEncoding req \<and> \<not> binary then detectEncoding head else []),
                   srText := (if sqIncludeText req then Some (textInfo binary head f) else None)\<rparr>)))"

definition stat_described ::
  "time_host \<Rightarrow> owner_host \<Rightarrow> (bytes \<Rightarrow> bytes) \<Rightarrow> (bytes \<Rightarrow> bytes) \<Rightarrow> StatRequest \<Rightarrow> loc \<Rightarrow> node \<Rightarrow> StatResult \<Rightarrow> stat_error + StatResult" where
  "stat_described th oh md5 sha req q x r =
     (let r = r\<lparr>srIsDir := isDirNode x, srSize := entry_size th q x, srMode := mode_text x,
                srModTime := tpFormat th (tpModTime th q), srOwner := ohOwner oh q, srGroup := ohGroup oh q, srNlink := ohNlink oh q\<rparr>
      in case x of NFile f _ \<Rightarrow> stat_content md5 sha req f r | _ \<Rightarrow> Inr r)"

definition StatFile ::
  "time_host \<Rightarrow> owner_host \<Rightarrow> (bytes \<Rightarrow> bytes) \<Rightarrow> (bytes \<Rightarrow> bytes) \<Rightarrow> filesys \<Rightarrow> gostring list \<Rightarrow> StatRequest \<Rightarrow> stat_error + StatResult" where
  "StatFile th oh md5 sha fs roots req =
     (case validateLinkPath fs (sqPath req) roots of
        Inl e \<Rightarrow> Inl (SEPath e)
      | Inr ap \<Rightarrow>
     (case Lstat fs (clean_comps ap) of
        Inl e \<Rightarrow> if e = ENOENT then Inr (empty_stat ap) else Inl (SELstat e)
      | Inr x \<Rightarrow>
          (let q = (case lresolve fs (clean_comps ap) of Inr q \<Rightarrow> q | Inl _ \<Rightarrow> []);
               r = (empty_stat ap)\<lparr>srExists := True\<rparr>
           in case x of
                NLink _ \<Rightarrow>
                  (let r = r\<lparr>srIsSymlink := True,
                             srTarget := (case Readlink fs (clean_comps ap) of Inr t \<Rightarrow> t | Inl _ \<Rightarrow> [])\<rparr>
                   in case validatePath fs ap roots of
                        Inl _ \<Rightarrow>
                          Inr (r\<lparr>srSize := entry_size th q x, srMode := mode_text x,
                                 srModTime := tpFormat th (tpModTime th q), srTargetOutsideRoots := True\<rparr>)
                      | Inr _ \<Rightarrow>
                          (case Stat fs (clean_comps ap) of
                             Inr y \<Rightarrow> stat_described th oh md5 sha req
                               (case resolve fs False (clean_comps ap) of Inr p \<Rightarrow> p | Inl _ \<Rightarrow> []) y r
                           | Inl _ \<Rightarrow> stat_described th oh md5 sha req q x r))
              | _ \<Rightarrow> stat_described th oh md5 sha req q x r)))"

definition StatFiles ::
  "time_host \<Rightarrow> owner_host \<Rightarrow> (bytes \<Rightarrow> bytes) \<Rightarrow> (bytes \<Rightarrow> bytes) \<Rightarrow> filesys \<Rightarrow> gostring list \<Rightarrow> gostring list \<Rightarrow> StatRequest \<Rightarrow>
   StatResult list option" where
  "StatFiles th oh md5 sha fs roots paths req =
     (if maxStatPaths < length paths then None
      else Some (map (\<lambda>p. case StatFile th oh md5 sha fs roots (req\<lparr>sqPath := p\<rparr>) of
                            Inl e \<Rightarrow> (empty_stat p)\<lparr>srError := Some e\<rparr>
                          | Inr r \<Rightarrow> r) paths))"

section \<open>Text facts\<close>

lemma fold_text_prev: "tsPrev (fold text_step f s) = (if f = [] then tsPrev s else last f)"
  by (induction f rule: rev_induct) (simp_all add: text_step_def Let_def)

lemma fold_text_lf: "tsLF (fold text_step f s) = tsLF s + count_list f nl"
  by (induction f rule: rev_induct) (simp_all add: text_step_def Let_def)

text \<open>The three ways a line can end: CR LF, a bare LF, and a CR followed by something else.\<close>

definition has_crlf :: "bytes \<Rightarrow> bool" where
  "has_crlf f \<longleftrightarrow> (\<exists>a b. f = a @ [cr, nl] @ b)"

definition has_lf :: "bytes \<Rightarrow> bool" where
  "has_lf f \<longleftrightarrow> (\<exists>a b. f = a @ nl # b \<and> (a = [] \<or> last a \<noteq> cr))"

definition has_cr :: "bytes \<Rightarrow> bool" where
  "has_cr f \<longleftrightarrow> (\<exists>a c b. f = a @ [cr, c] @ b \<and> c \<noteq> nl \<and> c \<noteq> cr)"

lemma snoc_split: "xs @ [c] = a @ d # b \<longleftrightarrow> b = [] \<and> xs = a \<and> c = d \<or> (\<exists>b'. b = b' @ [c] \<and> xs = a @ d # b')"
  by (cases b rule: rev_exhaust) auto

lemma has_append: "has_crlf xs \<Longrightarrow> has_crlf (xs @ ys)" "has_cr xs \<Longrightarrow> has_cr (xs @ ys)"
  unfolding has_crlf_def has_cr_def by (metis append.assoc)+

lemma has_crlf_snoc: "has_crlf (xs @ [c]) \<longleftrightarrow> has_crlf xs \<or> c = nl \<and> xs \<noteq> [] \<and> last xs = cr"
proof
  assume "has_crlf (xs @ [c])"
  then obtain a b where "xs @ [c] = (a @ [cr]) @ nl # b" by (auto simp: has_crlf_def)
  then show "has_crlf xs \<or> c = nl \<and> xs \<noteq> [] \<and> last xs = cr"
    unfolding snoc_split by (auto simp: has_crlf_def)
next
  assume "has_crlf xs \<or> c = nl \<and> xs \<noteq> [] \<and> last xs = cr"
  then show "has_crlf (xs @ [c])"
  proof (elim disjE conjE)
    assume "c = nl" "xs \<noteq> []" "last xs = cr"
    then have "xs @ [c] = butlast xs @ [cr, nl] @ []" using append_butlast_last_id [of xs] by simp
    then show ?thesis unfolding has_crlf_def by blast
  qed (simp add: has_append)
qed

lemma has_lf_snoc: "has_lf (xs @ [c]) \<longleftrightarrow> has_lf xs \<or> c = nl \<and> (xs = [] \<or> last xs \<noteq> cr)"
  unfolding has_lf_def snoc_split by auto

lemma has_cr_snoc: "has_cr (xs @ [c]) \<longleftrightarrow> has_cr xs \<or> c \<noteq> nl \<and> c \<noteq> cr \<and> xs \<noteq> [] \<and> last xs = cr"
proof
  assume "has_cr (xs @ [c])"
  then obtain a b d where "xs @ [c] = (a @ [cr]) @ d # b" "d \<noteq> nl" "d \<noteq> cr" by (auto simp: has_cr_def)
  then show "has_cr xs \<or> c \<noteq> nl \<and> c \<noteq> cr \<and> xs \<noteq> [] \<and> last xs = cr"
    unfolding snoc_split by (auto simp: has_cr_def)
next
  assume "has_cr xs \<or> c \<noteq> nl \<and> c \<noteq> cr \<and> xs \<noteq> [] \<and> last xs = cr"
  then show "has_cr (xs @ [c])"
  proof (elim disjE conjE)
    assume "c \<noteq> nl" "c \<noteq> cr" "xs \<noteq> []" "last xs = cr"
    then have "xs @ [c] = butlast xs @ [cr, c] @ []" using append_butlast_last_id [of xs] by simp
    with \<open>c \<noteq> nl\<close> \<open>c \<noteq> cr\<close> show ?thesis unfolding has_cr_def by blast
  qed (simp add: has_append)
qed

lemma text_step_counts:
  "tsLF (text_step c s) = tsLF s + of_bool (c = nl)"
  "tsCRLF (text_step c s) = tsCRLF s + of_bool (c = nl \<and> tsPrev s = cr)"
  "tsCR (text_step c s) = tsCR s + of_bool (c \<noteq> nl \<and> c \<noteq> cr \<and> tsPrev s = cr)"
  by (simp_all add: text_step_def Let_def)

lemma fold_text_counts:
  assumes "s = fold text_step f new_text_scan"
  shows "tsCRLF s \<le> tsLF s" "0 < tsCRLF s \<longleftrightarrow> has_crlf f" "tsCRLF s < tsLF s \<longleftrightarrow> has_lf f" "0 < tsCR s \<longleftrightarrow> has_cr f"
proof -
  let ?s = "\<lambda>f. fold text_step f new_text_scan"
  have "tsCRLF (?s f) \<le> tsLF (?s f) \<and> (0 < tsCRLF (?s f) \<longleftrightarrow> has_crlf f) \<and> (tsCRLF (?s f) < tsLF (?s f) \<longleftrightarrow> has_lf f) \<and>
      (0 < tsCR (?s f) \<longleftrightarrow> has_cr f)"
  proof (induction f rule: rev_induct)
    case Nil
    show ?case by (simp add: new_text_scan_def has_crlf_def has_lf_def has_cr_def)
  next
    case (snoc c f)
    define p where "p \<longleftrightarrow> tsPrev (?s f) = cr"
    have last: "f \<noteq> [] \<and> last f = cr \<longleftrightarrow> p" "f = [] \<or> last f \<noteq> cr \<longleftrightarrow> \<not> p"
      by (auto simp: p_def fold_text_prev new_text_scan_def)
    have snocs: "has_crlf (f @ [c]) \<longleftrightarrow> has_crlf f \<or> c = nl \<and> p" "has_lf (f @ [c]) \<longleftrightarrow> has_lf f \<or> c = nl \<and> \<not> p"
      "has_cr (f @ [c]) \<longleftrightarrow> has_cr f \<or> c \<noteq> nl \<and> c \<noteq> cr \<and> p"
      unfolding has_crlf_snoc has_lf_snoc has_cr_snoc last by simp_all
    have fold: "?s (f @ [c]) = text_step c (?s f)" by simp
    show ?case
      unfolding fold snocs text_step_counts p_def [symmetric]
      using snoc by (cases "c = nl"; cases "c = cr"; cases p) simp_all
  qed
  then show "tsCRLF s \<le> tsLF s" "0 < tsCRLF s \<longleftrightarrow> has_crlf f" "tsCRLF s < tsLF s \<longleftrightarrow> has_lf f" "0 < tsCR s \<longleftrightarrow> has_cr f"
    by (simp_all add: assms)
qed

text \<open>The longest line, carriage returns not counted.\<close>

definition visible :: "bytes \<Rightarrow> nat" where
  "visible l = length (filter (\<lambda>c. c \<noteq> cr) l)"

lemma foldr_max_init: "foldr max xs (max a b) = max b (foldr max xs (a :: nat))"
  by (induction xs) (simp_all add: max.left_commute max.commute)

lemma fold_text_max:
  "max (tsMax (fold text_step f s)) (tsLineLen (fold text_step f s)) =
     (case split_on nl f of l # ls \<Rightarrow> foldr max ((tsLineLen s + visible l) # map visible ls) (tsMax s) | [] \<Rightarrow> 0)"
proof (induction f arbitrary: s)
  case Nil
  show ?case by (simp add: visible_def max.commute)
next
  case (Cons c f)
  obtain l ls where l: "split_on nl f = l # ls" using split_on_not_Nil [of nl f] by (cases "split_on nl f") auto
  consider (line) "c = nl" | (ret) "c = cr" "c \<noteq> nl" | (other) "c \<noteq> nl" "c \<noteq> cr" by blast
  then show ?case
  proof cases
    case line
    then have "tsMax (text_step c s) = max (tsMax s) (tsLineLen s)" "tsLineLen (text_step c s) = 0"
      by (simp_all add: text_step_def Let_def)
    with Cons [of "text_step c s"] line l show ?thesis
      by (simp add: visible_def foldr_max_init max.left_commute)
  next
    case ret
    then have "tsMax (text_step c s) = tsMax s" "tsLineLen (text_step c s) = tsLineLen s" by (simp_all add: text_step_def Let_def)
    with Cons [of "text_step c s"] ret l show ?thesis by (simp add: visible_def)
  next
    case other
    then have "tsMax (text_step c s) = tsMax s" "tsLineLen (text_step c s) = Suc (tsLineLen s)" by (simp_all add: text_step_def Let_def)
    with Cons [of "text_step c s"] other l show ?thesis by (simp add: visible_def)
  qed
qed

lemma foldr_max_max: "xs \<noteq> [] \<Longrightarrow> (\<forall>x \<in> set xs. x \<le> foldr max xs 0) \<and> (foldr max xs (0 :: nat) \<in> set xs)"
proof (induction xs)
  case (Cons x xs)
  then show ?case by (cases "xs = []") (auto simp: max_def)
qed simp

lemma textInfo_max:
  assumes "length f \<le> maxTextScanBytes"
  shows "(\<forall>l \<in> set (split_on nl f). visible l \<le> tiMaxLineLen (textInfo False head f)) \<and>
    (\<exists>l \<in> set (split_on nl f). visible l = tiMaxLineLen (textInfo False head f))"
proof -
  let ?s = "fold text_step f new_text_scan"
  obtain l ls where l: "split_on nl f = l # ls" using split_on_not_Nil [of nl f] by (cases "split_on nl f") auto
  have "max (tsMax ?s) (tsLineLen ?s) = foldr max (map visible (split_on nl f)) 0"
    unfolding fold_text_max by (simp add: l new_text_scan_def)
  then have "tiMaxLineLen (textInfo False head f) = foldr max (map visible (split_on nl f)) 0"
    using assms by (simp add: textInfo_def Let_def)
  with foldr_max_max [of "map visible (split_on nl f)"] show ?thesis by auto
qed

lemma textInfo_lines:
  assumes "length f \<le> maxTextScanBytes"
  shows "tiLines (textInfo False head f) = length (raw_lines f)"
    "tiFinalNewline (textInfo False head f) \<longleftrightarrow> f \<noteq> [] \<and> last f = nl"
    "tiSkipped (textInfo False head f) = None"
  using assms
  by (auto simp: textInfo_def Let_def fold_text_prev fold_text_lf new_text_scan_def windowLines_def simp flip: windowLines_raw)

lemma textInfo_endings:
  assumes "length f \<le> maxTextScanBytes"
  shows "tiLineEndings (textInfo False head f) =
    (if has_crlf f \<and> \<not> has_lf f \<and> \<not> has_cr f then ''crlf''
     else if has_lf f \<and> \<not> has_crlf f \<and> \<not> has_cr f then ''lf''
     else if has_cr f \<and> \<not> has_crlf f \<and> \<not> has_lf f then ''cr''
     else if has_crlf f \<or> has_lf f \<or> has_cr f then ''mixed''
     else ''none'')"
proof -
  define s where "s = fold text_step f new_text_scan"
  note c = fold_text_counts [OF s_def]
  have "tiLineEndings (textInfo False head f) = line_endings (tsLF s) (tsCRLF s) (tsCR s)"
    using assms by (simp add: textInfo_def Let_def s_def)
  also have "\<dots> = (if has_crlf f \<and> \<not> has_lf f \<and> \<not> has_cr f then ''crlf''
     else if has_lf f \<and> \<not> has_crlf f \<and> \<not> has_cr f then ''lf''
     else if has_cr f \<and> \<not> has_crlf f \<and> \<not> has_lf f then ''cr''
     else if has_crlf f \<or> has_lf f \<or> has_cr f then ''mixed''
     else ''none'')"
    unfolding c(2-4) [symmetric] line_endings_def using c(1) by auto
  finally show ?thesis .
qed

section \<open>Links\<close>

lemma Lstat_resolved:
  assumes "resolve fs False cs = Inr q" "names cs"
  obtains (self) x where "Lstat fs cs = Inr x" "lresolve fs cs = Inr q" "node_at fs q = Some x" "\<And>t. x \<noteq> NLink t"
    | (link) t l where "Lstat fs cs = Inr (NLink t)" "lresolve fs cs = Inr l" "node_at fs l = Some (NLink t)"
proof (cases "cs = []")
  case True
  with assms(1) have "q = []" by (simp add: resolve_def)
  with True show thesis using self [of "NDir 493"] by (simp add: Lstat_def lresolve_def)
next
  case False
  then have cs: "cs = butlast cs @ [last cs]" by simp
  have "walks fs False MAXSYMLINKS [] (butlast cs @ [last cs]) q" using assms(1) cs by (simp add: resolve_def walk_iff)
  from walks_split [OF this] obtain d j k where w: "MAXSYMLINKS = j + k" "walks fs False j [] (butlast cs) d" "dirs fs d"
    "walks fs False k d [last cs] q" by auto
  have "resolve fs False (butlast cs) = Inr d" using w(1,2) walks_mono [OF w(2)] by (simp add: resolve_def walk_iff)
  with False have l: "lresolve fs cs = Inr (d @ [last cs])" by (simp add: lresolve_def)
  have "\<not> special (last cs)" using names_special [OF assms(2)] False by simp
  with w(4) show thesis
  proof (cases rule: walks.cases)
    case (w_dir m)
    then have "q = d @ [last cs]" by (auto elim: walks.cases)
    with w_dir l show thesis using self [of "NDir m"] by (simp add: Lstat_def)
  next
    case (w_file dat m)
    with l show thesis using self [of "NFile dat m"] by (simp add: Lstat_def)
  next
    case (w_link t n)
    with l show thesis using link [of t "d @ [last cs]"] by (simp add: Lstat_def)
  qed (simp_all add: special_def)
qed

lemma validateLinkPath_names:
  assumes "validateLinkPath fs path roots = Inr ap" "IsAbs (workdir fs)"
  shows "names (clean_comps ap)" "Clean (Abs (workdir fs) ap) = ap" "IsAbs ap"
proof -
  have ap: "ap = Clean (Abs (workdir fs) path)"
    using assms(1) by (auto simp: validateLinkPath_def Let_def split: if_splits sum.splits)
  have abs: "IsAbs (Abs (workdir fs) path)" using IsAbs_Abs [OF assms(2), of path] by simp
  then show a: "IsAbs ap" by (simp add: ap)
  then show "names (clean_comps ap)" by (rule names_clean_comps)
  show "Clean (Abs (workdir fs) ap) = ap" using a abs by (simp add: Abs_def) (simp add: ap Clean_Clean)
qed

text \<open>C3: stat gives nothing away about what lies outside the roots: when an accepted path leads to a place
  outside them, it is a link, and the answer is made of the link alone (its target text, its own size and
  time); hash, encoding, text facts, owner and kind of the target are not in it.\<close>

theorem stat_confined:
  assumes "validateLinkPath fs (sqPath req) roots = Inr ap" "roots \<noteq> []" "list_all IsAbs roots" "IsAbs (workdir fs)"
    "\<not> list_ex (\<lambda>r. ap = Clean r) roots" "resolve fs False (clean_comps ap) = Inr q"
    "\<not> underRoots (path_of True q) (resolveRoots fs roots)"
  shows "\<exists>t l. lresolve fs (clean_comps ap) = Inr l \<and> node_at fs l = Some (NLink t) \<and>
    StatFile th oh md5 sha fs roots req =
      Inr ((empty_stat ap)\<lparr>srExists := True, srIsSymlink := True, srTarget := t, srTargetOutsideRoots := True,
             srSize := length t, srMode := ''Lrwxrwxrwx'', srModTime := tpFormat th (tpModTime th l)\<rparr>)"
proof -
  note ap = validateLinkPath_names [OF assms(1,4)]
  from assms(6) ap(1) show ?thesis
  proof (cases rule: Lstat_resolved)
    case (self x)
    then have "underRoots (path_of True q) (resolveRoots fs roots)"
      using validateLinkPath_confined [OF assms(1-5)] by blast
    with assms(7) show ?thesis by blast
  next
    case (link t l)
    obtain e where "validatePath fs ap roots = Inl e"
    proof (cases "validatePath fs ap roots")
      case (Inr ap')
      then have "ap' = ap" using ap(2) by (auto simp: validatePath_def Let_def split: if_splits sum.splits)
      with Inr have "underRoots (path_of True q) (resolveRoots fs roots)"
        using validatePath_confined [of fs ap roots ap False q] assms(2-4,6) by simp
      with assms(7) show thesis by blast
    qed
    with link assms(1) show ?thesis
      by (simp add: StatFile_def Let_def Readlink_def entry_size_def mode_text_def)
  qed
qed


section \<open>Listings\<close>

lemma children_iff: "c \<in> set (children fs d) \<longleftrightarrow> node_at fs (d @ [c]) \<noteq> None"
proof
  assume "c \<in> set (children fs d)"
  then obtain q where "q \<in> set (map fst (nodes fs))" "q \<noteq> []" "butlast q = d" "last q = c" by (auto simp: children_def)
  then have "d @ [c] \<in> set (map fst (nodes fs))" by (metis append_butlast_last_id)
  then show "node_at fs (d @ [c]) \<noteq> None" by (simp add: node_at_def map_of_eq_None_iff)
next
  assume "node_at fs (d @ [c]) \<noteq> None"
  then have "d @ [c] \<in> set (map fst (nodes fs))" by (simp add: node_at_def map_of_eq_None_iff)
  then show "c \<in> set (children fs d)"
    unfolding children_def by (auto intro!: image_eqI [of _ last "d @ [c]"])
qed

lemma children_sorted: "sorted_wrt (<) (children fs d)"
  by (simp add: children_def strict_sorted_iff)

lemma list_entries_map:
  "list_entries_of fs th oh req g ap d ns =
     map (\<lambda>c. dir_entry fs th oh ap d c (the (node_at fs (d @ [c]))))
       (filter (\<lambda>c. list_shows req g ap c \<and> node_at fs (d @ [c]) \<noteq> None) ns)"
  by (induction ns) (auto split: option.split)

lemma list_entries_mem:
  "e \<in> set (list_entries_of fs th oh req g ap d (children fs d)) \<longleftrightarrow>
     (\<exists>c x. node_at fs (d @ [c]) = Some x \<and> (isHiddenName c \<longrightarrow> ldIncludeHidden req) \<and>
       glob_match g c c (Join [ap, c]) \<and> e = dir_entry fs th oh ap d c x)" (is "?l \<longleftrightarrow> ?r")
proof -
  have "?l \<longleftrightarrow> (\<exists>c. node_at fs (d @ [c]) \<noteq> None \<and> list_shows req g ap c \<and>
      e = dir_entry fs th oh ap d c (the (node_at fs (d @ [c]))))"
    unfolding list_entries_map set_map set_filter children_iff by blast
  also have "\<dots> \<longleftrightarrow> ?r"
    unfolding list_shows_def by (metis option.sel option.distinct(1) option.exhaust)
  finally show ?thesis .
qed

lemma list_entries_sorted: "sorted_wrt (<) (map deName (list_entries_of fs th oh req g ap d (children fs d)))"
proof -
  have "map deName (list_entries_of fs th oh req g ap d (children fs d)) =
      filter (\<lambda>c. list_shows req g ap c \<and> node_at fs (d @ [c]) \<noteq> None) (children fs d)"
    unfolding list_entries_map by (simp add: dir_entry_def comp_def)
  then show ?thesis using sorted_wrt_filter [OF children_sorted] by simp
qed

lemma stable_insert_ordered:
  fixes k :: "'a \<Rightarrow> 'b :: linorder" and n :: "'a \<Rightarrow> 'c :: linorder"
  shows "sorted_wrt (\<lambda>a b. k b < k a \<or> k a = k b \<and> n a < n b) ys \<Longrightarrow> \<forall>y \<in> set ys. n x < n y \<Longrightarrow>
    sorted_wrt (\<lambda>a b. k b < k a \<or> k a = k b \<and> n a < n b) (stable_insert (\<lambda>a b. k b < k a) x ys)"
proof (induction ys)
  case (Cons y ys)
  then show ?case by (cases "k x < k y") (auto simp: not_less)
qed simp

text \<open>A stable sort of entries in name order breaks ties by name.\<close>

lemma SliceStable_ordered:
  fixes k :: "'a \<Rightarrow> 'b :: linorder" and n :: "'a \<Rightarrow> 'c :: linorder"
  shows "sorted_wrt (\<lambda>a b. n a < n b) xs \<Longrightarrow>
    sorted_wrt (\<lambda>a b. k b < k a \<or> k a = k b \<and> n a < n b) (SliceStable (\<lambda>a b. k b < k a) xs)"
proof (induction xs)
  case (Cons x xs)
  have "set (SliceStable (\<lambda>a b. k b < k a) xs) = set xs" by (metis mset_SliceStable set_mset_mset)
  with Cons show ?case by (simp add: SliceStable_def stable_insert_ordered)
qed (simp add: SliceStable_def)

lemma SliceStable_sorted: "sorted_wrt (\<lambda>a b. \<not> bef b a) xs \<Longrightarrow> SliceStable bef xs = xs"
proof (induction xs)
  case (Cons x xs)
  then have "SliceStable bef xs = xs" by simp
  then show ?case using Cons.prems by (cases xs) (simp_all add: SliceStable_def)
qed (simp add: SliceStable_def)

text \<open>The order of a listing.\<close>

definition listed_before :: "gostring \<Rightarrow> DirEntry \<Rightarrow> DirEntry \<Rightarrow> bool" where
  "listed_before by a b \<longleftrightarrow>
     (if by = ''mtime'' then deModTime b < deModTime a \<or> deModTime a = deModTime b \<and> deName a < deName b
      else if by = ''size'' then
        \<not> deIsDir a \<and> (deIsDir b \<or> deSize b < deSize a) \<or>
        (deIsDir a \<longleftrightarrow> deIsDir b) \<and> (deIsDir a \<or> deSize a = deSize b) \<and> deName a < deName b
      else deName a < deName b)"

lemma list_sort_ordered:
  assumes "sorted_wrt (\<lambda>a b. deName a < deName b) es"
  shows "sorted_wrt (listed_before by) (list_sort by es)"
proof -
  let ?k = "\<lambda>e. if deIsDir e then -1 else int (deSize e)"
  have larger: "larger_first = (\<lambda>a b. ?k b < ?k a)" by (auto simp: larger_first_def fun_eq_iff)
  consider (mtime) "by = ''mtime''" | (size) "by = ''size''" | (name) "by \<noteq> ''mtime''" "by \<noteq> ''size''" by blast
  then show ?thesis
  proof cases
    case mtime
    then show ?thesis using SliceStable_ordered [OF assms, of deModTime] by (simp add: list_sort_def listed_before_def [abs_def])
  next
    case size
    have "sorted_wrt (\<lambda>a b. ?k b < ?k a \<or> ?k a = ?k b \<and> deName a < deName b) (list_sort by es)"
      using SliceStable_ordered [OF assms, of ?k] by (simp add: size list_sort_def larger)
    then show ?thesis
      by (rule sorted_wrt_mono_rel [rotated]) (auto simp: size listed_before_def split: if_splits)
  next
    case name
    have "SliceStable (\<lambda>a b. deName a < deName b) es = es"
      using assms by (intro SliceStable_sorted) (auto elim!: sorted_wrt_mono_rel [rotated])
    then show ?thesis using assms name by (simp add: list_sort_def listed_before_def [abs_def])
  qed
qed

lemma mset_list_sort: "mset (list_sort by es) = mset es"
  by (simp add: list_sort_def)


section \<open>Applied\<close>

definition list_host :: time_host where
  "list_host = \<lparr>tpRFC3339 = Map.empty, tpDays = Map.empty, tpDuration = Map.empty, tpFormat = (\<lambda>_. ''t''), tpModTime = (\<lambda>_. 0),
     tpDirSize = (\<lambda>_. 4096)\<rparr>"

definition list_owners :: owner_host where
  "list_owners = \<lparr>ohOwner = (\<lambda>_. ''root''), ohGroup = (\<lambda>_. ''root''), ohNlink = (\<lambda>_. 1)\<rparr>"

definition list_fs :: filesys where
  "list_fs = \<lparr>nodes = [([''r''], NDir 493), ([''r'', ''a''], NFile [CHR ''x'', cr, nl, CHR ''y''] 420), ([''r'', ''.h''], NFile [] 420),
     ([''r'', ''l''], NLink ''/out''), ([''out''], NFile ''z'' 420)], workdir = ''/'', umask = 18\<rparr>"


definition stat_request :: "gostring \<Rightarrow> StatRequest" where
  "stat_request p = \<lparr>sqPath = p, sqIncludeHash = [], sqIncludeEncoding = True, sqIncludeText = True\<rparr>"

theorem stat_confined_witness:
  "\<exists>r. StatFile list_host list_owners id id list_fs [''/r''] (stat_request ''/r/l'') = Inr r \<and>
     srTargetOutsideRoots r \<and> srTarget r = ''/out'' \<and> srText r = None"
proof -
  have v: "validateLinkPath list_fs (sqPath (stat_request ''/r/l'')) [''/r''] = Inr ''/r/l''" by code_simp
  have l: "resolve list_fs False (clean_comps ''/r/l'') = Inr [''out'']" "lresolve list_fs (clean_comps ''/r/l'') = Inr [''r'', ''l'']"
    "node_at list_fs [''r'', ''l''] = Some (NLink ''/out'')" "\<not> underRoots (path_of True [''out'']) (resolveRoots list_fs [''/r''])"
    "list_all IsAbs [''/r'']" "IsAbs (workdir list_fs)" "\<not> list_ex (\<lambda>r. ''/r/l'' = Clean r) [''/r'']" by code_simp+
  from stat_confined [OF v _ l(5,6,7,1,4), of list_host list_owners id id] l(2,3) show ?thesis by (auto simp: empty_stat_def)
qed


end
