(* ===== verification/Spec2Isabelle.thy ===== *)
theory Spec2Isabelle
  imports Text_Encoding Tail_Log Capped_Output Client_Ip Server_Config Executor Executions Sessions Jobs
    Wait_Scan Waits Rate_Limit Token_Auth File_Edits File_Service
    Search Find_Files Diff_Files Proc_Info Probes Read_Many Listings
begin

text \<open>
  Verification library of the remote command server (a Go MCP server: \<open>src/*.go\<close>).

  \<^bold>\<open>The program.\<close>  The server gives an agent a host to work on: it runs commands (\<open>executor.go\<close>,
  \<open>executions.go\<close>, \<open>jobs.go\<close>, \<open>session.go\<close>), reads, searches, writes and manages files
  (\<open>readops.go\<close>, \<open>taillog.go\<close>, \<open>searchops.go\<close>, \<open>fileops.go\<close>, \<open>manageops.go\<close>,
  \<open>diff.go\<close>), and waits for conditions (\<open>waitfor.go\<close>, \<open>waits.go\<close>).  Every request passes the
  client address resolution, the rate limiter and the bearer authentication (\<open>clientip.go\<close>,
  \<open>middleware.go\<close>, \<open>auth.go\<close>); every file path passes the sandbox (\<open>validatePath\<close>), and every
  operation with an effect passes the read-only guard (\<open>readonly.go\<close>).

  \<^bold>\<open>How the theories are layered.\<close>
  \<^item> \<open>Go_Prelude\<close>, \<open>Utf8\<close>, \<open>Paths\<close>, \<open>Base64\<close>: the language and the parts of the standard library the
    source uses (byte strings, 64-bit wrap-around, \<open>strings\<close>, \<open>strconv\<close>, \<open>unicode/utf8\<close>,
    \<open>path/filepath\<close>, \<open>encoding/base64\<close>), with the lemmas the components share.
  \<^item> \<open>File_System\<close>, \<open>File_Changes\<close>: the tree of files, directories and symbolic links the \<open>os\<close> package
    shows, resolution of a path by the kernel (40 links) and by \<open>filepath.EvalSymlinks\<close> (255), and the
    calls that change the tree.
  \<^item> \<open>Registry\<close>: the registries of jobs, sessions, executions and waits; the locale \<open>retention\<close> is the
    contract of their clean-up (what is kept, how many) and is interpreted in \<open>Executions\<close>, \<open>Jobs\<close> and
    \<open>Waits\<close> on the code's own sweeps.
  \<^item> \<open>Text_Encoding\<close> (\<open>fileops.go\<close>, detection and decoding), \<open>Capped_Output\<close> (\<open>output.go\<close>; the locale
    \<open>stream_writer\<close> is the contract of a writer fed in chunks), \<open>Client_Ip\<close>, \<open>Server_Config\<close>
    (\<open>config.go\<close>, \<open>readonly.go\<close>), \<open>Executor\<close>, \<open>Executions\<close>, \<open>Sessions\<close>, \<open>Jobs\<close>, \<open>Wait_Scan\<close> and
    \<open>Waits\<close> (\<open>waitfor.go\<close>, \<open>waits.go\<close>), \<open>Rate_Limit\<close> (\<open>middleware.go\<close>), \<open>Token_Auth\<close> (\<open>auth.go\<close>),
    \<open>Line_Diff\<close> (\<open>diff.go\<close>), \<open>Sandbox\<close> (\<open>validatePath\<close>, \<open>validateLinkPath\<close>), \<open>Manage_Ops\<close>
    (\<open>manageops.go\<close>), \<open>File_Ops\<close> and \<open>File_Edits\<close> (writing, editing, uploading, downloading).
  \<^item> \<open>Read_Window\<close>, \<open>Gb_Edges\<close>, \<open>Line_Reader\<close>, \<open>Read_File\<close>: \<open>remote_read_file\<close> (\<open>readops.go\<close> and the
    backward read of \<open>taillog.go\<close>).  \<open>Patterns\<close> and \<open>Tail_Log\<close>: \<open>remote_tail_log\<close>, with the scan for the
    last matching lines, the byte and line cursors and the follow loop over the states it polls.
    \<open>Read_Many\<close>: \<open>remote_read_files\<close>, patterns and several files with one budget.
  \<^item> \<open>Globs\<close>, \<open>Walk_Tree\<close> (\<open>globs.go\<close>), \<open>Search\<close>, \<open>Find_Files\<close> (\<open>searchops.go\<close>): the translation of globs, the
    walk of a tree (every entry once, in lexical order), \<open>remote_search_content\<close> in pages and
    \<open>remote_find_files\<close>.
  \<^item> \<open>Listings\<close> (\<open>fileops.go\<close>): \<open>remote_list_dir\<close> and \<open>remote_stat\<close>, with the text facts of a file.
  \<^item> \<open>Diff_Files\<close> (\<open>diffops.go\<close>): \<open>remote_diff\<close> of two files and of two trees, over \<open>Line_Diff\<close> and
    \<open>Walk_Tree\<close>.
  \<^item> \<open>Proc_Info\<close> (\<open>procinfo.go\<close>, \<open>procinfo_linux.go\<close>): the lines of \<open>/proc\<close>, the process list and the
    listening sockets.
  \<^item> \<open>Probes\<close> (\<open>buildProbe\<close> of \<open>waitfor.go\<close>): the six conditions of \<open>remote_wait_for\<close>, over files, jobs,
    processes, sockets and the executor.
  \<^item> \<open>File_Service\<close>: the calls that change the host as one step, and sequences of them.

  \<^bold>\<open>How the model corresponds to the code.\<close>  A definition has the name of the function it
  translates; a struct is a record with a short prefix on its fields; an operation that changes state
  takes the state (a registry, the file system, the read-only latch) and returns it.  Errors are
  values of a sum, one constructor for each message of the code; a hint text is the datatype of the
  numbers in it.  Loops are recursive functions with a termination proof, at the granularity of the
  code (\<open>ReadSlice\<close> chunks of 64 KiB, tail blocks of 32 KiB, one interval of the ticker).  Concurrency
  is the interleaving of critical sections: in \<open>Executions\<close> and \<open>Jobs\<close> as step relations whose
  reachable states carry the invariants, in \<open>Waits\<close> as the list of what each \<open>select\<close> chose.  The
  clock is an argument.  Byte counts and line numbers are natural numbers; 64-bit wrap-around is
  written out where the code can reach it (durations made from requests).

  \<^bold>\<open>Parameters.\<close> Code outside \<open>src/\<close> is an argument: the GBK and
  GB18030 codec, SHA-256, the regular expressions, the parsing and formatting of times, the lint
  programs, the processes the executor starts, the contents of \<open>/proc\<close>, what
  \<open>filepath.Glob\<close> returns, the order an unstable sort gives to equal elements and the
  device boundaries of the file system. What a theorem needs of them is one of its hypotheses (that the
  decoder reads text character by character; that a digest has 32 bytes), with a witness on a concrete
  function.

  \<^bold>\<open>Bounds and fuel.\<close>  \<open>copyDirRecursive\<close> walks the tree it extends, so it may not end: it has fuel,
  one unit for each directory entry, and returning is part of what is proved about it.  The clients
  that follow a cursor (\<open>line_pages\<close>, \<open>read_pages\<close>, \<open>search_pages\<close>) have fuel too; the number of lines, of
  bytes or of results, plus one, is proved to be enough.

  \<^bold>\<open>What the theorems show.\<close> Sandbox: an accepted path leads inside the roots, and
  the one way it does not. Files: writes store exactly the encoded content and touch nothing else;
  previews predict them; a failed edit changes nothing; chunked uploads are read back; deleting, moving
  and copying affect one subtree. Reading: following the cursors returns the whole file, no character
  cut, lost or repeated, for UTF-8, GBK and GB18030; line and tail windows are exactly the lines asked
  for. Following a log by its byte cursor delivers every appended byte once, a line cursor the complete
  lines that fit, and a filter exactly the last matching lines. A call that reads several files accounts
  for every one, and a pattern names nothing outside the roots. A listing is exactly what the directory
  holds, and stat tells nothing about a target outside the roots. Searching: the pages of a search are
  all its results, once and in order, and these are exactly the matching lines of the files the filters
  admit; finding returns exactly the entries that pass. Comparing: a tree comparison that is not
  truncated lists exactly the differences of what the two walks reach, trees reported as identical hold
  the same bytes, and files are identical exactly when their bytes (or, ignoring space, the words of
  their lines) are. Processes and ports: the kernel's lines are read back, the listings hold exactly
  what was asked for. Read-only mode: no sequence of calls changes the file system, starts a command or
  a job. Commands: nothing runs behind a guard; output capture keeps exactly the head or the tail;
  outcomes are delivered once; finished entries are retained and bounded. Waiting: a match appended to a
  log is found whatever the polling schedule, and a wait is satisfied at the first check that finds its
  condition. Front door: the rate limit bounds what a client gets, tokens verify, forwarded addresses
  are trusted only through trusted proxies.

  \<^bold>\<open>Not modelled.\<close> File permissions; owners and modification times belong to the
  host, not to the file tree, and no operation changes them; I/O errors in the middle of an operation;
  the file system does not change under an operation, so races between validation and use are outside.
  Roots and the working directory are absolute. The token counts of the rate limiter are exact rationals
  instead of \<open>float64\<close>. The tool handlers (\<open>mcp*.go\<close>), text rendering, the
  audit log, system information, the process listings of other platforms and the program start are input
  and output around the components.
\<close>

end
